(* ===== verification/Interleaving.thy ===== *)
theory Interleaving
  imports Main "HOL-Library.Multiset"
begin

text \<open>
  Calls that run concurrently. A call is a finite program of atomic steps: each step is what
  one lock protects (an operation of the queue, of the scheduler or of the repository), and
  between two steps of a call the steps of other calls may come. \<open>run\<close> is the call running
  alone; a pool of calls moves by \<open>pool_step\<close>, one atomic step of any unfinished call.
\<close>

datatype ('s, 'a) prog = Done 'a | Step "'s \<Rightarrow> 's \<times> ('s, 'a) prog"

definition atomic :: "('s \<Rightarrow> 'x \<times> 's) \<Rightarrow> ('x \<Rightarrow> ('s, 'a) prog) \<Rightarrow> ('s, 'a) prog" where
  "atomic f k = Step (\<lambda>s. case f s of (x, s') \<Rightarrow> (s', k x))"

lemma map_atomic: "map_prog g (atomic f k) = atomic f (\<lambda>x. map_prog g (k x))"
  by (auto simp: atomic_def split: prod.split)

lemma atomic_not_Done [simp]: "atomic f k \<noteq> Done a"
  by (simp add: atomic_def)

primrec run :: "('s, 'a) prog \<Rightarrow> 's \<Rightarrow> 'a \<times> 's" where
  "run (Done a) = (\<lambda>s. (a, s))"
| "run (Step f) = (\<lambda>s. case (map_prod id run \<circ> f) s of (s', k) \<Rightarrow> k s')"

lemma run_Done [simp]: "run (Done a) s = (a, s)"
  by simp

lemma run_Step: "run (Step f) s = (case f s of (s', p) \<Rightarrow> run p s')"
  by (simp add: map_prod_def split: prod.split)

lemma run_atomic [simp]: "run (atomic f k) s = (case f s of (x, s') \<Rightarrow> run (k x) s')"
  by (simp add: atomic_def run_Step split: prod.split)

declare run.simps [simp del]

lemma run_map: "run (map_prog g p) s = map_prod g id (run p s)"
proof (induction p arbitrary: s)
  case (Step f)
  obtain s' p where f: "f s = (s', p)" by fastforce
  then have "run (map_prog g p) s' = map_prod g id (run p s')" using Step.IH by (metis rangeI snd_conv snds.intros)
  then show ?case using f by (simp add: run_Step id_def)
qed simp

subsection \<open>What every step of a program respects\<close>

primrec all_steps :: "('s \<Rightarrow> 's \<Rightarrow> bool) \<Rightarrow> ('s, 'a) prog \<Rightarrow> bool" where
  "all_steps R (Done a) = True"
| "all_steps R (Step f) = (\<forall>s. R s (fst (f s)) \<and> snd ((map_prod id (all_steps R) \<circ> f) s))"

lemma all_steps_Step: "all_steps R (Step f) \<longleftrightarrow> (\<forall>s. R s (fst (f s)) \<and> all_steps R (snd (f s)))"
  by simp

declare all_steps.simps(2) [simp del]

lemma all_steps_atomic:
  assumes "\<And>s. R s (snd (f s))" and "\<And>x. all_steps R (k x)"
  shows "all_steps R (atomic f k)"
  using assms by (auto simp: atomic_def all_steps_Step split: prod.split) (metis snd_conv)

lemma all_steps_map: "all_steps R p \<Longrightarrow> all_steps R (map_prog g p)"
proof (induction p)
  case (Step f)
  then show ?case by (auto simp: all_steps_Step) (metis prod.collapse snds.intros rangeI)
qed simp

text \<open>The same for a relation that also sees what is left of the program after the step.\<close>

primrec all_moves :: "('s \<Rightarrow> 's \<Rightarrow> ('s, 'a) prog \<Rightarrow> bool) \<Rightarrow> ('s, 'a) prog \<Rightarrow> bool" where
  "all_moves Q (Done a) = True"
| "all_moves Q (Step f) = (\<forall>s. Q s (fst (f s)) (snd (f s)) \<and> snd ((map_prod id (all_moves Q) \<circ> f) s))"

lemma all_moves_Step: "all_moves Q (Step f) \<longleftrightarrow> (\<forall>s. Q s (fst (f s)) (snd (f s)) \<and> all_moves Q (snd (f s)))"
  by simp

declare all_moves.simps(2) [simp del]

lemma all_moves_atomic:
  assumes "\<And>s. Q s (snd (f s)) (k (fst (f s)))" and "\<And>x. all_moves Q (k x)"
  shows "all_moves Q (atomic f k)"
proof -
  have "Q s s' (k x)" if "f s = (x, s')" for s x s' using assms(1) [of s] that by simp
  then show ?thesis using assms(2) by (auto simp: atomic_def all_moves_Step split: prod.split)
qed

lemma all_steps_moves:
  assumes "\<And>s s' p'. R s s' \<Longrightarrow> Q s s' (map_prog g p')"
  shows "all_steps R p \<Longrightarrow> all_moves Q (map_prog g p)"
proof (induction p)
  case (Step f)
  then have "all_moves Q (map_prog g (snd (f s)))" for s
    by (simp add: all_steps_Step) (metis prod.collapse snds.intros rangeI)
  then show ?case using Step.prems assms by (simp add: all_moves_Step all_steps_Step)
qed simp

lemma run_respects:
  assumes "reflp R" and "transp R"
  shows "all_steps R p \<Longrightarrow> R s (snd (run p s))"
proof (induction p arbitrary: s)
  case (Done a)
  then show ?case using assms(1) by (simp add: reflp_def)
next
  case (Step f)
  obtain s' p where f: "f s = (s', p)" by fastforce
  then have "R s s'" "all_steps R p" using Step.prems by (simp_all add: all_steps_Step) (metis fst_conv, metis snd_conv)
  moreover from this have "R s' (snd (run p s'))" using Step.IH f by (metis rangeI snd_conv snds.intros)
  ultimately show ?case using f assms(2) by (simp add: run_Step) (metis transpD)
qed

text \<open>An invariant of the state that every step keeps, and what then holds of the result. Only results
  of steps from states with the invariant count, so that a step may pass on what it has read.\<close>

primrec maintains :: "('s \<Rightarrow> bool) \<Rightarrow> ('a \<Rightarrow> bool) \<Rightarrow> ('s, 'a) prog \<Rightarrow> bool" where
  "maintains I A (Done a) = A a"
| "maintains I A (Step f) = (\<forall>s. I s \<longrightarrow> I (fst (f s)) \<and> snd ((map_prod id (maintains I A) \<circ> f) s))"

lemma maintains_Step: "maintains I A (Step f) \<longleftrightarrow> (\<forall>s. I s \<longrightarrow> I (fst (f s)) \<and> maintains I A (snd (f s)))"
  by simp

declare maintains.simps(2) [simp del]

lemma maintains_atomic:
  assumes "\<And>s x s'. I s \<Longrightarrow> f s = (x, s') \<Longrightarrow> I s' \<and> maintains I A (k x)"
  shows "maintains I A (atomic f k)"
proof -
  have "I (snd (f s)) \<and> maintains I A (k (fst (f s)))" if "I s" for s using assms [OF that, of "fst (f s)" "snd (f s)"] by simp
  then show ?thesis by (auto simp: atomic_def maintains_Step case_prod_beta)
qed

lemma maintains_map:
  assumes "\<And>a. A a \<Longrightarrow> B (g a)"
  shows "maintains I A p \<Longrightarrow> maintains I B (map_prog g p)"
proof (induction p)
  case (Step f)
  have "maintains I B (map_prog g (snd (f s)))" if "I s" for s
    using Step that by (simp add: maintains_Step) (metis prod.collapse rangeI snds.intros)
  then show ?case using Step.prems by (simp add: maintains_Step)
qed (use assms in simp)

lemma run_maintains: "maintains I A p \<Longrightarrow> I s \<Longrightarrow> run p s = (a, s') \<Longrightarrow> I s' \<and> A a"
proof (induction p arbitrary: s)
  case (Step f)
  obtain s1 p where f: "f s = (s1, p)" by fastforce
  then have "I s1" "maintains I A p" using Step.prems(1,2) by (auto simp: maintains_Step)
  then show ?case using Step.IH [of "f s" p s1] Step.prems(3) f by (simp add: run_Step) (metis rangeI)
qed simp

subsection \<open>Pools of calls\<close>

inductive pool_step :: "'s \<times> ('s, 'a) prog list \<Rightarrow> 's \<times> ('s, 'a) prog list \<Rightarrow> bool" where
  pool_step: "i < length ps \<Longrightarrow> ps ! i = Step f \<Longrightarrow> f s = (s', p) \<Longrightarrow> pool_step (s, ps) (s', ps[i := p])"

inductive_cases pool_stepE: "pool_step (s, ps) c'"

abbreviation pool_steps :: "'s \<times> ('s, 'a) prog list \<Rightarrow> 's \<times> ('s, 'a) prog list \<Rightarrow> bool" where
  "pool_steps \<equiv> pool_step\<^sup>*\<^sup>*"

lemma pool_step_respects:
  assumes "pool_step (s, ps) (s', ps')" and "\<forall>p \<in> set ps. all_steps R p"
  shows "R s s' \<and> (\<forall>p \<in> set ps'. all_steps R p)"
proof -
  from assms(1) obtain i f p where i: "i < length ps" "ps ! i = Step f" "f s = (s', p)" "ps' = ps[i := p]"
    by (auto elim: pool_stepE)
  then have "all_steps R (Step f)" using assms(2) by (metis nth_mem)
  then have "R s s'" "all_steps R p" using i(3) by (simp_all add: all_steps_Step) (metis fst_conv, metis snd_conv)
  then show ?thesis using assms(2) i(4) set_update_subset_insert [of ps i p] by blast
qed

text \<open>A preorder that every atomic step respects holds from start to end of every
  interleaving.\<close>

lemma pool_steps_respects:
  assumes "reflp R" and "transp R" and "pool_steps (s, ps) (s', ps')" and "\<forall>p \<in> set ps. all_steps R p"
  shows "R s s' \<and> (\<forall>p \<in> set ps'. all_steps R p)"
  using assms(3)
proof (induction rule: rtranclp_induct2)
  case refl
  then show ?case using assms(1,4) by (simp add: reflp_def)
next
  case (step s1 ps1 s2 ps2)
  then have "R s s1" "R s1 s2" "\<forall>p \<in> set ps2. all_steps R p" using pool_step_respects [OF step.hyps(2)] by blast+
  then show ?case using transpD [OF assms(2)] by blast
qed

lemma pool_length: "pool_steps (s, ps) (s', ps') \<Longrightarrow> length ps' = length ps"
  by (induction rule: rtranclp_induct2) (auto elim: pool_stepE)

lemma pool_maintains:
  assumes "pool_steps (s, ps) (s', ps')" "I s" "\<forall>p \<in> set ps. maintains I A p"
  shows "I s' \<and> (\<forall>p \<in> set ps'. maintains I A p)"
  using assms
proof (induction rule: rtranclp_induct2)
  case (step s1 ps1 s2 ps2)
  then have ok: "I s1" "\<forall>p \<in> set ps1. maintains I A p" by blast+
  obtain i f p where i: "i < length ps1" "ps1 ! i = Step f" "f s1 = (s2, p)" "ps2 = ps1[i := p]"
    using step.hyps(2) by (auto elim: pool_stepE)
  have "maintains I A (Step f)" using ok(2) i(1,2) by (metis nth_mem)
  then have "I s2" "maintains I A p" using ok(1) i(3) by (auto simp: maintains_Step)
  then show ?case using ok(2) i(4) set_update_subset_insert [of ps1 i p] by blast
qed simp

text \<open>A call running alone is one of the interleavings.\<close>

lemma run_pool:
  "i < length ps \<Longrightarrow> ps ! i = p \<Longrightarrow> run p s = (a, s') \<Longrightarrow> pool_steps (s, ps) (s', ps[i := Done a])"
proof (induction p arbitrary: s ps)
  case (Done b)
  then have "ps[i := Done a] = ps" by (metis list_update_id prod.inject run_Done)
  then show ?case using Done by simp
next
  case (Step f)
  obtain s1 p where f: "f s = (s1, p)" by fastforce
  have "pool_step (s, ps) (s1, ps[i := p])" using Step.prems(1,2) f by (rule pool_step)
  moreover have "pool_steps (s1, ps[i := p]) (s', ps[i := p, i := Done a])"
    using Step.IH [of "f s" p "ps[i := p]" s1] Step.prems f by (simp add: run_Step) (metis rangeI)
  ultimately show ?case by (simp add: converse_rtranclp_into_rtranclp)
qed

subsection \<open>Numbers of steps\<close>

text \<open>A program ends within \<open>n\<close> steps, whatever the states are that its steps find.\<close>

primrec ends_in :: "('s, 'a) prog \<Rightarrow> nat \<Rightarrow> bool" where
  "ends_in (Done a) = (\<lambda>n. True)"
| "ends_in (Step f) = (\<lambda>n. \<exists>m. n = Suc m \<and> (\<forall>s. snd ((map_prod id ends_in \<circ> f) s) m))"

lemma within_Done [simp]: "ends_in (Done a) n"
  by simp

lemma within_Step: "ends_in (Step f) n \<longleftrightarrow> (\<exists>m. n = Suc m \<and> (\<forall>s. ends_in (snd (f s)) m))"
  by simp

declare ends_in.simps [simp del]

lemma within_atomic:
  assumes "\<And>s x s'. f s = (x, s') \<Longrightarrow> ends_in (k x) m"
  shows "ends_in (atomic f k) (Suc m)"
  using assms by (auto simp: atomic_def within_Step case_prod_beta) (metis prod.collapse)

lemma within_atomic_pred: "0 < n \<Longrightarrow> (\<And>s x s'. f s = (x, s') \<Longrightarrow> ends_in (k x) (n - 1)) \<Longrightarrow> ends_in (atomic f k) n"
  using within_atomic [of f k "n - 1"] by simp

lemma within_mono: "ends_in p m \<Longrightarrow> m \<le> n \<Longrightarrow> ends_in p n"
proof (induction p arbitrary: m n)
  case (Step f)
  obtain k where k: "m = Suc k" "\<forall>s. ends_in (snd (f s)) k" using Step.prems(1) by (auto simp: within_Step)
  then have "ends_in (snd (f s)) (n - 1)" for s
    using Step.IH [of "f s" "snd (f s)" k "n - 1"] Step.prems(2) by (metis Suc_diff_1 Suc_le_mono less_le_trans prod.collapse rangeI snds.intros zero_less_Suc)
  then show ?case using k(1) Step.prems(2) by (auto simp: within_Step intro!: exI [of _ "n - 1"])
qed simp

lemma within_map: "ends_in p n \<Longrightarrow> ends_in (map_prog g p) n"
proof (induction p arbitrary: n)
  case (Step f)
  then show ?case by (auto simp: within_Step) (metis prod.collapse rangeI snds.intros)
qed simp

text \<open>Steps of a pool are paid from the budgets of its calls.\<close>

lemma pool_step_budget:
  assumes "pool_step (s, ps) (s', ps')" "list_all2 ends_in ps ns"
  shows "\<exists>ns'. list_all2 ends_in ps' ns' \<and> Suc (sum_list ns') = sum_list ns"
proof -
  obtain i f p where i: "i < length ps" "ps ! i = Step f" "f s = (s', p)" "ps' = ps[i := p]"
    using assms(1) by (auto elim: pool_stepE)
  have l: "i < length ns" using i(1) assms(2) by (simp add: list_all2_lengthD [symmetric])
  have "ends_in (Step f) (ns ! i)" using list_all2_nthD [OF assms(2) i(1)] i(2) by simp
  then obtain m where m: "ns ! i = Suc m" "ends_in p m" using i(3) by (auto simp: within_Step) (metis snd_conv)
  have "list_all2 ends_in ps' (ns[i := m])" using assms(2) m(2) i(4) by (simp add: list_all2_update_cong)
  moreover have "Suc (sum_list (ns[i := m])) = sum_list ns"
    using m(1) l elem_le_sum_list [OF l] by (simp add: sum_list_update)
  ultimately show ?thesis by blast
qed

lemma pool_steps_budget:
  "(pool_step ^^ k) (s, ps) (s', ps') \<Longrightarrow> list_all2 ends_in ps ns \<Longrightarrow> k \<le> sum_list ns"
proof (induction k arbitrary: s ps ns)
  case (Suc k)
  obtain s1 ps1 where st: "pool_step (s, ps) (s1, ps1)" "(pool_step ^^ k) (s1, ps1) (s', ps')"
    using Suc.prems(1) by (metis relpowp_Suc_D2 surj_pair)
  obtain ns1 where ns1: "list_all2 ends_in ps1 ns1" "Suc (sum_list ns1) = sum_list ns"
    using pool_step_budget [OF st(1) Suc.prems(2)] by blast
  then show ?case using Suc.IH [OF st(2) ns1(1)] by simp
qed simp

text \<open>From every point of every interleaving all calls can be answered.\<close>

lemma pool_finishes: "\<exists>s' as. pool_steps (s, ps) (s', map Done as) \<and> length as = length ps"
proof -
  have "j \<le> length ps \<Longrightarrow> \<exists>s' ps'. pool_steps (s, ps) (s', ps') \<and> length ps' = length ps \<and> (\<forall>i < j. \<exists>a. ps' ! i = Done a)" for j
  proof (induction j)
    case (Suc j)
    then obtain s1 ps1 where 1: "pool_steps (s, ps) (s1, ps1)" "length ps1 = length ps" "\<forall>i < j. \<exists>a. ps1 ! i = Done a" by auto
    obtain a s2 where "run (ps1 ! j) s1 = (a, s2)" by fastforce
    then have "pool_steps (s1, ps1) (s2, ps1[j := Done a])" using run_pool [of j ps1] 1(2) Suc.prems by simp
    moreover have "\<forall>i < Suc j. \<exists>a'. ps1[j := Done a] ! i = Done a'" using 1(2,3) Suc.prems by (auto simp: nth_list_update less_Suc_eq)
    ultimately show ?case using 1 by (metis length_list_update rtranclp_trans)
  qed auto
  then obtain s' ps' where ps': "pool_steps (s, ps) (s', ps')" "length ps' = length ps" "\<forall>i < length ps'. \<exists>a. ps' ! i = Done a" by fastforce
  then obtain as where "ps' = map Done as" by (metis (no_types, lifting) ex_map_conv in_set_conv_nth)
  then show ?thesis using ps' by auto
qed

end
