(* ===== verification/Prelude.thy ===== *)
theory Prelude
  imports Main "HOL-Library.Multiset"
begin

text \<open>
  The shared prelude of the development: the lemma collections, the types of results and
  faults, and the generic facts on lists that several components use.

  A Go run-time panic (a slice bound out of range) is the constructor \<open>Panic\<close> of
  \<open>outcome\<close>, an error value that a function returns is \<open>Err\<close>, a normal return is
  \<open>Ret\<close>.
\<close>

subsection \<open>Lemma collections\<close>

named_theorems model_defs \<open>definitions that automation may unfold\<close>
named_theorems frame \<open>equations saying what an operation leaves alone\<close>

subsection \<open>Results of Go functions\<close>

datatype ('e, 'a) outcome = Ret 'a | Err 'e | Panic

fun is_Ret :: "('e, 'a) outcome \<Rightarrow> bool" where
  "is_Ret (Ret _) = True"
| "is_Ret (Err _) = False"
| "is_Ret Panic = False"

lemma is_Ret_iff: "is_Ret r \<longleftrightarrow> (\<exists>x. r = Ret x)"
  by (cases r) auto

subsection \<open>Swapping two list positions\<close>

definition swap :: "'a list \<Rightarrow> nat \<Rightarrow> nat \<Rightarrow> 'a list" where
  "swap xs i j = xs[i := xs ! j, j := xs ! i]"

lemma length_swap [simp]: "length (swap xs i j) = length xs"
  by (simp add: swap_def)

lemma nth_swap:
  assumes "i < length xs" "j < length xs" "k < length xs"
  shows "swap xs i j ! k = (if k = i then xs ! j else if k = j then xs ! i else xs ! k)"
  using assms by (auto simp: swap_def nth_list_update)

lemma swap_mset [simp]: "i < length xs \<Longrightarrow> j < length xs \<Longrightarrow> mset (swap xs i j) = mset xs"
  by (simp add: swap_def mset_swap)

lemma swap_set [simp]: "i < length xs \<Longrightarrow> j < length xs \<Longrightarrow> set (swap xs i j) = set xs"
  by (metis swap_mset set_mset_mset)

subsection \<open>Lists\<close>

lemma mset_butlast_last:
  assumes "xs \<noteq> []"
  shows "mset xs = mset (butlast xs) + {#last xs#}"
proof -
  have "mset xs = mset (butlast xs @ [last xs])" using assms by simp
  then show ?thesis by (simp del: append_butlast_last_id)
qed

lemma find_append: "find P (xs @ ys) = (case find P xs of None \<Rightarrow> find P ys | Some x \<Rightarrow> Some x)"
  by (induction xs) auto

end
