(* ===== verification/Go_Float.thy ===== *)
theory Go_Float
  imports Complex_Main Prelude
begin

text \<open>
  Floating-point arithmetic as Go's \<open>float64\<close> (and PostgreSQL's \<open>REAL\<close>) performs it:
  the exact rational result of an operation, rounded to the nearest number with \<open>p\<close>
  significant bits, ties to even. \<open>p\<close> is 53 for \<open>float64\<close> and 24 for \<open>REAL\<close>.
  The exponent range is not bounded: the program's values are counts, their quotients and
  small multiples of them, far from overflow and from the subnormal numbers. No NaN and no
  infinity arises, since every division is guarded.
\<close>

subsection \<open>Rounding to \<open>p\<close> bits\<close>

text \<open>The binary logarithm, rounded down.\<close>

fun ilog2 :: "nat \<Rightarrow> nat" where
  "ilog2 n = (if n < 2 then 0 else Suc (ilog2 (n div 2)))"

declare ilog2.simps [simp del]

text \<open>The exponent \<open>e\<close> of a positive rational: \<open>2\<^sup>e \<le> x < 2\<^sup>e\<^sup>+\<^sup>1\<close>.\<close>

definition expo :: "rat \<Rightarrow> int" where
  "expo x = (if 1 \<le> x then int (ilog2 (nat \<lfloor>x\<rfloor>))
             else - (1 + int (ilog2 (nat (\<lceil>1 / x\<rceil> - 1)))))"

text \<open>Round half to even.\<close>

definition rne :: "rat \<Rightarrow> int" where
  "rne x = (let f = \<lfloor>x\<rfloor>; d = x - of_int f
            in if d < 1 / 2 then f
               else if 1 / 2 < d then f + 1
               else if even f then f else f + 1)"

definition round_pos :: "nat \<Rightarrow> rat \<Rightarrow> rat" where
  "round_pos p x = (let u = 2 powi (expo x - int p + 1) in of_int (rne (x / u)) * u)"

definition round_bits :: "nat \<Rightarrow> rat \<Rightarrow> rat" where
  "round_bits p x = (if x = 0 then 0 else if 0 < x then round_pos p x else - round_pos p (- x))"

type_synonym float64 = rat

definition f64 :: "rat \<Rightarrow> float64" where
  "f64 = round_bits 53"

definition f32 :: "rat \<Rightarrow> rat" where
  "f32 = round_bits 24"

definition fadd :: "float64 \<Rightarrow> float64 \<Rightarrow> float64" where
  "fadd x y = f64 (x + y)"

definition fmul :: "float64 \<Rightarrow> float64 \<Rightarrow> float64" where
  "fmul x y = f64 (x * y)"

definition fdiv :: "float64 \<Rightarrow> float64 \<Rightarrow> float64" where
  "fdiv x y = f64 (x / y)"

definition float_of_int :: "int \<Rightarrow> float64" where
  "float_of_int i = f64 (of_int i)"

subsection \<open>Exponents\<close>

lemma ilog2_bounds: "0 < n \<Longrightarrow> 2 ^ ilog2 n \<le> n \<and> n < 2 ^ Suc (ilog2 n)"
proof (induction n rule: ilog2.induct)
  case (1 n)
  show ?case
  proof (cases "n < 2")
    case True
    then show ?thesis using "1.prems" by (simp add: ilog2.simps [of n])
  next
    case False
    then have "2 ^ ilog2 (n div 2) \<le> n div 2 \<and> n div 2 < 2 ^ Suc (ilog2 (n div 2))"
      using "1.IH" by auto
    then show ?thesis using False by (simp add: ilog2.simps [of n]) linarith
  qed
qed

lemma ilog2_rat_bounds:
  assumes "0 < n"
  shows "(2::rat) ^ ilog2 n \<le> of_nat n" "(of_nat n :: rat) + 1 \<le> 2 ^ Suc (ilog2 n)"
proof -
  have "of_nat (2 ^ ilog2 n) \<le> (of_nat n :: rat)" "of_nat (n + 1) \<le> (of_nat (2 ^ Suc (ilog2 n)) :: rat)"
    using ilog2_bounds [OF assms] by (auto simp only: of_nat_le_iff)
  then show "(2::rat) ^ ilog2 n \<le> of_nat n" "(of_nat n :: rat) + 1 \<le> 2 ^ Suc (ilog2 n)" by simp_all
qed

lemma expo_bounds:
  assumes "0 < x"
  shows "2 powi expo x \<le> x \<and> x < 2 powi (expo x + 1)"
proof (cases "1 \<le> x")
  case True
  let ?n = "nat \<lfloor>x\<rfloor>"
  have "0 < ?n" "of_nat ?n \<le> x" "x < of_nat ?n + 1"
    using True floor_correct [of x] by (auto simp: le_floor_iff)
  then have "(2::rat) ^ ilog2 ?n \<le> x" "x < 2 ^ Suc (ilog2 ?n)"
    using ilog2_rat_bounds [of ?n] by linarith+
  then show ?thesis using True by (simp add: expo_def power_int_add_1)
next
  case False
  let ?n = "nat (\<lceil>1 / x\<rceil> - 1)" and ?k = "ilog2 (nat (\<lceil>1 / x\<rceil> - 1))"
  have gt: "1 < 1 / x" using False assms by simp
  then have n: "0 < ?n" by (simp add: less_ceiling_iff)
  have "int ?n = \<lceil>1 / x\<rceil> - 1" using n by linarith
  then have "of_nat ?n = (of_int (\<lceil>1 / x\<rceil> - 1) :: rat)" by (metis of_int_of_nat_eq)
  then have "of_nat ?n < 1 / x" "1 / x \<le> of_nat ?n + 1" using ceiling_correct [of "1 / x"] by auto
  then have "(2::rat) ^ ?k < 1 / x" "1 / x \<le> 2 ^ Suc ?k" using ilog2_rat_bounds [OF n] by linarith+
  then have "x < 1 / 2 ^ ?k" "1 / 2 ^ Suc ?k \<le> x" using assms by (auto simp: field_simps)
  moreover have "(2::rat) powi expo x = 1 / 2 ^ Suc ?k" "(2::rat) powi (expo x + 1) = 1 / 2 ^ ?k"
    using False by (auto simp: expo_def power_int_def field_simps nat_add_distrib)
  ultimately show ?thesis by simp
qed

subsection \<open>Rounding is monotone and keeps small integers\<close>

lemma rne_bounds: "\<lfloor>x\<rfloor> \<le> rne x \<and> rne x \<le> \<lfloor>x\<rfloor> + 1"
  by (simp add: rne_def Let_def)

lemma rne_of_int [simp]: "rne (of_int n) = n"
  by (simp add: rne_def)

lemma rne_mono:
  assumes "x \<le> y"
  shows "rne x \<le> rne y"
proof (cases "\<lfloor>x\<rfloor> = \<lfloor>y\<rfloor>")
  case True
  then show ?thesis using assms by (auto simp: rne_def Let_def)
next
  case False
  then have "\<lfloor>x\<rfloor> + 1 \<le> \<lfloor>y\<rfloor>" using floor_mono [OF assms] by linarith
  then show ?thesis using rne_bounds [of x] rne_bounds [of y] by linarith
qed

text \<open>The unit in the last place of a number with exponent \<open>e\<close>.\<close>

lemma powi_pos [simp]: "(0::rat) < 2 powi k"
  by (simp add: zero_less_power_int)

lemma powi_mono: "i \<le> j \<Longrightarrow> (2::rat) powi i \<le> 2 powi j"
  by (simp add: power_int_increasing)

lemma powi_scale: "(2::rat) powi (e - int p + 1) * 2 ^ p = 2 powi (e + 1)"
proof -
  have "(2::rat) powi (e + 1) = 2 powi ((e - int p + 1) + int p)" by simp
  also have "\<dots> = 2 powi (e - int p + 1) * 2 powi int p" by (rule power_int_add) simp
  finally show ?thesis by simp
qed

lemma round_pos_bounds:
  assumes "0 < x" "0 < p"
  shows "2 powi expo x \<le> round_pos p x \<and> round_pos p x \<le> 2 powi (expo x + 1)"
proof -
  define u where "u = (2::rat) powi (expo x - int p + 1)"
  have u: "0 < u" "u * 2 ^ p = 2 powi (expo x + 1)" by (simp_all add: u_def powi_scale)
  have "u * 2 ^ p = u * 2 ^ (p - 1) * 2" using assms(2) by (cases p) auto
  moreover have "(2::rat) powi (expo x + 1) = 2 powi expo x * 2" by (simp add: power_int_add_1)
  ultimately have lo: "u * 2 ^ (p - 1) = 2 powi expo x" using u(2) by simp
  have "2 ^ (p - 1) \<le> x / u" "x / u \<le> 2 ^ p"
    using expo_bounds [OF assms(1)] u lo by (auto simp: field_simps)
  then have "rne (of_int (2 ^ (p - 1))) \<le> rne (x / u)" "rne (x / u) \<le> rne (of_int (2 ^ p))"
    by (auto intro!: rne_mono)
  then have "(of_int (2 ^ (p - 1)) :: rat) \<le> of_int (rne (x / u))"
    "of_int (rne (x / u)) \<le> (of_int (2 ^ p) :: rat)" by (simp_all only: rne_of_int of_int_le_iff)
  then have "of_int (2 ^ (p - 1)) * u \<le> of_int (rne (x / u)) * u"
    "of_int (rne (x / u)) * u \<le> of_int (2 ^ p) * u"
    using u(1) by (auto intro!: mult_right_mono)
  moreover have "round_pos p x = of_int (rne (x / u)) * u" by (simp add: round_pos_def u_def Let_def)
  ultimately show ?thesis using lo u(2) by (simp only: of_int_power of_int_numeral mult.commute)
qed

lemma expo_mono: "0 < x \<Longrightarrow> x \<le> y \<Longrightarrow> expo x \<le> expo y"
proof (rule ccontr)
  assume x: "0 < x" "x \<le> y" "\<not> expo x \<le> expo y"
  then have "(2::rat) powi (expo y + 1) \<le> 2 powi expo x" by (intro powi_mono) simp
  then show False using expo_bounds [of x] expo_bounds [of y] x by linarith
qed

lemma round_pos_mono:
  assumes "0 < x" "x \<le> y" "0 < p"
  shows "round_pos p x \<le> round_pos p y"
proof (cases "expo x = expo y")
  case True
  have "rne (x / 2 powi (expo y - int p + 1)) \<le> rne (y / 2 powi (expo y - int p + 1))"
    using assms by (intro rne_mono divide_right_mono) (auto intro: less_imp_le)
  then show ?thesis using True by (simp add: round_pos_def Let_def mult_right_mono less_imp_le)
next
  case False
  then have "(2::rat) powi (expo x + 1) \<le> 2 powi expo y"
    using expo_mono [OF assms(1,2)] by (intro powi_mono) simp
  then show ?thesis using round_pos_bounds [of x p] round_pos_bounds [of y p] assms by linarith
qed

lemma round_pos_gt: "0 < x \<Longrightarrow> 0 < p \<Longrightarrow> 0 < round_pos p x"
  using round_pos_bounds powi_pos less_le_trans by blast

lemma round_bits_mono:
  assumes "x \<le> y" "0 < p"
  shows "round_bits p x \<le> round_bits p y"
  using assms round_pos_mono [of x y p] round_pos_mono [of "- y" "- x" p]
    round_pos_gt [of y p] round_pos_gt [of "- x" p]
  by (auto simp: round_bits_def)

lemma round_pos_int:
  assumes "0 < i" "i \<le> 2 ^ p" "0 < p"
  shows "round_pos p (of_int i) = of_int i"
proof -
  let ?e = "expo (of_int i :: rat)"
  have pos: "0 < (of_int i :: rat)" using assms(1) by simp
  have one: "1 \<le> (of_int i :: rat)" using assms(1) by simp
  have e0: "0 \<le> ?e" using one by (simp add: expo_def)
  have "(2::rat) powi ?e \<le> of_int i" using expo_bounds [OF pos] by simp
  also have "of_int i \<le> (of_int (2 ^ p) :: rat)" using assms(2) by (simp only: of_int_le_iff)
  finally have le: "(2::rat) powi ?e \<le> 2 powi int p" by simp
  have ep: "?e \<le> int p"
  proof (rule ccontr)
    assume "\<not> ?e \<le> int p"
    then have "(2::rat) powi (int p + 1) \<le> 2 powi ?e" by (intro powi_mono) simp
    with le have "(2::rat) powi (int p + 1) \<le> 2 powi int p" by (rule order_trans [rotated])
    then show False by (simp add: power_int_add_1)
  qed
  show ?thesis
  proof (cases "?e = int p")
    case True
    then have "2 ^ p \<le> (of_int i :: rat)" using expo_bounds [OF pos] by simp
    then have "of_int (2 ^ p) \<le> (of_int i :: rat)" by simp
    then have "2 ^ p \<le> i" by (simp only: of_int_le_iff)
    then have i: "i = 2 ^ p" using assms(2) by (rule order_antisym [rotated])
    obtain q where q: "p = Suc q" using assms(3) gr0_conv_Suc by blast
    have "rne (2 ^ q) = 2 ^ q" using rne_of_int [of "2 ^ q"] by simp
    then show ?thesis using True i by (simp add: round_pos_def Let_def q)
  next
    case False
    define k where "k = nat (int p - 1 - ?e)"
    have "?e - int p + 1 = - int k" using ep False by (simp add: k_def)
    then have "(2::rat) powi (?e - int p + 1) = inverse (2 ^ k)" by (simp add: power_int_minus)
    moreover have "(of_int i :: rat) * 2 ^ k = of_int (i * 2 ^ k)" by simp
    then have "rne (of_int i * 2 ^ k) = i * 2 ^ k" by (simp only: rne_of_int)
    ultimately show ?thesis by (simp add: round_pos_def Let_def divide_inverse)
  qed
qed

lemma round_bits_int:
  assumes "\<bar>i\<bar> \<le> 2 ^ p" "0 < p"
  shows "round_bits p (of_int i) = of_int i"
  using round_pos_int [of i p] round_pos_int [of "- i" p] assms
  by (auto simp: round_bits_def)

subsection \<open>The laws of \<open>float64\<close> the components use\<close>

lemma f64_mono: "x \<le> y \<Longrightarrow> f64 x \<le> f64 y"
  by (simp add: f64_def round_bits_mono)

lemma f64_int: "\<bar>i\<bar> \<le> 2 ^ 53 \<Longrightarrow> f64 (of_int i) = of_int i"
  by (simp add: f64_def round_bits_int)

lemma f64_0 [simp]: "f64 0 = 0"
  using f64_int [of 0] by simp

lemma f64_1 [simp]: "f64 1 = 1"
  using f64_int [of 1] by simp

lemma f64_range: "of_int i \<le> x \<Longrightarrow> x \<le> of_int j \<Longrightarrow> \<bar>i\<bar> \<le> 2 ^ 53 \<Longrightarrow> \<bar>j\<bar> \<le> 2 ^ 53 \<Longrightarrow>
    of_int i \<le> f64 x \<and> f64 x \<le> of_int j"
  using f64_mono [of "of_int i" x] f64_mono [of x "of_int j"] f64_int by simp

lemma float_of_int_mono: "i \<le> j \<Longrightarrow> float_of_int i \<le> float_of_int j"
  by (simp add: float_of_int_def f64_mono)

lemma float_of_int_exact: "\<bar>i\<bar> \<le> 2 ^ 53 \<Longrightarrow> float_of_int i = of_int i"
  by (simp add: float_of_int_def f64_int)

lemma float_of_int_pos: "0 < i \<Longrightarrow> 0 < float_of_int i"
  using float_of_int_mono [of 1 i] by (simp add: float_of_int_def)

lemma float_of_int_0 [simp]: "float_of_int 0 = 0"
  by (simp add: float_of_int_def)

lemma float_of_int_nonneg: "0 \<le> i \<Longrightarrow> 0 \<le> float_of_int i"
  using float_of_int_mono [of 0 i] by simp

lemma fdiv_unit:
  assumes "0 \<le> x" "x \<le> y"
  shows "0 \<le> fdiv x y \<and> fdiv x y \<le> 1"
proof -
  have "0 \<le> x / y" "x / y \<le> 1" using assms by (auto simp: divide_le_eq_1)
  then show ?thesis using f64_range [of 0 "x / y" 1] by (simp add: fdiv_def)
qed

lemma f64_pos: "0 < x \<Longrightarrow> 0 < f64 x"
  by (simp add: f64_def round_bits_def round_pos_gt)

lemma fdiv_pos: "0 < x \<Longrightarrow> 0 < y \<Longrightarrow> 0 < fdiv x y"
  by (simp add: fdiv_def f64_pos)

lemma fdiv_zero [simp]: "fdiv x 0 = 0" "fdiv 0 x = 0"
  by (simp_all add: fdiv_def)

end
