(* ===== verification/Go_Strings.thy ===== *)
theory Go_Strings
  imports Prelude "HOL-Library.Char_ord" "HOL-Library.List_Lexorder"
begin

text \<open>
  Go strings and the functions of the \<open>strings\<close> and \<open>fmt\<close> packages that the program
  calls. A Go string is a sequence of bytes, and so is an Isabelle \<open>string\<close>: a \<open>char\<close>
  is one byte. Functions that look at Unicode code points decode UTF-8 as Go does (an
  invalid byte is the code point U+FFFD, one byte wide). The Unicode case table is a
  parameter \<open>U\<close>: the upper-case image of every code point from 128 on.
\<close>

subsection \<open>Prefixes, substrings, slices\<close>

definition HasPrefix :: "string \<Rightarrow> string \<Rightarrow> bool" where
  "HasPrefix s p \<longleftrightarrow> take (length p) s = p"

definition HasSuffix :: "string \<Rightarrow> string \<Rightarrow> bool" where
  "HasSuffix s p \<longleftrightarrow> length p \<le> length s \<and> drop (length s - length p) s = p"

text \<open>\<open>None\<close> is Go's \<open>-1\<close>.\<close>

fun str_index :: "string \<Rightarrow> string \<Rightarrow> nat option" where
  "str_index [] sub = (if sub = [] then Some 0 else None)"
| "str_index (c # s) sub =
     (if HasPrefix (c # s) sub then Some 0 else map_option Suc (str_index s sub))"

fun last_index :: "string \<Rightarrow> string \<Rightarrow> nat option" where
  "last_index [] sub = (if sub = [] then Some 0 else None)"
| "last_index (c # s) sub =
     (case last_index s sub of
        Some i \<Rightarrow> Some (Suc i)
      | None \<Rightarrow> if HasPrefix (c # s) sub then Some 0 else None)"

definition Contains :: "string \<Rightarrow> string \<Rightarrow> bool" where
  "Contains s sub \<longleftrightarrow> str_index s sub \<noteq> None"

text \<open>\<open>s[n:]\<close> and \<open>s[:n]\<close>; \<open>None\<close> is the run-time panic of a bound out of range.\<close>

definition slice_from :: "string \<Rightarrow> nat \<Rightarrow> string option" where
  "slice_from s n = (if n \<le> length s then Some (drop n s) else None)"

definition slice_to :: "string \<Rightarrow> nat \<Rightarrow> string option" where
  "slice_to s n = (if n \<le> length s then Some (take n s) else None)"

subsection \<open>Splitting and joining\<close>

fun Split :: "char \<Rightarrow> string \<Rightarrow> string list" where
  "Split d [] = [[]]"
| "Split d (c # s) =
     (if c = d then [] # Split d s
      else case Split d s of [] \<Rightarrow> [[c]] | w # ws \<Rightarrow> (c # w) # ws)"

fun Join :: "string \<Rightarrow> string list \<Rightarrow> string" where
  "Join sep [] = []"
| "Join sep [w] = w"
| "Join sep (w # ws) = w @ sep @ Join sep ws"

text \<open>\<open>strings.SplitN(s, d, 2)\<close> for a one-byte separator.\<close>

definition SplitN2 :: "char \<Rightarrow> string \<Rightarrow> string list" where
  "SplitN2 d s = (if d \<in> set s then [takeWhile (\<lambda>c. c \<noteq> d) s, tl (dropWhile (\<lambda>c. c \<noteq> d) s)] else [s])"

subsection \<open>UTF-8\<close>

definition is_ascii :: "string \<Rightarrow> bool" where
  "is_ascii s \<longleftrightarrow> (\<forall>c \<in> set s. of_char c < (128::nat))"

definition byte :: "nat \<Rightarrow> char" where
  "byte n = char_of n"

definition cont_byte :: "nat \<Rightarrow> bool" where
  "cont_byte b \<longleftrightarrow> 128 \<le> b \<and> b \<le> 191"

text \<open>The first code point of a string and its width in bytes.\<close>

definition decode_rune :: "string \<Rightarrow> nat \<times> nat" where
  "decode_rune s = (case map of_char s of
       [] \<Rightarrow> (65533, 0)
     | x # r \<Rightarrow>
        if x < 128 then (x, 1)
        else if 194 \<le> x \<and> x \<le> 223 then
          (case r of b # _ \<Rightarrow> if cont_byte b then ((x - 192) * 64 + (b - 128), 2) else (65533, 1)
           | [] \<Rightarrow> (65533, 1))
        else if 224 \<le> x \<and> x \<le> 239 then
          (case r of b # c # _ \<Rightarrow>
             if (if x = 224 then 160 else 128) \<le> b \<and> b \<le> (if x = 237 then 159 else 191) \<and> cont_byte c
             then ((x - 224) * 4096 + (b - 128) * 64 + (c - 128), 3) else (65533, 1)
           | _ \<Rightarrow> (65533, 1))
        else if 240 \<le> x \<and> x \<le> 244 then
          (case r of b # c # d # _ \<Rightarrow>
             if (if x = 240 then 144 else 128) \<le> b \<and> b \<le> (if x = 244 then 143 else 191)
                \<and> cont_byte c \<and> cont_byte d
             then ((x - 240) * 262144 + (b - 128) * 4096 + (c - 128) * 64 + (d - 128), 4)
             else (65533, 1)
           | _ \<Rightarrow> (65533, 1))
        else (65533, 1))"

definition encode_rune :: "nat \<Rightarrow> string" where
  "encode_rune r = map byte
     (if r < 128 then [r]
      else if r < 2048 then [192 + r div 64, 128 + r mod 64]
      else if 1114111 < r \<or> (55296 \<le> r \<and> r \<le> 57343) then [239, 191, 189]
      else if r < 65536 then [224 + r div 4096, 128 + r div 64 mod 64, 128 + r mod 64]
      else [240 + r div 262144, 128 + r div 4096 mod 64, 128 + r div 64 mod 64, 128 + r mod 64])"

lemma decode_rune_width: "s \<noteq> [] \<Longrightarrow> 0 < snd (decode_rune s)"
  by (cases s) (auto simp: decode_rune_def split: list.split)

text \<open>\<open>strings.Map\<close>.\<close>

function rune_map :: "(nat \<Rightarrow> nat) \<Rightarrow> string \<Rightarrow> string" where
  "rune_map f s =
     (if s = [] then []
      else let (r, w) = decode_rune s in encode_rune (f r) @ rune_map f (drop w s))"
  by pat_completeness auto
termination
proof (relation "measure (\<lambda>(f, s). length s)")
  fix f :: "nat \<Rightarrow> nat" and s x r w assume "s \<noteq> []" "x = decode_rune s" "(r, w) = x"
  then show "((f, drop w s), f, s) \<in> measure (\<lambda>(f, s). length s)"
    using decode_rune_width [of s] by (cases s) (auto simp: prod_eq_iff)
qed simp

declare rune_map.simps [simp del]

definition ascii_upper :: "nat \<Rightarrow> nat" where
  "ascii_upper r = (if 97 \<le> r \<and> r \<le> 122 then r - 32 else r)"

definition ToUpper :: "(nat \<Rightarrow> nat) \<Rightarrow> string \<Rightarrow> string" where
  "ToUpper U s =
     (if is_ascii s then map (\<lambda>c. byte (ascii_upper (of_char c))) s
      else rune_map (\<lambda>r. if r < 128 then ascii_upper r else U r) s)"

definition ascii_lower :: "nat \<Rightarrow> nat" where
  "ascii_lower r = (if 65 \<le> r \<and> r \<le> 90 then r + 32 else r)"

text \<open>The lower-case table of the code points from 128 on is the parameter \<open>L\<close>.\<close>

definition ToLower :: "(nat \<Rightarrow> nat) \<Rightarrow> string \<Rightarrow> string" where
  "ToLower L s =
     (if is_ascii s then map (\<lambda>c. byte (ascii_lower (of_char c))) s
      else rune_map (\<lambda>r. if r < 128 then ascii_lower r else L r) s)"

subsection \<open>Trimming\<close>

definition TrimPrefix :: "string \<Rightarrow> string \<Rightarrow> string" where
  "TrimPrefix s p = (if HasPrefix s p then drop (length p) s else s)"

definition TrimSuffix :: "string \<Rightarrow> string \<Rightarrow> string" where
  "TrimSuffix s p = (if HasSuffix s p then take (length s - length p) s else s)"

text \<open>The UTF-8 encodings of the code points that \<open>unicode.IsSpace\<close> accepts.\<close>

definition space_seqs :: "string list" where
  "space_seqs = map (map byte)
     ([[9], [10], [11], [12], [13], [32], [194, 133], [194, 160], [225, 154, 128]] @
      map (\<lambda>n. [226, 128, n]) ([128..<139] @ [168, 169, 175]) @
      [[226, 129, 159], [227, 128, 128]])"

function trim_left :: "string \<Rightarrow> string" where
  "trim_left s = (case find (HasPrefix s) space_seqs of
       None \<Rightarrow> s | Some w \<Rightarrow> trim_left (drop (length w) s))"
  by pat_completeness auto
termination
proof (relation "measure length")
  fix s w assume "find (HasPrefix s) space_seqs = Some w"
  then have "HasPrefix s w" "w \<in> set space_seqs" by (auto simp: find_Some_iff)
  moreover have "w \<noteq> []" using \<open>w \<in> set space_seqs\<close> by (auto simp: space_seqs_def)
  ultimately show "(drop (length w) s, s) \<in> measure length"
    by (cases s) (auto simp: HasPrefix_def)
qed simp

function trim_right :: "string \<Rightarrow> string" where
  "trim_right s = (case find (HasSuffix s) space_seqs of
       None \<Rightarrow> s | Some w \<Rightarrow> trim_right (take (length s - length w) s))"
  by pat_completeness auto
termination
proof (relation "measure length")
  fix s w assume "find (HasSuffix s) space_seqs = Some w"
  then have "HasSuffix s w" "w \<in> set space_seqs" by (auto simp: find_Some_iff)
  moreover have "w \<noteq> []" using \<open>w \<in> set space_seqs\<close> by (auto simp: space_seqs_def)
  ultimately show "(take (length s - length w) s, s) \<in> measure length"
    by (cases s; cases w) (auto simp: HasSuffix_def)
qed simp

declare trim_left.simps [simp del] trim_right.simps [simp del]

definition TrimSpace :: "string \<Rightarrow> string" where
  "TrimSpace s = trim_right (trim_left s)"

text \<open>\<open>strings.TrimRight(s, cutset)\<close> for a cutset of one byte.\<close>

definition TrimRight :: "string \<Rightarrow> char \<Rightarrow> string" where
  "TrimRight s c = rev (dropWhile (\<lambda>x. x = c) (rev s))"

subsection \<open>Formatting\<close>

definition digit_char :: "nat \<Rightarrow> char" where
  "digit_char n = byte (if n < 10 then 48 + n else 87 + n)"

fun Itoa :: "nat \<Rightarrow> string" where
  "Itoa n = (if n < 10 then [digit_char n] else Itoa (n div 10) @ [digit_char (n mod 10)])"

declare Itoa.simps [simp del]

definition hex_byte :: "nat \<Rightarrow> string" where
  "hex_byte n = [digit_char (n div 16 mod 16), digit_char (n mod 16)]"

definition hex :: "nat list \<Rightarrow> string" where
  "hex bs = concat (map hex_byte bs)"

subsection \<open>Facts about the string functions\<close>

lemma HasPrefix_append: "HasPrefix s p \<longleftrightarrow> (\<exists>t. s = p @ t)"
  by (metis HasPrefix_def append_eq_conv_conj append_take_drop_id)

lemma HasPrefix_Nil [simp]: "HasPrefix s []"
  by (simp add: HasPrefix_def)

lemma HasPrefix_Cons [simp]: "HasPrefix (c # s) (d # p) \<longleftrightarrow> c = d \<and> HasPrefix s p"
  by (auto simp: HasPrefix_def)

lemma HasPrefix_empty [simp]: "HasPrefix [] p \<longleftrightarrow> p = []"
  by (auto simp: HasPrefix_def)

lemma HasPrefix_length: "HasPrefix s p \<Longrightarrow> length p \<le> length s"
  by (auto simp: HasPrefix_append)

lemma last_index_bound: "last_index s sub = Some i \<Longrightarrow> i + length sub \<le> length s"
  by (induction s arbitrary: i)
    (auto split: option.splits if_splits dest: HasPrefix_length)

lemma str_index_bound: "str_index s sub = Some i \<Longrightarrow> i + length sub \<le> length s"
  by (induction s arbitrary: i) (auto split: if_splits dest: HasPrefix_length)

lemma str_index_prefix: "str_index s sub = Some i \<Longrightarrow> HasPrefix (drop i s) sub"
  by (induction s arbitrary: i) (auto split: if_splits)

lemma Contains_char: "Contains s [c] \<longleftrightarrow> c \<in> set s"
  unfolding Contains_def by (induction s) auto

lemma Split_nonempty [simp]: "Split d s \<noteq> []"
  by (induction s) (auto split: list.split)

lemma Join_Cons: "ws \<noteq> [] \<Longrightarrow> Join sep (w # ws) = w @ sep @ Join sep ws"
  by (cases ws) auto

lemma Join_Split: "Join [d] (Split d s) = s"
proof (induction s)
  case (Cons c s)
  show ?case
  proof (cases "Split d s")
    case Nil
    then show ?thesis by simp
  next
    case (Cons w ws)
    then show ?thesis using Cons.IH by (cases ws) (auto simp: Join_Cons)
  qed
qed simp

lemma Split_no_sep: "w \<in> set (Split d s) \<Longrightarrow> d \<notin> set w"
  by (induction s arbitrary: w) (auto split: if_splits list.splits)

lemma Split_Join: "ws \<noteq> [] \<Longrightarrow> (\<And>w. w \<in> set ws \<Longrightarrow> d \<notin> set w) \<Longrightarrow> Split d (Join [d] ws) = ws"
proof (induction ws)
  case (Cons w ws)
  have one: "d \<notin> set w \<Longrightarrow> Split d w = [w]" for w by (induction w) auto
  have app: "d \<notin> set w \<Longrightarrow> Split d (w @ d # t) = w # Split d t" for w t by (induction w) auto
  show ?case using Cons one app by (cases "ws = []") (auto simp: Join_Cons)
qed simp

lemma Split_set: "w \<in> set (Split d s) \<Longrightarrow> set w \<subseteq> set s"
  by (induction s arbitrary: w) (auto split: if_splits list.splits, blast+)

subsubsection \<open>ASCII strings\<close>

lemma is_ascii_simps [simp]:
  "is_ascii []" "is_ascii (c # s) \<longleftrightarrow> of_char c < (128::nat) \<and> is_ascii s"
  "is_ascii (s @ t) \<longleftrightarrow> is_ascii s \<and> is_ascii t"
  by (auto simp: is_ascii_def)

lemma is_ascii_subset: "set t \<subseteq> set s \<Longrightarrow> is_ascii s \<Longrightarrow> is_ascii t"
  by (auto simp: is_ascii_def)

lemma ToUpper_length: "is_ascii s \<Longrightarrow> length (ToUpper U s) = length s"
  by (simp add: ToUpper_def)

lemma trim_left_set: "set (trim_left s) \<subseteq> set s"
proof (induction s rule: trim_left.induct)
  case (1 s)
  show ?case
  proof (cases "find (HasPrefix s) space_seqs")
    case (Some w)
    then show ?thesis using 1 set_drop_subset by (subst trim_left.simps) fastforce
  qed (subst trim_left.simps, simp)
qed

lemma trim_right_set: "set (trim_right s) \<subseteq> set s"
proof (induction s rule: trim_right.induct)
  case (1 s)
  show ?case
  proof (cases "find (HasSuffix s) space_seqs")
    case (Some w)
    then show ?thesis using 1 set_take_subset by (subst trim_right.simps) fastforce
  qed (subst trim_right.simps, simp)
qed

lemma TrimSpace_set: "set (TrimSpace s) \<subseteq> set s"
  using trim_left_set trim_right_set unfolding TrimSpace_def by blast

lemma TrimSpace_ascii [intro]: "is_ascii s \<Longrightarrow> is_ascii (TrimSpace s)"
  using is_ascii_subset TrimSpace_set by blast

lemma Split_ascii: "is_ascii s \<Longrightarrow> w \<in> set (Split d s) \<Longrightarrow> is_ascii w"
  using is_ascii_subset Split_set by blast

text \<open>
  An upper-cased string with an ASCII prefix is at least as long as that prefix before it
  is upper-cased, whatever the case table: a slice that skips the prefix is in range.
\<close>

lemma byte_of_char [simp]: "byte (of_char c) = c"
  by (simp add: byte_def)

lemma of_byte: "n < 256 \<Longrightarrow> of_char (byte n) = n"
  by (simp add: byte_def)

lemma encode_rune_cases:
  "(\<exists>c. encode_rune r = [c]) \<or> (\<exists>c t. encode_rune r = c # t \<and> 128 \<le> (of_char c :: nat))"
proof -
  have "r < 2048 \<Longrightarrow> 192 + r div 64 < 256" "r < 65536 \<Longrightarrow> 224 + r div 4096 < 256"
    "r \<le> 1114111 \<Longrightarrow> 240 + r div 262144 < 256" by auto
  then show ?thesis by (auto simp: encode_rune_def of_byte)
qed

lemma encode_rune_nonempty: "encode_rune r \<noteq> []"
  using encode_rune_cases [of r] by auto

lemma rune_map_prefix_length:
  "HasPrefix (rune_map f s) p \<Longrightarrow> is_ascii p \<Longrightarrow> length p \<le> length s"
proof (induction f s arbitrary: p rule: rune_map.induct)
  case (1 f s)
  show ?case
  proof (cases "s = [] \<or> p = []")
    case True
    then show ?thesis using "1.prems" by (auto simp: rune_map.simps [of f s])
  next
    case False
    obtain r w where d: "decode_rune s = (r, w)" by fastforce
    have w: "0 < w" using decode_rune_width [of s] False d by simp
    have eq: "rune_map f s = encode_rune (f r) @ rune_map f (drop w s)"
      using False d by (simp add: rune_map.simps [of f s])
    obtain c q where p: "p = c # q" using False by (cases p) auto
    have "encode_rune (f r) = [c]"
      using encode_rune_cases [of "f r"] "1.prems" unfolding eq p by auto
    then have "length q \<le> length (drop w s)"
      using "1.IH" [of _ r w q] False d "1.prems" unfolding eq p by simp
    then show ?thesis using w False p by (cases s) auto
  qed
qed

lemma ToUpper_prefix_length:
  assumes "HasPrefix (ToUpper U s) p" "is_ascii p"
  shows "length p \<le> length s"
  using assms rune_map_prefix_length HasPrefix_length [of "ToUpper U s" p]
  by (auto simp: ToUpper_def split: if_splits)

subsubsection \<open>Formatting\<close>

lemma hex_length [simp]: "length (hex bs) = 2 * length bs"
  unfolding hex_def by (induction bs) (auto simp: hex_byte_def)

definition is_hex_char :: "char \<Rightarrow> bool" where
  "is_hex_char c \<longleftrightarrow> (of_char c :: nat) \<in> {48..57} \<union> {97..102}"

lemma digit_char_hex: "n < 16 \<Longrightarrow> is_hex_char (digit_char n)"
  by (auto simp: is_hex_char_def digit_char_def of_byte)

lemma hex_chars: "c \<in> set (hex bs) \<Longrightarrow> is_hex_char c"
  unfolding hex_def hex_byte_def using digit_char_hex by auto

lemma hex_no_space: "CHR '' '' \<notin> set (hex bs)"
  using hex_chars by (fastforce simp: is_hex_char_def)

subsubsection \<open>Trimming\<close>

text \<open>Text that starts and ends with printable bytes is already trimmed.\<close>

lemma TrimSpace_plain:
  assumes "s \<noteq> []" and "32 < (of_char (hd s) :: nat)" and "(of_char (hd s) :: nat) \<notin> {194, 225, 226, 227}"
    and "32 < (of_char (last s) :: nat)" and "(of_char (last s) :: nat) < 128"
  shows "TrimSpace s = s"
proof -
  have heads: "(of_char (hd w) :: nat) \<le> 32 \<or> (of_char (hd w) :: nat) \<in> {194, 225, 226, 227}"
    and lasts: "(of_char (last w) :: nat) \<le> 32 \<or> 128 \<le> (of_char (last w) :: nat)" and ne: "w \<noteq> []" if "w \<in> set space_seqs" for w
    using that by (auto simp: space_seqs_def of_byte)
  have "\<not> HasPrefix s w" if "w \<in> set space_seqs" for w
    using heads [OF that] ne [OF that] assms(1-3) by (cases s; cases w) (auto simp: HasPrefix_def)
  then have l: "trim_left s = s" by (subst trim_left.simps) (auto simp: find_None_iff split: option.split dest: find_Some_iff [THEN iffD1])
  have "\<not> HasSuffix s w" if "w \<in> set space_seqs" for w
  proof
    assume "HasSuffix s w"
    then have "last s = last w" using ne [OF that] by (auto simp: HasSuffix_def) (metis append_take_drop_id last_appendR)
    then show False using lasts [OF that] assms(4,5) by auto
  qed
  then have "trim_right s = s" by (subst trim_right.simps) (auto simp: find_None_iff split: option.split dest: find_Some_iff [THEN iffD1])
  then show ?thesis using l by (simp add: TrimSpace_def)
qed

lemma TrimSpace_Nil [simp]: "TrimSpace [] = []"
  using TrimSpace_set [of "[]"] by simp

subsubsection \<open>Evaluating on literals\<close>

lemma byte_eq_iff: "n < 256 \<Longrightarrow> byte n = c \<longleftrightarrow> n = of_char c"
  by (metis of_byte byte_def char_of_char)

lemmas upper_eval = ToUpper_def is_ascii_def ascii_upper_def byte_eq_iff

end
