(* ===== verification/Domain.thy ===== *)
theory Domain
  imports Go_Float Go_Strings
begin

text \<open>
  The shared types of \<open>internal/domain\<close>: build statuses, build jobs and worker nodes. A
  \<open>Status\<close> is a Go string type, so a value outside the six constants is possible (the
  HTTP layer decodes it from a request) and stays possible here. Times are nanoseconds since
  the epoch. A Go \<open>map[string]string\<close> is the list of its entries in iteration order, and
  the nil map is the empty list.
\<close>

type_synonym status = string
type_synonym time = int

definition StatusPending :: status where "StatusPending = ''pending''"
definition StatusBuilding :: status where "StatusBuilding = ''building''"
definition StatusSucceeded :: status where "StatusSucceeded = ''succeeded''"
definition StatusFailed :: status where "StatusFailed = ''failed''"
definition StatusCancelled :: status where "StatusCancelled = ''cancelled''"
definition StatusTimedOut :: status where "StatusTimedOut = ''timed_out''"

lemmas status_defs = StatusPending_def StatusBuilding_def StatusSucceeded_def StatusFailed_def
  StatusCancelled_def StatusTimedOut_def

definition IsTerminal :: "status \<Rightarrow> bool" where
  "IsTerminal s \<longleftrightarrow>
     s = StatusSucceeded \<or> s = StatusFailed \<or> s = StatusCancelled \<or> s = StatusTimedOut"

record build =
  ID :: string
  Status :: status
  Fingerprint :: string
  WorkerID :: string
  ContextKey :: string
  Dockerfile :: string
  ImageTag :: string
  Args :: "(string \<times> string) list"
  Instructions :: "string list"
  Logs :: string
  Error :: string
  RetryCount :: int
  MaxRetries :: int
  TimeoutSeconds :: int
  UserID :: string
  Priority :: int
  CacheHitRate :: float64
  CreatedAt :: time
  UpdatedAt :: time
  CompletedAt :: "time option"

record worker =
  wID :: string
  wHostname :: string
  wIP :: string
  wStatus :: string
  wLastHeartbeat :: time
  wCacheKeys :: "string list"

text \<open>The zero value of the struct, on which a composite literal sets its fields.\<close>

definition zero_build :: build where
  "zero_build = \<lparr>ID = [], Status = [], Fingerprint = [], WorkerID = [], ContextKey = [],
     Dockerfile = [], ImageTag = [], Args = [], Instructions = [], Logs = [], Error = [],
     RetryCount = 0, MaxRetries = 0, TimeoutSeconds = 0, UserID = [], Priority = 0,
     CacheHitRate = 0, CreatedAt = 0, UpdatedAt = 0, CompletedAt = None\<rparr>"

lemma IsTerminal_simps [simp]:
  "\<not> IsTerminal StatusPending" "\<not> IsTerminal StatusBuilding" "\<not> IsTerminal []"
  "IsTerminal StatusSucceeded" "IsTerminal StatusFailed" "IsTerminal StatusCancelled"
  "IsTerminal StatusTimedOut"
  by (simp_all add: IsTerminal_def status_defs)

lemma status_distinct [simp]:
  "StatusPending \<noteq> StatusBuilding" "StatusBuilding \<noteq> StatusPending"
  "StatusPending \<noteq> []" "StatusBuilding \<noteq> []" "[] \<noteq> StatusPending" "[] \<noteq> StatusBuilding"
  "StatusPending \<noteq> StatusCancelled" "StatusBuilding \<noteq> StatusCancelled"
  "StatusPending \<noteq> StatusTimedOut" "StatusTimedOut \<noteq> StatusPending"
  "StatusBuilding \<noteq> StatusTimedOut" "StatusTimedOut \<noteq> StatusBuilding"
  "StatusCancelled \<noteq> StatusPending" "StatusCancelled \<noteq> StatusBuilding"
  by (simp_all add: status_defs)

lemma terminal_not_live [simp]: "IsTerminal s \<Longrightarrow> s \<noteq> StatusPending" "IsTerminal s \<Longrightarrow> s \<noteq> StatusBuilding"
  "IsTerminal s \<Longrightarrow> s \<noteq> []"
  by auto

end
