(* ===== verification/Go_Heap.thy ===== *)
theory Go_Heap
  imports Prelude
begin

text \<open>
  The standard library's \<open>container/heap\<close> (\<open>up\<close>, \<open>down\<close>, \<open>Push\<close>, \<open>Pop\<close>,
  \<open>Remove\<close>) on a slice, with the ordering \<open>Less\<close> of the client as a parameter on
  elements. The client promises a strict weak order: that contract is the locale
  \<open>heap_order\<close>, in which the heap laws are proved once. The operations work on the whole
  slice and an explicit bound \<open>n\<close>, as the Go code does: \<open>Pop\<close> and \<open>Remove\<close> sift
  below the last slot and then shrink the slice.
\<close>

subsection \<open>The operations\<close>

definition parent :: "nat \<Rightarrow> nat" where
  "parent j = (j - 1) div 2"

function heap_up :: "('a \<Rightarrow> 'a \<Rightarrow> bool) \<Rightarrow> 'a list \<Rightarrow> nat \<Rightarrow> 'a list" where
  "heap_up lt xs j =
     (let i = parent j
      in if i = j \<or> \<not> lt (xs ! j) (xs ! i) then xs
         else heap_up lt (swap xs i j) i)"
  by pat_completeness auto
termination
  by (relation "measure (\<lambda>(lt, xs, j). j)") (auto simp: parent_def)

definition smaller_child :: "('a \<Rightarrow> 'a \<Rightarrow> bool) \<Rightarrow> 'a list \<Rightarrow> nat \<Rightarrow> nat \<Rightarrow> nat" where
  "smaller_child lt xs i n =
     (let j1 = 2 * i + 1; j2 = j1 + 1
      in if j2 < n \<and> lt (xs ! j2) (xs ! j1) then j2 else j1)"

text \<open>The result is the slice and the final index; the Go function returns \<open>i > i0\<close>.\<close>

function heap_down :: "('a \<Rightarrow> 'a \<Rightarrow> bool) \<Rightarrow> 'a list \<Rightarrow> nat \<Rightarrow> nat \<Rightarrow> 'a list \<times> nat" where
  "heap_down lt xs i n =
     (if n \<le> 2 * i + 1 then (xs, i)
      else let j = smaller_child lt xs i n
           in if \<not> lt (xs ! j) (xs ! i) then (xs, i)
              else heap_down lt (swap xs i j) j n)"
  by pat_completeness auto
termination
  by (relation "measure (\<lambda>(lt, xs, i, n). n - i)") (auto simp: smaller_child_def Let_def)

declare heap_up.simps [simp del] heap_down.simps [simp del]

definition heap_push :: "('a \<Rightarrow> 'a \<Rightarrow> bool) \<Rightarrow> 'a \<Rightarrow> 'a list \<Rightarrow> 'a list" where
  "heap_push lt x xs = heap_up lt (xs @ [x]) (length xs)"

definition heap_pop :: "('a \<Rightarrow> 'a \<Rightarrow> bool) \<Rightarrow> 'a list \<Rightarrow> 'a \<times> 'a list" where
  "heap_pop lt xs =
     (let n = length xs - 1;
          ys = fst (heap_down lt (swap xs 0 n) 0 n)
      in (last ys, butlast ys))"

definition heap_remove :: "('a \<Rightarrow> 'a \<Rightarrow> bool) \<Rightarrow> 'a list \<Rightarrow> nat \<Rightarrow> 'a \<times> 'a list" where
  "heap_remove lt xs i =
     (let n = length xs - 1;
          ys = (if n \<noteq> i
                then let (zs, i') = heap_down lt (swap xs i n) i n
                     in if \<not> i < i' then heap_up lt zs i else zs
                else xs)
      in (last ys, butlast ys))"

subsection \<open>What sifting never changes\<close>

lemma parent_less: "0 < j \<Longrightarrow> parent j < j"
  by (simp add: parent_def)

lemma parent_eq_iff: "parent j = j \<longleftrightarrow> j = 0"
  by (cases j) (auto simp: parent_def)

lemma parent_child: "0 < k \<Longrightarrow> parent k = i \<longleftrightarrow> k = 2 * i + 1 \<or> k = 2 * i + 2"
  by (auto simp: parent_def)

lemma smaller_child_bounds:
  "2 * i + 1 < n \<Longrightarrow> i < smaller_child lt xs i n \<and> smaller_child lt xs i n < n"
  by (auto simp: smaller_child_def Let_def)

lemma parent_smaller_child [simp]: "parent (smaller_child lt xs i n) = i"
  by (auto simp: smaller_child_def Let_def parent_def)

lemma heap_up_mset [simp]: "j < length xs \<Longrightarrow> mset (heap_up lt xs j) = mset xs"
proof (induction lt xs j rule: heap_up.induct)
  case (1 lt xs j)
  let ?i = "parent j"
  have "?i < length xs" using 1(2) parent_less [of j] by (cases "j = 0") (auto simp: parent_def)
  then show ?case using 1 by (subst heap_up.simps) (simp add: Let_def)
qed

lemma heap_up_length [simp]: "j < length xs \<Longrightarrow> length (heap_up lt xs j) = length xs"
  using mset_eq_length heap_up_mset by blast

lemma heap_down_frame:
  assumes "n \<le> length xs"
  shows "mset (fst (heap_down lt xs i n)) = mset xs \<and>
         (\<forall>k. n \<le> k \<and> k < length xs \<longrightarrow> fst (heap_down lt xs i n) ! k = xs ! k) \<and>
         i \<le> snd (heap_down lt xs i n)"
  using assms
proof (induction lt xs i n rule: heap_down.induct)
  case (1 lt xs i n)
  let ?j = "smaller_child lt xs i n"
  show ?case
  proof (cases "n \<le> 2 * i + 1 \<or> \<not> lt (xs ! ?j) (xs ! i)")
    case True
    then show ?thesis by (subst (1 2 3) heap_down.simps) (auto simp: Let_def)
  next
    case False
    then have j: "i < ?j" "?j < n" using smaller_child_bounds by (meson not_le)+
    have eq: "heap_down lt xs i n = heap_down lt (swap xs i ?j) ?j n"
      using False by (subst heap_down.simps) (simp add: Let_def)
    show ?thesis using 1(1)[OF _ refl] False j "1.prems"
      unfolding eq by (auto simp: nth_swap)
  qed
qed

lemma heap_down_mset [simp]: "n \<le> length xs \<Longrightarrow> mset (fst (heap_down lt xs i n)) = mset xs"
  using heap_down_frame by blast

lemma heap_down_length [simp]: "n \<le> length xs \<Longrightarrow> length (fst (heap_down lt xs i n)) = length xs"
  using mset_eq_length heap_down_mset by blast

lemma heap_down_nth [simp]:
  "n \<le> k \<Longrightarrow> k < length xs \<Longrightarrow> fst (heap_down lt xs i n) ! k = xs ! k"
  using heap_down_frame [of n xs lt i] by auto

lemma heap_down_index: "n \<le> length xs \<Longrightarrow> i \<le> snd (heap_down lt xs i n)"
  using heap_down_frame by blast

lemma heap_down_stay:
  "n \<le> length xs \<Longrightarrow> snd (heap_down lt xs i n) = i \<Longrightarrow> fst (heap_down lt xs i n) = xs"
proof -
  assume n: "n \<le> length xs" and stay: "snd (heap_down lt xs i n) = i"
  let ?j = "smaller_child lt xs i n"
  show ?thesis
  proof (cases "n \<le> 2 * i + 1 \<or> \<not> lt (xs ! ?j) (xs ! i)")
    case True
    then show ?thesis by (subst heap_down.simps) (auto simp: Let_def)
  next
    case False
    then have "i < ?j" using smaller_child_bounds by (meson not_le)
    moreover have "heap_down lt xs i n = heap_down lt (swap xs i ?j) ?j n"
      using False by (subst heap_down.simps) (simp add: Let_def)
    ultimately show ?thesis using stay heap_down_index [of n "swap xs i ?j" ?j lt] n by simp
  qed
qed

lemma heap_up_nth: "j < k \<Longrightarrow> k < length xs \<Longrightarrow> heap_up lt xs j ! k = xs ! k"
proof (induction lt xs j rule: heap_up.induct)
  case (1 lt xs j)
  have "parent j \<le> j" by (simp add: parent_def)
  then show ?case using 1 by (subst heap_up.simps) (auto simp: Let_def nth_swap)
qed

text \<open>What is taken out is the asked slot; what is left is the rest, as a multiset.\<close>

lemma last_nth: "xs \<noteq> [] \<Longrightarrow> last xs = xs ! (length xs - 1)"
  by (rule last_conv_nth)

lemma removed_rest:
  assumes "mset ys = mset xs" "last ys = x" "ys \<noteq> []"
  shows "mset (butlast ys) = mset xs - {#x#}"
  using mset_butlast_last [OF assms(3)] assms by simp

lemma heap_push_mset [simp]: "mset (heap_push lt x xs) = add_mset x (mset xs)"
  by (simp add: heap_push_def)

lemma heap_push_length [simp]: "length (heap_push lt x xs) = Suc (length xs)"
  by (simp add: heap_push_def)

lemma heap_pop_result:
  assumes "xs \<noteq> []"
  shows "fst (heap_pop lt xs) = xs ! 0 \<and> mset (snd (heap_pop lt xs)) = mset xs - {#xs ! 0#}"
proof -
  define n where "n = length xs - 1"
  define ys where "ys = fst (heap_down lt (swap xs 0 n) 0 n)"
  have n: "n < length xs" "n \<le> length (swap xs 0 n)" using assms by (auto simp: n_def)
  have len: "length ys = length xs" using n(2) by (simp add: ys_def)
  then have "ys \<noteq> []" using assms by auto
  moreover have "last ys = xs ! 0"
    using n assms last_nth [OF \<open>ys \<noteq> []\<close>] len by (simp add: ys_def n_def nth_swap)
  moreover have "mset ys = mset xs" using n assms by (simp add: ys_def)
  ultimately show ?thesis
    using removed_rest [of ys xs "xs ! 0"] by (simp add: heap_pop_def Let_def ys_def n_def)
qed

lemma heap_remove_result:
  assumes "i < length xs"
  shows "fst (heap_remove lt xs i) = xs ! i \<and> mset (snd (heap_remove lt xs i)) = mset xs - {#xs ! i#}"
proof -
  define n where "n = length xs - 1"
  define zs where "zs = fst (heap_down lt (swap xs i n) i n)"
  define ys where "ys = (if n \<noteq> i then
      if \<not> i < snd (heap_down lt (swap xs i n) i n) then heap_up lt zs i else zs else xs)"
  have n: "n < length xs" "n \<le> length (swap xs i n)" "i \<le> n" using assms by (auto simp: n_def)
  have zs: "length zs = length xs" "mset zs = mset xs" "zs ! n = xs ! i"
    using n assms by (auto simp: zs_def nth_swap)
  have ys: "length ys = length xs" "mset ys = mset xs" "ys ! n = xs ! i"
    using zs n assms by (auto simp: ys_def heap_up_nth)
  then have "ys \<noteq> []" using assms by auto
  moreover have "last ys = xs ! i" using last_nth [OF \<open>ys \<noteq> []\<close>] ys by (simp add: n_def)
  moreover have "heap_remove lt xs i = (last ys, butlast ys)"
    by (simp add: heap_remove_def Let_def ys_def zs_def n_def split: prod.split)
  ultimately show ?thesis using removed_rest [of ys xs "xs ! i"] ys by simp
qed

lemma heap_remove_length:
  "i < length xs \<Longrightarrow> length (snd (heap_remove lt xs i)) = length xs - 1"
  using heap_remove_result [of i xs lt] by (metis nth_mem_mset size_Diff_singleton size_mset)

lemma heap_pop_length: "xs \<noteq> [] \<Longrightarrow> length (snd (heap_pop lt xs)) = length xs - 1"
  using heap_pop_result [of xs lt]
  by (metis length_greater_0_conv nth_mem_mset size_Diff_singleton size_mset)

subsection \<open>The contract of \<open>Less\<close> and the heap laws\<close>

locale heap_order =
  fixes lt :: "'a \<Rightarrow> 'a \<Rightarrow> bool"
  assumes lt_asym: "lt x y \<Longrightarrow> \<not> lt y x"
    and lt_negtrans: "\<not> lt x y \<Longrightarrow> \<not> lt y z \<Longrightarrow> \<not> lt x z"
begin

text \<open>Slot \<open>k\<close> is in order with its parent; the first \<open>n\<close> slots form a heap.\<close>

definition slot_ok :: "'a list \<Rightarrow> nat \<Rightarrow> bool" where
  "slot_ok xs k \<longleftrightarrow> \<not> lt (xs ! k) (xs ! parent k)"

definition is_heap :: "'a list \<Rightarrow> nat \<Rightarrow> bool" where
  "is_heap xs n \<longleftrightarrow> (\<forall>k. 0 < k \<and> k < n \<longrightarrow> slot_ok xs k)"

text \<open>
  The two states between the sifting steps: every slot is in order except slot \<open>j\<close>
  (\<open>up_state\<close>), or except the children of slot \<open>i\<close> (\<open>down_state\<close>); the children
  of the exceptional slot are in order with its parent.
\<close>

definition skip_ok :: "'a list \<Rightarrow> nat \<Rightarrow> nat \<Rightarrow> bool" where
  "skip_ok xs n i \<longleftrightarrow>
     (\<forall>k. 0 < i \<and> 0 < k \<and> k < n \<and> parent k = i \<longrightarrow> \<not> lt (xs ! k) (xs ! parent i))"

definition up_state :: "'a list \<Rightarrow> nat \<Rightarrow> nat \<Rightarrow> bool" where
  "up_state xs n j \<longleftrightarrow>
     (\<forall>k. 0 < k \<and> k < n \<and> k \<noteq> j \<longrightarrow> slot_ok xs k) \<and> skip_ok xs n j"

definition down_state :: "'a list \<Rightarrow> nat \<Rightarrow> nat \<Rightarrow> bool" where
  "down_state xs n i \<longleftrightarrow>
     (\<forall>k. 0 < k \<and> k < n \<and> parent k \<noteq> i \<longrightarrow> slot_ok xs k) \<and> skip_ok xs n i"

definition hole_state :: "'a list \<Rightarrow> nat \<Rightarrow> nat \<Rightarrow> bool" where
  "hole_state xs n i \<longleftrightarrow>
     (\<forall>k. 0 < k \<and> k < n \<and> k \<noteq> i \<and> parent k \<noteq> i \<longrightarrow> slot_ok xs k) \<and> skip_ok xs n i"

lemmas state_defs = slot_ok_def is_heap_def skip_ok_def up_state_def down_state_def hole_state_def

lemma lt_irrefl [simp]: "\<not> lt x x"
  using lt_asym by blast

lemma is_heapD: "is_heap xs n \<Longrightarrow> 0 < k \<Longrightarrow> k < n \<Longrightarrow> \<not> lt (xs ! k) (xs ! parent k)"
  by (simp add: is_heap_def slot_ok_def)

lemma smaller_child_le:
  assumes "0 < k" "k < n" "parent k = i"
  shows "\<not> lt (xs ! k) (xs ! smaller_child lt xs i n)"
  using assms lt_asym by (auto simp: parent_child smaller_child_def Let_def)

lemma up_step:
  assumes up: "up_state xs n j" and j: "0 < j" "j < n" "n \<le> length xs"
    and lt: "lt (xs ! j) (xs ! parent j)"
  shows "up_state (swap xs (parent j) j) n (parent j)"
proof -
  let ?i = "parent j" and ?ys = "swap xs (parent j) j"
  have i: "?i < j" using j parent_less by blast
  have nth: "\<And>k. k < n \<Longrightarrow> ?ys ! k = (if k = ?i then xs ! j else if k = j then xs ! ?i else xs ! k)"
    using i j by (simp add: nth_swap)
  have par_n: "\<And>k. k < n \<Longrightarrow> parent k < n"
    by (metis bot_nat_0.not_eq_extremum dual_order.strict_trans parent_eq_iff parent_less)
  have "slot_ok ?ys k" if k: "0 < k" "k < n" "k \<noteq> ?i" for k
  proof (cases "k = j")
    case True
    then show ?thesis using lt lt_asym i j nth par_n by (simp add: slot_ok_def)
  next
    case False
    then have ok: "\<not> lt (xs ! k) (xs ! parent k)"
      using up k by (simp add: up_state_def slot_ok_def)
    show ?thesis
    proof (cases "parent k = ?i")
      case True
      then show ?thesis using False k ok nth par_n lt lt_asym lt_negtrans
        unfolding slot_ok_def by (metis)
    next
      case pk: False
      have "parent k = j \<Longrightarrow> \<not> lt (xs ! k) (xs ! ?i)"
        using up k j by (simp add: up_state_def skip_ok_def)
      then show ?thesis using False pk k ok nth par_n by (auto simp: slot_ok_def)
    qed
  qed
  moreover have "skip_ok ?ys n ?i"
    unfolding skip_ok_def
  proof (intro allI impI)
    fix k assume k: "0 < ?i \<and> 0 < k \<and> k < n \<and> parent k = ?i"
    have i_ok: "\<not> lt (xs ! ?i) (xs ! parent ?i)"
      using up k i j by (simp add: up_state_def slot_ok_def)
    have "k \<noteq> ?i" "parent ?i \<noteq> ?i" "parent ?i \<noteq> j"
      using k i parent_less [of ?i] parent_less [of k] by auto
    moreover have "k \<noteq> j \<Longrightarrow> \<not> lt (xs ! k) (xs ! ?i)"
      using up k by (auto simp: up_state_def slot_ok_def)
    ultimately show "\<not> lt (?ys ! k) (?ys ! parent ?i)"
      using k i_ok nth par_n i j lt_negtrans by (metis order_less_trans)
  qed
  ultimately show ?thesis by (simp add: up_state_def)
qed

lemma heap_up_heap:
  "up_state xs n j \<Longrightarrow> j < n \<Longrightarrow> n \<le> length xs \<Longrightarrow> is_heap (heap_up lt xs j) n"
proof (induction j arbitrary: xs rule: less_induct)
  case (less j)
  show ?case
  proof (cases "parent j = j \<or> \<not> lt (xs ! j) (xs ! parent j)")
    case True
    then have "heap_up lt xs j = xs" by (subst heap_up.simps) (auto simp: Let_def)
    moreover have "slot_ok xs k" if "0 < k" "k < n" for k
      using True less.prems(1) that by (cases "k = j") (auto simp: up_state_def slot_ok_def parent_eq_iff)
    ultimately show ?thesis by (simp add: is_heap_def)
  next
    case False
    then have j: "0 < j" "parent j < j" using parent_less by (auto simp: parent_eq_iff)
    have "heap_up lt xs j = heap_up lt (swap xs (parent j) j) (parent j)"
      using False by (subst heap_up.simps) (simp add: Let_def)
    moreover have "up_state (swap xs (parent j) j) n (parent j)"
      using up_step less.prems False j by blast
    ultimately show ?thesis using less.IH [OF j(2)] less.prems j by simp
  qed
qed

lemma parent_bound: "k < n \<Longrightarrow> parent k < n"
  by (simp add: parent_def)

text \<open>One sifting-down step from a slot whose own order with its parent may be broken.\<close>

lemma down_step:
  assumes hole: "hole_state xs n i" and n: "2 * i + 1 < n" "n \<le> length xs"
    and j: "j = smaller_child lt xs i n" and lt: "lt (xs ! j) (xs ! i)"
  shows "down_state (swap xs i j) n j"
proof -
  let ?ys = "swap xs i j"
  have ij: "i < j" "j < n" "parent j = i" using smaller_child_bounds n(1) unfolding j by auto
  have nth: "\<And>k. k < n \<Longrightarrow> ?ys ! k = (if k = i then xs ! j else if k = j then xs ! i else xs ! k)"
    using ij n(2) by (simp add: nth_swap)
  have "slot_ok ?ys k" if k: "0 < k" "k < n" "parent k \<noteq> j" for k
  proof -
    have pk: "parent k < n" "parent k < k" using parent_bound parent_less k by auto
    consider "k = i" | "parent k = i" | "k \<noteq> i" "parent k \<noteq> i" by blast
    then show ?thesis
    proof cases
      case 1
      then have "\<not> lt (xs ! j) (xs ! parent i)"
        using hole k ij by (simp add: hole_state_def skip_ok_def)
      then show ?thesis using 1 k pk ij nth by (auto simp: slot_ok_def)
    next
      case 2
      then have "\<not> lt (xs ! k) (xs ! j)" using smaller_child_le k unfolding j by blast
      then show ?thesis using 2 pk k ij nth lt lt_asym by (auto simp: slot_ok_def)
    next
      case 3
      then have "slot_ok xs k" using hole k by (simp add: hole_state_def)
      then show ?thesis using 3 pk k ij nth by (auto simp: slot_ok_def)
    qed
  qed
  moreover have "skip_ok ?ys n j"
    unfolding skip_ok_def
  proof (intro allI impI)
    fix k assume k: "0 < j \<and> 0 < k \<and> k < n \<and> parent k = j"
    then have "j < k" using parent_less by blast
    moreover have "slot_ok xs k" using hole k ij \<open>j < k\<close> by (auto simp: hole_state_def)
    ultimately show "\<not> lt (?ys ! k) (?ys ! parent j)" using k ij nth by (simp add: slot_ok_def)
  qed
  ultimately show ?thesis by (simp add: down_state_def)
qed

lemma down_state_hole: "down_state xs n i \<Longrightarrow> hole_state xs n i"
  by (auto simp: down_state_def hole_state_def)

lemma down_stop:
  assumes "n \<le> 2 * i + 1 \<or> \<not> lt (xs ! smaller_child lt xs i n) (xs ! i)"
    and "0 < k" "k < n" "parent k = i"
  shows "slot_ok xs k"
proof -
  have "\<not> n \<le> 2 * i + 1" using assms(2-4) by (auto simp: parent_child)
  then have "\<not> lt (xs ! smaller_child lt xs i n) (xs ! i)" using assms(1) by blast
  then show ?thesis using smaller_child_le [OF assms(2-4)] lt_negtrans assms(4)
    unfolding slot_ok_def by blast
qed

lemma heap_down_unfold:
  "heap_down lt xs i n =
     (if n \<le> 2 * i + 1 \<or> \<not> lt (xs ! smaller_child lt xs i n) (xs ! i) then (xs, i)
      else heap_down lt (swap xs i (smaller_child lt xs i n)) (smaller_child lt xs i n) n)"
  by (subst heap_down.simps) (simp add: Let_def)

lemma heap_down_heap:
  "down_state xs n i \<Longrightarrow> n \<le> length xs \<Longrightarrow> is_heap (fst (heap_down lt xs i n)) n"
proof (induction "n - i" arbitrary: xs i rule: less_induct)
  case less
  let ?j = "smaller_child lt xs i n"
  show ?case
  proof (cases "n \<le> 2 * i + 1 \<or> \<not> lt (xs ! ?j) (xs ! i)")
    case True
    then have "slot_ok xs k" if "0 < k" "k < n" for k
      using down_stop that less.prems(1) by (cases "parent k = i") (auto simp: down_state_def)
    then show ?thesis using True by (subst heap_down_unfold) (simp add: is_heap_def)
  next
    case False
    then have "down_state (swap xs i ?j) n ?j"
      using down_step down_state_hole less.prems by (meson not_le)
    moreover have "n - ?j < n - i" using smaller_child_bounds [of i n lt xs] False by auto
    ultimately show ?thesis using less False by (subst heap_down_unfold) simp
  qed
qed

lemma heap_down_moved:
  assumes "hole_state xs n i" "n \<le> length xs" "i < snd (heap_down lt xs i n)"
  shows "is_heap (fst (heap_down lt xs i n)) n"
proof -
  let ?j = "smaller_child lt xs i n"
  have moves: "\<not> (n \<le> 2 * i + 1 \<or> \<not> lt (xs ! ?j) (xs ! i))"
    using assms(3) by (subst (asm) heap_down_unfold) (auto split: if_splits)
  then have "down_state (swap xs i ?j) n ?j" using down_step assms by (meson not_le)
  then show ?thesis using moves assms(2) heap_down_heap [of "swap xs i ?j" n ?j]
    by (subst heap_down_unfold) auto
qed

lemma heap_down_stayed:
  assumes "hole_state xs n i" "n \<le> length xs" "\<not> i < snd (heap_down lt xs i n)"
  shows "fst (heap_down lt xs i n) = xs \<and> up_state xs n i"
proof -
  have stay: "snd (heap_down lt xs i n) = i" using heap_down_index assms by (metis le_neq_implies_less)
  have "n \<le> 2 * i + 1 \<or> \<not> lt (xs ! smaller_child lt xs i n) (xs ! i)"
  proof (rule ccontr)
    assume "\<not> ?thesis"
    moreover from this have "i < smaller_child lt xs i n" using smaller_child_bounds by (meson not_le)
    ultimately show False
      using stay assms(2) heap_down_index [of n "swap xs i (smaller_child lt xs i n)"
          "smaller_child lt xs i n" lt] by (subst (asm) heap_down_unfold) simp
  qed
  then have "slot_ok xs k" if "0 < k" "k < n" "k \<noteq> i" for k
    using down_stop that assms(1) by (cases "parent k = i") (auto simp: hole_state_def)
  then show ?thesis using assms stay heap_down_stay by (auto simp: up_state_def hole_state_def)
qed

subsubsection \<open>The laws a client relies on\<close>

abbreviation heap :: "'a list \<Rightarrow> bool" where
  "heap xs \<equiv> is_heap xs (length xs)"

lemma heap_cong: "(\<And>k. k < n \<Longrightarrow> xs ! k = ys ! k) \<Longrightarrow> is_heap xs n \<longleftrightarrow> is_heap ys n"
  by (simp add: is_heap_def slot_ok_def parent_bound)

lemma heap_butlast: "is_heap xs (length xs - 1) \<Longrightarrow> heap (butlast xs)"
  using heap_cong [of "length xs - 1" "butlast xs" xs] by (simp add: nth_butlast)

lemma heap_Nil [simp]: "heap []"
  by (simp add: is_heap_def)

lemma heap_top:
  "heap xs \<Longrightarrow> k < length xs \<Longrightarrow> \<not> lt (xs ! k) (xs ! 0)"
proof (induction k rule: less_induct)
  case (less k)
  show ?case
  proof (cases "k = 0")
    case False
    then have "\<not> lt (xs ! parent k) (xs ! 0)" "\<not> lt (xs ! k) (xs ! parent k)"
      using less is_heapD parent_less [of k] parent_bound by auto
    then show ?thesis using lt_negtrans by blast
  qed simp
qed

lemma heap_push_heap:
  assumes "heap xs"
  shows "heap (heap_push lt x xs)"
proof -
  have "slot_ok (xs @ [x]) k" if "0 < k" "k < length xs" for k
    using assms that parent_bound [of k "length xs"] by (simp add: is_heap_def slot_ok_def nth_append)
  moreover have "skip_ok (xs @ [x]) (Suc (length xs)) (length xs)"
    unfolding skip_ok_def using parent_less less_Suc_eq_le not_le by metis
  ultimately have "up_state (xs @ [x]) (Suc (length xs)) (length xs)"
    by (auto simp: up_state_def)
  then show ?thesis using heap_up_heap [of "xs @ [x]"] by (simp add: heap_push_def)
qed

lemma heap_swap_hole:
  assumes "heap xs" "i < n" "n = length xs - 1"
  shows "hole_state (swap xs i n) n i"
proof -
  have n: "n < length xs" using assms by linarith
  have nth: "\<And>k. k < n \<Longrightarrow> k \<noteq> i \<Longrightarrow> swap xs i n ! k = xs ! k" using assms n by (simp add: nth_swap)
  have ok: "\<And>k. 0 < k \<Longrightarrow> k < n \<Longrightarrow> \<not> lt (xs ! k) (xs ! parent k)" using assms n is_heapD by simp
  have "skip_ok (swap xs i n) n i"
    unfolding skip_ok_def
  proof (intro allI impI)
    fix k assume k: "0 < i \<and> 0 < k \<and> k < n \<and> parent k = i"
    then have "k \<noteq> i" "parent i \<noteq> i" "parent i < n"
      using parent_less [of k] parent_less [of i] assms(2) by auto
    then show "\<not> lt (swap xs i n ! k) (swap xs i n ! parent i)"
      using k nth ok [of k] ok [of i] assms(2) lt_negtrans by metis
  qed
  then show ?thesis using nth ok parent_bound by (auto simp: hole_state_def slot_ok_def)
qed

lemma heap_remove_heap:
  assumes "heap xs" "i < length xs"
  shows "heap (snd (heap_remove lt xs i))"
proof (cases "i = length xs - 1")
  case True
  have "is_heap xs (length xs - 1)" using assms(1) by (auto simp: is_heap_def)
  then show ?thesis using True heap_butlast by (simp add: heap_remove_def Let_def)
next
  case False
  define n where "n = length xs - 1"
  have i: "i < n" using assms(2) False by (simp add: n_def)
  have hole: "hole_state (swap xs i n) n i" using heap_swap_hole assms i n_def by blast
  have len: "n \<le> length (swap xs i n)" by (simp add: n_def)
  define zs where "zs = fst (heap_down lt (swap xs i n) i n)"
  define ys where "ys = (if \<not> i < snd (heap_down lt (swap xs i n) i n) then heap_up lt zs i else zs)"
  have zs: "length zs = length xs" using len by (simp add: zs_def)
  have "is_heap ys n"
    using heap_down_moved [OF hole len] heap_down_stayed [OF hole len]
      heap_up_heap [of "swap xs i n" n i] i len by (auto simp: ys_def zs_def)
  moreover have "length ys = length xs" using zs assms(2) by (simp add: ys_def)
  moreover have "snd (heap_remove lt xs i) = butlast ys"
    using False by (simp add: heap_remove_def Let_def n_def ys_def zs_def split: prod.split)
  ultimately show ?thesis using heap_butlast [of ys] n_def by simp
qed

lemma heap_pop_heap: "xs \<noteq> [] \<Longrightarrow> heap xs \<Longrightarrow> heap (snd (heap_pop lt xs))"
proof -
  assume ne: "xs \<noteq> []" and h: "heap xs"
  define n where "n = length xs - 1"
  show ?thesis
  proof (cases "n = 0")
    case True
    then have "length (fst (heap_down lt (swap xs 0 n) 0 n)) = 1"
      using ne n_def by (cases xs) auto
    then show ?thesis by (simp add: heap_pop_def Let_def n_def is_heap_def)
  next
    case False
    then have "hole_state (swap xs 0 n) n 0" using heap_swap_hole h n_def by blast
    then have "down_state (swap xs 0 n) n 0"
      by (auto simp: hole_state_def down_state_def)
    then have "is_heap (fst (heap_down lt (swap xs 0 n) 0 n)) n"
      using heap_down_heap n_def by simp
    then show ?thesis
      using heap_butlast [of "fst (heap_down lt (swap xs 0 n) 0 n)"]
      by (simp add: heap_pop_def Let_def n_def)
  qed
qed

end

end
