(* ===== verification/Build_Queue.thy ===== *)
theory Build_Queue
  imports Domain Go_Heap
begin

text \<open>
  \<open>internal/queue\<close>: the bounded priority queue of pending builds. The state is the slice
  of tasks that \<open>container/heap\<close> maintains and the bound; each operation runs under the
  queue's mutex and is one function here. \<open>taskLess\<close> satisfies the contract of the heap
  (locale \<open>heap_order\<close>), and the queue satisfies the contract \<open>bounded_queue\<close> that
  the build service relies on.
\<close>

subsection \<open>The queue and its operations\<close>

record task =
  Build :: build
  Score :: float64

record queue =
  theap :: "task list"
  maxLen :: int

definition taskLess :: "task \<Rightarrow> task \<Rightarrow> bool" where
  "taskLess a b \<longleftrightarrow> Score b < Score a"

definition New :: "int \<Rightarrow> queue" where
  "New n = \<lparr>theap = [], maxLen = n\<rparr>"

definition Len :: "queue \<Rightarrow> nat" where
  "Len q = length (theap q)"

definition Full :: "queue \<Rightarrow> bool" where
  "Full q \<longleftrightarrow> 0 < maxLen q \<and> maxLen q \<le> int (length (theap q))"

definition Push :: "build \<Rightarrow> queue \<Rightarrow> bool \<times> queue" where
  "Push b q =
     (if 0 < maxLen q \<and> maxLen q \<le> int (length (theap q)) then (False, q)
      else (True, q\<lparr>theap := heap_push taskLess
                      \<lparr>Build = b, Score = float_of_int (Priority b)\<rparr> (theap q)\<rparr>))"

definition Pop :: "queue \<Rightarrow> build option \<times> queue" where
  "Pop q =
     (if length (theap q) = 0 then (None, q)
      else let (t, h) = heap_pop taskLess (theap q) in (Some (Build t), q\<lparr>theap := h\<rparr>))"

definition combined :: "(build \<Rightarrow> float64) \<Rightarrow> task \<Rightarrow> float64" where
  "combined scoreFn t =
     fadd (fmul (float_of_int (Priority (Build t))) (1 / 2)) (fmul (scoreFn (Build t)) 10)"

text \<open>The loop of \<open>PeekByScore\<close>: position, best index and best score so far.\<close>

fun peek_loop :: "(build \<Rightarrow> float64) \<Rightarrow> task list \<Rightarrow> nat \<Rightarrow> nat \<Rightarrow> float64 \<Rightarrow> nat" where
  "peek_loop f [] i bestIdx bestScore = bestIdx"
| "peek_loop f (t # ts) i bestIdx bestScore =
     (if bestScore < combined f t then peek_loop f ts (Suc i) i (combined f t)
      else peek_loop f ts (Suc i) bestIdx bestScore)"

definition PeekByScore :: "(build \<Rightarrow> float64) \<Rightarrow> queue \<Rightarrow> build option \<times> queue" where
  "PeekByScore scoreFn q =
     (if length (theap q) = 0 then (None, q)
      else let bestIdx = peek_loop scoreFn (theap q) 0 0 0;
               result = theap q ! bestIdx
           in (Some (Build result), q\<lparr>theap := snd (heap_remove taskLess (theap q) bestIdx)\<rparr>))"

fun find_id :: "string \<Rightarrow> task list \<Rightarrow> nat \<Rightarrow> nat option" where
  "find_id bid [] i = None"
| "find_id bid (t # ts) i = (if ID (Build t) = bid then Some i else find_id bid ts (Suc i))"

definition Remove :: "string \<Rightarrow> queue \<Rightarrow> build option \<times> queue" where
  "Remove bid q = (case find_id bid (theap q) 0 of
       None \<Rightarrow> (None, q)
     | Some i \<Rightarrow> (Some (Build (theap q ! i)), q\<lparr>theap := snd (heap_remove taskLess (theap q) i)\<rparr>))"

subsection \<open>Invariant and abstraction\<close>

interpretation th: heap_order taskLess
  by unfold_locales (auto simp: taskLess_def)

text \<open>
  The slice is a heap, it respects the bound, and every score is the float64 of the
  build's priority.
\<close>

definition queue_ok :: "queue \<Rightarrow> bool" where
  "queue_ok q \<longleftrightarrow> th.is_heap (theap q) (length (theap q)) \<and>
     (0 < maxLen q \<longrightarrow> int (length (theap q)) \<le> maxLen q) \<and>
     (\<forall>t \<in> set (theap q). Score t = float_of_int (Priority (Build t)))"

definition queued :: "queue \<Rightarrow> build multiset" where
  "queued q = image_mset Build (mset (theap q))"

lemma queue_ok_New [simp]: "queue_ok (New n)"
  by (simp add: queue_ok_def New_def th.is_heap_def)

lemma theap_New [simp]: "theap (New n) = []" "maxLen (New n) = n"
  by (simp_all add: New_def)

lemma queued_New [simp]: "queued (New n) = {#}"
  by (simp add: queued_def New_def)

lemma size_queued [simp]: "size (queued q) = length (theap q)"
  by (simp add: queued_def)

lemma queued_empty_iff: "queued q = {#} \<longleftrightarrow> theap q = []"
  by (simp add: queued_def)

lemma Len_queued: "Len q = size (queued q)"
  by (simp add: Len_def)

subsubsection \<open>Push\<close>

lemma Push_full: "Full q \<Longrightarrow> Push b q = (False, q)"
  by (simp add: Push_def Full_def)

lemma Push_room: "\<not> Full q \<Longrightarrow> fst (Push b q)"
  by (auto simp: Push_def Full_def)

lemma Push_maxLen [frame, simp]: "maxLen (snd (Push b q)) = maxLen q"
  by (simp add: Push_def)

lemma Push_queued: "\<not> Full q \<Longrightarrow> queued (snd (Push b q)) = add_mset b (queued q)"
  by (auto simp: Push_def Full_def queued_def)

lemma Push_ok: "queue_ok q \<Longrightarrow> queue_ok (snd (Push b q))"
proof -
  assume ok: "queue_ok q"
  let ?t = "\<lparr>Build = b, Score = float_of_int (Priority b)\<rparr>"
  have "set (heap_push taskLess ?t (theap q)) = insert ?t (set (theap q))"
    using heap_push_mset [of taskLess ?t "theap q"] by (metis set_mset_add_mset_insert set_mset_mset)
  then show ?thesis using ok th.heap_push_heap [of "theap q" ?t]
    by (auto simp: queue_ok_def Push_def)
qed

subsubsection \<open>Taking a slot out\<close>

lemma mset_image_remove:
  "x \<in> set xs \<Longrightarrow> mset ys = mset xs - {#x#} \<Longrightarrow>
   image_mset f (mset ys) = image_mset f (mset xs) - {#f x#} \<and> set ys \<subseteq> set xs"
  by (auto simp: image_mset_Diff) (metis in_diffD set_mset_mset)

lemma take_slot:
  assumes "queue_ok q" "i < length (theap q)"
  defines "q' \<equiv> q\<lparr>theap := snd (heap_remove taskLess (theap q) i)\<rparr>"
  shows "queue_ok q'" "queued q' = queued q - {#Build (theap q ! i)#}"
    "Build (theap q ! i) \<in># queued q" "length (theap q') = length (theap q) - 1"
proof -
  have m: "mset (theap q') = mset (theap q) - {#theap q ! i#}"
    using heap_remove_result [OF assms(2)] by (simp add: q'_def)
  have sub: "queued q' = queued q - {#Build (theap q ! i)#}" "set (theap q') \<subseteq> set (theap q)"
    using mset_image_remove [OF _ m] assms(2) by (auto simp: queued_def)
  have len: "length (theap q') = length (theap q) - 1"
    using heap_remove_length assms(2) by (simp add: q'_def)
  show "queue_ok q'"
    using assms(1,2) th.heap_remove_heap [of "theap q" i] sub(2) len
    by (auto simp: queue_ok_def q'_def)
  show "queued q' = queued q - {#Build (theap q ! i)#}" by (rule sub)
  show "length (theap q') = length (theap q) - 1" by (rule len)
  show "Build (theap q ! i) \<in># queued q" using assms(2) by (auto simp: queued_def)
qed

lemma top_is_highest:
  assumes "queue_ok q" "t \<in> set (theap q)"
  shows "Score t \<le> Score (theap q ! 0)"
proof -
  obtain i where "i < length (theap q)" "t = theap q ! i" using assms(2) by (auto simp: set_conv_nth)
  then show ?thesis using assms(1) th.heap_top [of "theap q" i] by (simp add: queue_ok_def taskLess_def)
qed

subsubsection \<open>PeekByScore\<close>

text \<open>
  The loop invariant: the result is the best index so far, or a later position whose score
  beats it and every position before it.
\<close>

lemma peek_loop_best:
  "(\<forall>t \<in> set ts. combined f t \<le> s) \<and> peek_loop f ts i k s = k \<or>
   (\<exists>j < length ts. peek_loop f ts i k s = i + j \<and> s < combined f (ts ! j) \<and>
      (\<forall>t \<in> set ts. combined f t \<le> combined f (ts ! j)))"
proof (induction ts arbitrary: i k s)
  case (Cons t ts)
  let ?k = "if s < combined f t then i else k" and ?s = "max s (combined f t)"
  have step: "peek_loop f (t # ts) i k s = peek_loop f ts (Suc i) ?k ?s" by auto
  from Cons.IH [where i = "Suc i" and k = ?k and s = ?s] show ?case
  proof
    assume "(\<forall>x \<in> set ts. combined f x \<le> ?s) \<and> peek_loop f ts (Suc i) ?k ?s = ?k"
    then show ?thesis unfolding step by (cases "s < combined f t") (auto intro!: exI [of _ 0])
  next
    assume "\<exists>j < length ts. peek_loop f ts (Suc i) ?k ?s = Suc i + j \<and> ?s < combined f (ts ! j) \<and>
      (\<forall>x \<in> set ts. combined f x \<le> combined f (ts ! j))"
    then obtain j where "j < length ts" "peek_loop f ts (Suc i) ?k ?s = Suc i + j"
      "?s < combined f (ts ! j)" "\<forall>x \<in> set ts. combined f x \<le> combined f (ts ! j)" by blast
    then show ?thesis unfolding step by (intro disjI2 exI [of _ "Suc j"]) auto
  qed
qed simp

lemma peek_loop_bound: "ts \<noteq> [] \<Longrightarrow> peek_loop f ts 0 0 0 < length ts"
  using peek_loop_best [of ts f 0 0 0] by auto

definition best_slot :: "(build \<Rightarrow> float64) \<Rightarrow> queue \<Rightarrow> nat" where
  "best_slot f q = peek_loop f (theap q) 0 0 0"

lemma PeekByScore_slot:
  "theap q \<noteq> [] \<Longrightarrow> PeekByScore f q =
     (Some (Build (theap q ! best_slot f q)),
      q\<lparr>theap := snd (heap_remove taskLess (theap q) (best_slot f q))\<rparr>) \<and>
   best_slot f q < length (theap q)"
  by (simp add: PeekByScore_def best_slot_def Let_def peek_loop_bound)

lemma PeekByScore_empty: "theap q = [] \<Longrightarrow> PeekByScore f q = (None, q)"
  by (simp add: PeekByScore_def)

lemma PeekByScore_maxLen [frame, simp]: "maxLen (snd (PeekByScore f q)) = maxLen q"
  by (simp add: PeekByScore_def Let_def)

lemma PeekByScore_ok: "queue_ok q \<Longrightarrow> queue_ok (snd (PeekByScore f q))"
  using take_slot(1) PeekByScore_slot [of q f] by (cases "theap q = []") (auto simp: PeekByScore_empty)

lemma PeekByScore_None: "fst (PeekByScore f q) = None \<longleftrightarrow> theap q = []"
  using PeekByScore_slot [of q f] by (cases "theap q = []") (auto simp: PeekByScore_empty)

lemma PeekByScore_queued:
  assumes "queue_ok q" "PeekByScore f q = (Some b, q')"
  shows "b \<in># queued q \<and> queued q' = queued q - {#b#}"
proof -
  have "theap q \<noteq> []" using assms(2) PeekByScore_empty by fastforce
  then show ?thesis using take_slot(2,3) assms PeekByScore_slot [of q f] by auto
qed

subsubsection \<open>Pop\<close>

lemma Pop_slot: "theap q \<noteq> [] \<Longrightarrow> Pop q =
    (Some (Build (theap q ! 0)), q\<lparr>theap := snd (heap_pop taskLess (theap q))\<rparr>)"
  using heap_pop_result [of "theap q" taskLess] by (cases "heap_pop taskLess (theap q)") (auto simp: Pop_def)

lemma Pop_empty: "theap q = [] \<Longrightarrow> Pop q = (None, q)"
  by (simp add: Pop_def)

lemma Pop_ok:
  assumes "queue_ok q"
  shows "queue_ok (snd (Pop q))"
proof (cases "theap q = []")
  case False
  have "set (snd (heap_pop taskLess (theap q))) \<subseteq> set (theap q)"
    using heap_pop_result [OF False, of taskLess] False
      mset_image_remove [of "theap q ! 0" "theap q" "snd (heap_pop taskLess (theap q))" id] by simp
  then show ?thesis
    using assms False th.heap_pop_heap [of "theap q"] heap_pop_length [of "theap q" taskLess]
    by (auto simp: queue_ok_def Pop_slot)
qed (use assms in \<open>simp add: Pop_empty\<close>)

lemma Pop_queued:
  assumes "Pop q = (Some b, q')"
  shows "b \<in># queued q \<and> queued q' = queued q - {#b#} \<and> maxLen q' = maxLen q"
proof -
  have ne: "theap q \<noteq> []" using assms Pop_empty by fastforce
  then have "theap q ! 0 \<in> set (theap q)" by simp
  then show ?thesis
    using assms ne heap_pop_result [OF ne, of taskLess]
      mset_image_remove [of "theap q ! 0" "theap q" "snd (heap_pop taskLess (theap q))" Build]
    by (auto simp: Pop_slot queued_def)
qed

subsubsection \<open>Remove\<close>

lemma find_id_Some:
  "find_id bid ts i = Some k \<Longrightarrow> i \<le> k \<and> k - i < length ts \<and> ID (Build (ts ! (k - i))) = bid"
proof (induction ts arbitrary: i)
  case (Cons t ts)
  show ?case
  proof (cases "ID (Build t) = bid")
    case False
    then have "Suc i \<le> k \<and> k - Suc i < length ts \<and> ID (Build (ts ! (k - Suc i))) = bid" using Cons by simp
    moreover from this have "k - i = Suc (k - Suc i)" by linarith
    ultimately show ?thesis by simp
  qed (use Cons.prems in simp)
qed simp

lemma find_id_None: "find_id bid ts i = None \<longleftrightarrow> (\<forall>t \<in> set ts. ID (Build t) \<noteq> bid)"
  by (induction ts arbitrary: i) auto

lemma Remove_None:
  "fst (Remove bid q) = None \<longleftrightarrow> (\<forall>b \<in># queued q. ID b \<noteq> bid)"
  using find_id_None [of bid "theap q" 0] by (auto simp: Remove_def queued_def split: option.split)

lemma Remove_cases:
  "Remove bid q = (None, q) \<or>
   (\<exists>i < length (theap q). ID (Build (theap q ! i)) = bid \<and>
      Remove bid q = (Some (Build (theap q ! i)), q\<lparr>theap := snd (heap_remove taskLess (theap q) i)\<rparr>))"
  using find_id_Some [of bid "theap q" 0] by (auto simp: Remove_def split: option.split)

lemma Remove_ok: "queue_ok q \<Longrightarrow> queue_ok (snd (Remove bid q))"
  using Remove_cases [of bid q] take_slot(1) by auto

lemma Remove_maxLen [frame, simp]: "maxLen (snd (Remove bid q)) = maxLen q"
  using Remove_cases [of bid q] by auto

lemma Remove_queued:
  assumes "queue_ok q" "Remove bid q = (r, q')"
  shows "case r of None \<Rightarrow> q' = q
         | Some b \<Rightarrow> ID b = bid \<and> b \<in># queued q \<and> queued q' = queued q - {#b#}"
  using Remove_cases [of bid q] take_slot(2,3) assms by auto

lemma Remove_count:
  assumes "queue_ok q" "Remove bid q = (r, q')"
  shows "count (image_mset ID (queued q')) bid = count (image_mset ID (queued q)) bid - 1"
    "queued q' \<subseteq># queued q"
proof -
  have "count (image_mset ID (queued q')) bid = count (image_mset ID (queued q)) bid - 1 \<and> queued q' \<subseteq># queued q"
  proof (cases r)
    case None
    then have "q' = q" "bid \<notin># image_mset ID (queued q)"
      using Remove_queued [OF assms] Remove_None [of bid q] assms(2) by auto
    moreover from this have "count (image_mset ID (queued q)) bid = 0" by (simp only: not_in_iff)
    ultimately show ?thesis by simp
  next
    case (Some b)
    then have "ID b = bid" "queued q = add_mset b (queued q')" using Remove_queued [OF assms] by auto
    then show ?thesis by simp
  qed
  then show "count (image_mset ID (queued q')) bid = count (image_mset ID (queued q)) bid - 1" "queued q' \<subseteq># queued q" by auto
qed

subsection \<open>The contract the build service relies on\<close>

text \<open>The loop \<open>for _, b := range builds { if !Push(b) { break }; pushed++ }\<close>.\<close>

fun push_while :: "('b \<Rightarrow> 'q \<Rightarrow> bool \<times> 'q) \<Rightarrow> 'b list \<Rightarrow> nat \<Rightarrow> 'q \<Rightarrow> nat \<times> 'q" where
  "push_while push [] n q = (n, q)"
| "push_while push (b # bs) n q =
     (case push b q of (ok, q') \<Rightarrow> if \<not> ok then (n, q') else push_while push bs (n + 1) q')"

locale bounded_queue =
  fixes push :: "'b \<Rightarrow> 'q \<Rightarrow> bool \<times> 'q"
    and full :: "'q \<Rightarrow> bool"
    and invar :: "'q \<Rightarrow> bool"
    and content :: "'q \<Rightarrow> 'b multiset"
  assumes push_full: "full q \<Longrightarrow> push b q = (False, q)"
    and push_room: "\<not> full q \<Longrightarrow> fst (push b q)"
    and push_content: "\<not> full q \<Longrightarrow> content (snd (push b q)) = add_mset b (content q)"
    and push_invar: "invar q \<Longrightarrow> invar (snd (push b q))"
begin

lemma push_cases:
  obtains "full q" "push b q = (False, q)"
  | q' where "\<not> full q" "push b q = (True, q')" "content q' = add_mset b (content q)"
proof (cases "full q")
  case False
  then have "push b q = (True, snd (push b q))" using push_room [of q b] by (cases "push b q") auto
  then show ?thesis using that(2) False push_content by blast
qed (use that(1) push_full in blast)

text \<open>
  The loop pushes the longest prefix that fits: it stops early only at a full queue, and
  what it counted is what it added.
\<close>

lemma push_while_spec:
  assumes "push_while push bs n q = (m, q')"
  shows "n \<le> m \<and> m - n \<le> length bs \<and> content q' = content q + mset (take (m - n) bs) \<and>
         (m - n < length bs \<longrightarrow> full q')"
  using assms
proof (induction bs arbitrary: n q)
  case (Cons b bs)
  show ?case
  proof (cases rule: push_cases [of q b])
    case 1
    then show ?thesis using Cons.prems by simp
  next
    case (2 q1)
    then have "push_while push bs (n + 1) q1 = (m, q')" using Cons.prems by simp
    then have IH: "n + 1 \<le> m \<and> m - (n + 1) \<le> length bs \<and>
        content q' = content q1 + mset (take (m - (n + 1)) bs) \<and> (m - (n + 1) < length bs \<longrightarrow> full q')"
      by (rule Cons.IH)
    then have "m - n = Suc (m - (n + 1))" by linarith
    then show ?thesis using IH 2 by (auto simp del: diff_Suc_eq_diff_pred)
  qed
qed simp

lemma push_while_invar: "invar q \<Longrightarrow> invar (snd (push_while push bs n q))"
proof (induction bs arbitrary: n q)
  case (Cons b bs)
  then show ?case using push_invar [of q b] by (auto split: prod.split)
qed simp

text \<open>An empty queue with room takes at least the first element.\<close>

lemma push_while_nonempty:
  assumes "\<not> full q"
  shows "content (snd (push_while push (b # bs) n q)) \<noteq> {#}"
proof -
  obtain m q' where r: "push_while push (b # bs) n q = (m, q')" by fastforce
  have spec: "content q' = content q + mset (take (m - n) (b # bs))" "n \<le> m"
    using push_while_spec [OF r] by auto
  have "m \<noteq> n"
  proof
    assume "m = n"
    obtain q1 where "push b q = (True, q1)" using push_room assms by (metis prod.collapse)
    then have "push_while push bs (n + 1) q1 = (m, q')" using r by simp
    then show False using push_while_spec [of bs "n + 1" q1 m q'] \<open>m = n\<close> by simp
  qed
  then obtain k where "m - n = Suc k" using spec(2) by (metis Suc_diff_Suc le_neq_implies_less)
  then show ?thesis using r spec(1) by simp
qed

end

interpretation bq: bounded_queue Push Full queue_ok queued
  by unfold_locales (simp_all add: Push_full Push_room Push_queued Push_ok)

lemma push_while_maxLen [frame, simp]: "maxLen (snd (push_while Push bs n q)) = maxLen q"
proof (induction bs arbitrary: n q)
  case (Cons b bs)
  then show ?case using Push_maxLen [of b q] by (cases "Push b q") (auto simp del: Push_maxLen)
qed simp

subsection \<open>What the queue promises\<close>

text \<open>A build and a small queue for the concrete instances.\<close>

definition job :: "string \<Rightarrow> int \<Rightarrow> build" where
  "job i p = zero_build\<lparr>ID := i, Priority := p\<rparr>"

definition two_jobs :: queue where
  "two_jobs = snd (Push (job ''b'' 7) (snd (Push (job ''a'' 2) (New 5))))"

lemma two_jobs_ok: "queue_ok two_jobs" "queued two_jobs = {#job ''a'' 2, job ''b'' 7#}"
proof -
  show "queue_ok two_jobs" unfolding two_jobs_def by (intro Push_ok) simp
  show "queued two_jobs = {#job ''a'' 2, job ''b'' 7#}"
    by (simp add: two_jobs_def Push_def New_def queued_def)
qed

text \<open>The abstract queue: a bag of builds with a bound, and its steps.\<close>

datatype qop = QPush build | QPop | QPeek "build \<Rightarrow> float64" | QRemove string

fun q_exec :: "qop \<Rightarrow> queue \<Rightarrow> queue" where
  "q_exec (QPush b) q = snd (Push b q)"
| "q_exec QPop q = snd (Pop q)"
| "q_exec (QPeek f) q = snd (PeekByScore f q)"
| "q_exec (QRemove i) q = snd (Remove i q)"

fun bag_step :: "int \<Rightarrow> qop \<Rightarrow> build multiset \<Rightarrow> build multiset \<Rightarrow> bool" where
  "bag_step n (QPush b) m m' \<longleftrightarrow> m' = (if 0 < n \<and> n \<le> int (size m) then m else add_mset b m)"
| "bag_step n QPop m m' \<longleftrightarrow> (m = {#} \<and> m' = m) \<or> (\<exists>b. b \<in># m \<and> m' = m - {#b#})"
| "bag_step n (QPeek f) m m' \<longleftrightarrow> (m = {#} \<and> m' = m) \<or> (\<exists>b. b \<in># m \<and> m' = m - {#b#})"
| "bag_step n (QRemove i) m m' \<longleftrightarrow>
     ((\<forall>b. b \<in># m \<longrightarrow> ID b \<noteq> i) \<and> m' = m) \<or> (\<exists>b. b \<in># m \<and> ID b = i \<and> m' = m - {#b#})"

lemma q_exec_ok: "queue_ok q \<Longrightarrow> queue_ok (q_exec op q)"
  by (cases op) (simp_all add: Push_ok Pop_ok PeekByScore_ok Remove_ok)

lemma Pop_maxLen [frame, simp]: "maxLen (snd (Pop q)) = maxLen q"
  by (cases "theap q = []") (simp_all add: Pop_slot Pop_empty)

lemma q_exec_maxLen [frame, simp]: "maxLen (q_exec op q) = maxLen q"
  by (cases op) simp_all

lemma taken_step:
  assumes "fst r = None \<longleftrightarrow> m = {#}" "fst r = None \<Longrightarrow> m' = m"
    and "\<And>b. fst r = Some b \<Longrightarrow> b \<in># m \<and> m' = m - {#b#}"
  shows "(m = {#} \<and> m' = m) \<or> (\<exists>b. b \<in># m \<and> m' = m - {#b#})"
  using assms by (cases "fst r") auto

lemma q_exec_bag:
  assumes "queue_ok q"
  shows "bag_step (maxLen q) op (queued q) (queued (q_exec op q))"
proof (cases op)
  case (QPush b)
  then show ?thesis using Push_full Push_queued by (auto simp: Full_def)
next
  case QPop
  have "(queued q = {#} \<and> queued (snd (Pop q)) = queued q) \<or>
      (\<exists>b. b \<in># queued q \<and> queued (snd (Pop q)) = queued q - {#b#})"
    by (rule taken_step [of "Pop q"])
      (use Pop_queued [of q] in \<open>cases "theap q = []"; force simp: Pop_slot Pop_empty queued_empty_iff\<close>)+
  then show ?thesis using QPop by simp
next
  case (QPeek f)
  have "(queued q = {#} \<and> queued (snd (PeekByScore f q)) = queued q) \<or>
      (\<exists>b. b \<in># queued q \<and> queued (snd (PeekByScore f q)) = queued q - {#b#})"
    by (rule taken_step [of "PeekByScore f q"])
      (use PeekByScore_queued [OF assms, of f] in
        \<open>auto simp: PeekByScore_None queued_empty_iff PeekByScore_empty prod_eq_iff\<close>)
  then show ?thesis using QPeek by simp
next
  case (QRemove i)
  obtain r q' where r: "Remove i q = (r, q')" by fastforce
  then show ?thesis using QRemove Remove_queued [OF assms r] Remove_None [of i q]
    by (cases r) auto
qed

lemma q_run_ok: "queue_ok (fold q_exec ops q) \<and> maxLen (fold q_exec ops q) = maxLen q" if "queue_ok q"
  using that by (induction ops arbitrary: q) (simp_all add: q_exec_ok)

text \<open>Taking builds out until the queue is empty, or \<open>n\<close> times.\<close>

fun drain :: "nat \<Rightarrow> queue \<Rightarrow> build list" where
  "drain 0 q = []"
| "drain (Suc n) q = (case Pop q of (None, _) \<Rightarrow> [] | (Some b, q') \<Rightarrow> b # drain n q')"

lemma Pop_highest:
  assumes "queue_ok q" "Pop q = (Some b, q')" "b' \<in># queued q"
    and "\<And>x. x \<in># queued q \<Longrightarrow> \<bar>Priority x\<bar> \<le> 2 ^ 53"
  shows "Priority b' \<le> Priority b"
proof -
  have ne: "theap q \<noteq> []" using assms(2) Pop_empty by fastforce
  obtain t where t: "t \<in> set (theap q)" "b' = Build t" using assms(3) by (auto simp: queued_def)
  have b: "b = Build (theap q ! 0)" using assms(2) Pop_slot [OF ne] by simp
  have "theap q ! 0 \<in> set (theap q)" using ne by simp
  then have "float_of_int (Priority b') \<le> float_of_int (Priority b)"
    using assms(1) t b top_is_highest [OF assms(1) t(1)] by (auto simp: queue_ok_def)
  moreover have "b \<in># queued q" using Pop_queued [OF assms(2)] by blast
  ultimately show ?thesis using assms(3,4) by (simp add: float_of_int_exact)
qed

lemma drain_spec:
  assumes "queue_ok q" "\<And>x. x \<in># queued q \<Longrightarrow> \<bar>Priority x\<bar> \<le> 2 ^ 53" "n = size (queued q)"
  shows "mset (drain n q) = queued q \<and> sorted_wrt (\<lambda>a b. Priority b \<le> Priority a) (drain n q)"
  using assms
proof (induction n arbitrary: q)
  case (Suc n)
  have ne: "theap q \<noteq> []" using Suc.prems(3) by auto
  then obtain b q' where pop: "Pop q = (Some b, q')" using Pop_slot by blast
  have q': "b \<in># queued q" "queued q' = queued q - {#b#}" "queue_ok q'"
    using Pop_queued [OF pop] Pop_ok [OF Suc.prems(1)] pop by auto
  have "n = size (queued q')" using q' Suc.prems(3) by (simp add: size_Diff_singleton del: size_queued)
  then have IH: "mset (drain n q') = queued q'" "sorted_wrt (\<lambda>a b. Priority b \<le> Priority a) (drain n q')"
    using Suc.IH [OF q'(3)] Suc.prems(2) q'(2) in_diffD by metis+
  have "\<And>x. x \<in># queued q' \<Longrightarrow> Priority x \<le> Priority b"
    using Pop_highest [OF Suc.prems(1) pop] Suc.prems(2) q'(2) in_diffD by metis
  then have "\<forall>x \<in> set (drain n q'). Priority x \<le> Priority b" using IH(1) by (metis set_mset_mset)
  then show ?case using pop IH q'(1,2) by simp
qed (simp add: queued_def)

text \<open>(C7) Every run of queue operations from an empty queue keeps the heap order, the bound
  and the scores, and each operation acts as one step of a bounded bag of builds: a push
  adds its build unless the queue is full, a pop or a scored peek takes one build out, and a
  removal takes out a build with the given ID exactly when there is one.\<close>

theorem queue_refines_bounded_bag:
  "queue_ok (fold q_exec ops (New n)) \<and>
   (if 0 < n then int (Len (fold q_exec ops (New n))) \<le> n else \<not> Full (fold q_exec ops (New n))) \<and>
   bag_step n op (queued (fold q_exec ops (New n))) (queued (q_exec op (fold q_exec ops (New n))))"
proof -
  let ?q = "fold q_exec ops (New n)"
  have "queue_ok ?q" "maxLen ?q = n" using q_run_ok [OF queue_ok_New, of ops n] by (simp_all add: New_def)
  then show ?thesis using q_exec_bag [of ?q op] by (auto simp: queue_ok_def Len_def Full_def)
qed

text \<open>Popping until the queue is empty returns every queued build exactly once, highest
  priority first. Priorities are compared as \<open>float64\<close>, which is exact up to \<open>2\<^sup>5\<^sup>3\<close>.\<close>

theorem drain_by_priority:
  assumes "queue_ok q" and "\<And>b. b \<in># queued q \<Longrightarrow> \<bar>Priority b\<bar> \<le> 2 ^ 53"
  shows "mset (drain (Len q) q) = queued q \<and>
         sorted_wrt (\<lambda>a b. Priority b \<le> Priority a) (drain (Len q) q)"
  using drain_spec [OF assms] by (simp add: Len_queued)

theorem drain_by_priority_witness:
  "mset (drain (Len two_jobs) two_jobs) = {#job ''a'' 2, job ''b'' 7#} \<and>
   sorted_wrt (\<lambda>a b. Priority b \<le> Priority a) (drain (Len two_jobs) two_jobs)"
proof -
  have "\<bar>Priority b\<bar> \<le> 2 ^ 53" if "b \<in># queued two_jobs" for b
    using that by (auto simp: two_jobs_ok(2) job_def)
  then show ?thesis using drain_by_priority [OF two_jobs_ok(1)] two_jobs_ok(2) by simp
qed

text \<open>(C28) \<open>PeekByScore\<close> removes and returns a build whose combined score (half its
  priority plus ten times the cache affinity) is positive and highest in the queue; when no
  build scores above zero it falls back to the top of the heap, a build of highest score.\<close>

theorem PeekByScore_best:
  assumes "queue_ok q" and "PeekByScore f q = (Some b, q')"
  shows "queue_ok q' \<and> queued q = add_mset b (queued q') \<and>
    (\<exists>t \<in> set (theap q). Build t = b \<and>
      ((0 < combined f t \<and> (\<forall>u \<in> set (theap q). combined f u \<le> combined f t)) \<or>
       ((\<forall>u \<in> set (theap q). combined f u \<le> 0 \<and> Score u \<le> Score t))))"
proof -
  have ne: "theap q \<noteq> []" using assms(2) PeekByScore_empty by fastforce
  let ?i = "best_slot f q" and ?t = "theap q ! best_slot f q"
  have t: "?t \<in> set (theap q)" "Build ?t = b" using PeekByScore_slot [OF ne, of f] assms(2) by auto
  have "(0 < combined f ?t \<and> (\<forall>u \<in> set (theap q). combined f u \<le> combined f ?t)) \<or>
      (\<forall>u \<in> set (theap q). combined f u \<le> 0) \<and> ?i = 0"
    using peek_loop_best [of "theap q" f 0 0 0] by (auto simp: best_slot_def)
  then have "(0 < combined f ?t \<and> (\<forall>u \<in> set (theap q). combined f u \<le> combined f ?t)) \<or>
      (\<forall>u \<in> set (theap q). combined f u \<le> 0 \<and> Score u \<le> Score ?t)"
    using top_is_highest [OF assms(1)] by auto
  then show ?thesis using t PeekByScore_queued [OF assms] PeekByScore_ok [OF assms(1), of f] assms(2)
    by auto
qed

theorem PeekByScore_best_witness:
  "\<exists>b q'. PeekByScore (\<lambda>_. 0) two_jobs = (Some b, q') \<and> queued two_jobs = add_mset b (queued q')"
proof -
  have "theap two_jobs \<noteq> []" using two_jobs_ok(2) by (metis empty_not_add_mset queued_empty_iff)
  then obtain b q' where r: "PeekByScore (\<lambda>_. 0) two_jobs = (Some b, q')" using PeekByScore_slot by blast
  then show ?thesis using PeekByScore_best [OF two_jobs_ok(1) r] by blast
qed

text \<open>Removing by ID takes out one build with that ID if the queue holds any and leaves
  every other build in place; a build whose ID is queued once is gone afterwards.\<close>

theorem Remove_by_id:
  assumes "queue_ok q" and "Remove bid q = (r, q')"
  shows "queue_ok q' \<and>
    (case r of None \<Rightarrow> q' = q \<and> bid \<notin># image_mset ID (queued q)
     | Some b \<Rightarrow> ID b = bid \<and> queued q = add_mset b (queued q')) \<and>
    count (image_mset ID (queued q')) bid = count (image_mset ID (queued q)) bid - 1 \<and>
    filter_mset (\<lambda>b. ID b \<noteq> bid) (queued q') = filter_mset (\<lambda>b. ID b \<noteq> bid) (queued q)"
proof (cases r)
  case None
  then have "q' = q" "bid \<notin># image_mset ID (queued q)"
    using Remove_queued [OF assms] Remove_None [of bid q] assms(2) by auto
  then show ?thesis using None assms(1) Remove_count [OF assms] by simp
next
  case (Some b)
  then have b: "ID b = bid" "queued q = add_mset b (queued q')"
    using Remove_queued [OF assms] by auto
  then show ?thesis using Some Remove_ok [OF assms(1), of bid] assms(2) by simp
qed

theorem Remove_by_id_witness:
  "count (image_mset ID (queued (snd (Remove ''a'' two_jobs)))) ''a'' = 0"
  using Remove_by_id [OF two_jobs_ok(1), of "''a''" "fst (Remove ''a'' two_jobs)" "snd (Remove ''a'' two_jobs)"]
  by (simp add: two_jobs_ok(2) job_def)

text \<open>Among builds of equal priority the queue is not first in, first out: removing the
  top moves the newest task to the front, so three builds submitted as \<open>a\<close>, \<open>b\<close>,
  \<open>c\<close> come out as \<open>a\<close>, \<open>c\<close>, \<open>b\<close>.\<close>

theorem equal_priority_not_fifo:
  assumes "Priority a = p" "Priority b = p" "Priority c = p" and "n \<le> 0 \<or> 3 \<le> n"
  shows "drain 3 (fold q_exec [QPush a, QPush b, QPush c] (New n)) = [a, c, b]"
proof -
  define tk where "tk = (\<lambda>b. \<lparr>Build = b, Score = float_of_int p\<rparr>)"
  have tie: "\<And>x y. \<not> taskLess (tk x) (tk y)" by (simp add: taskLess_def tk_def)
  have "fold q_exec [QPush a, QPush b, QPush c] (New n) = \<lparr>theap = [tk a, tk b, tk c], maxLen = n\<rparr>"
    using assms tie by (auto simp: New_def Push_def heap_push_def heap_up.simps parent_def tk_def)
  moreover have "heap_pop taskLess [tk a, tk b, tk c] = (tk a, [tk c, tk b])"
    "heap_pop taskLess [tk c, tk b] = (tk c, [tk b])" "heap_pop taskLess [tk b] = (tk b, [])"
    using tie by (auto simp: heap_pop_def heap_down.simps smaller_child_def swap_def Let_def)
  ultimately show ?thesis by (simp add: numeral_3_eq_3 Pop_def tk_def)
qed

theorem equal_priority_not_fifo_witness:
  "map ID (drain 3 (fold q_exec [QPush (job ''a'' 0), QPush (job ''b'' 0), QPush (job ''c'' 0)] (New 10000)))
     = [''a'', ''c'', ''b'']"
  using equal_priority_not_fifo [of "job ''a'' 0" 0 "job ''b'' 0" "job ''c'' 0" 10000]
  by (simp add: job_def)

end
