(* ===== verification/Go_Hash.thy ===== *)
theory Go_Hash
  imports Go_Strings "HOL-Library.Word"
begin

text \<open>
  The hash functions of the standard library that the program calls: 64-bit FNV-1a
  (\<open>hash/fnv\<close>, the points of the scheduler's ring) on \<open>64 word\<close> with its wrapping
  multiplication, and SHA-256 (\<open>crypto/sha256\<close>, the fingerprints) on \<open>32 word\<close>.
\<close>

unbundle bit_operations_syntax

subsection \<open>FNV-1a\<close>

fun fnv1a :: "64 word \<Rightarrow> string \<Rightarrow> 64 word" where
  "fnv1a h [] = h"
| "fnv1a h (c # s) = fnv1a ((h XOR of_nat (of_char c)) * 1099511628211) s"

definition fnv64a :: "string \<Rightarrow> 64 word" where
  "fnv64a s = fnv1a 14695981039346656037 s"

subsection \<open>SHA-256\<close>

type_synonym w32 = "32 word"
type_synonym sha_state = "w32 list"

definition sha_K :: "w32 list" where
  "sha_K = [
    1116352408, 1899447441, 3049323471, 3921009573, 961987163, 1508970993, 2453635748,
    2870763221, 3624381080, 310598401, 607225278, 1426881987, 1925078388, 2162078206,
    2614888103, 3248222580, 3835390401, 4022224774, 264347078, 604807628, 770255983,
    1249150122, 1555081692, 1996064986, 2554220882, 2821834349, 2952996808, 3210313671,
    3336571891, 3584528711, 113926993, 338241895, 666307205, 773529912, 1294757372,
    1396182291, 1695183700, 1986661051, 2177026350, 2456956037, 2730485921, 2820302411,
    3259730800, 3345764771, 3516065817, 3600352804, 4094571909, 275423344, 430227734,
    506948616, 659060556, 883997877, 958139571, 1322822218, 1537002063, 1747873779,
    1955562222, 2024104815, 2227730452, 2361852424, 2428436474, 2756734187, 3204031479,
    3329325298]"

definition sha_H0 :: sha_state where
  "sha_H0 = [
    1779033703, 3144134277, 1013904242, 2773480762, 1359893119, 2600822924, 528734635,
    1541459225]"

text \<open>Big-endian conversions.\<close>

definition be_word :: "nat list \<Rightarrow> w32" where
  "be_word bs = of_nat (foldl (\<lambda>a b. a * 256 + b) 0 bs)"

definition be_bytes :: "nat \<Rightarrow> nat \<Rightarrow> nat list" where
  "be_bytes n x = map (\<lambda>i. x div 256 ^ (n - 1 - i) mod 256) [0..<n]"

text \<open>Padding: a one bit, zeros to 56 modulo 64, the length in bits in 8 bytes.\<close>

definition sha_pad :: "nat list \<Rightarrow> nat list" where
  "sha_pad m = m @ [128] @ replicate ((119 - length m mod 64) mod 64) 0 @
     be_bytes 8 (8 * length m mod 2 ^ 64)"

fun chunks :: "nat \<Rightarrow> 'a list \<Rightarrow> 'a list list" where
  "chunks n xs = (if n = 0 \<or> xs = [] then [] else take n xs # chunks n (drop n xs))"

declare chunks.simps [simp del]

definition sigma0 :: "w32 \<Rightarrow> w32" where
  "sigma0 x = word_rotr 7 x XOR word_rotr 18 x XOR drop_bit 3 x"

definition sigma1 :: "w32 \<Rightarrow> w32" where
  "sigma1 x = word_rotr 17 x XOR word_rotr 19 x XOR drop_bit 10 x"

definition Sigma0 :: "w32 \<Rightarrow> w32" where
  "Sigma0 x = word_rotr 2 x XOR word_rotr 13 x XOR word_rotr 22 x"

definition Sigma1 :: "w32 \<Rightarrow> w32" where
  "Sigma1 x = word_rotr 6 x XOR word_rotr 11 x XOR word_rotr 25 x"

text \<open>The message schedule: \<open>n\<close> further words after the words so far.\<close>

fun sha_extend :: "nat \<Rightarrow> w32 list \<Rightarrow> w32 list" where
  "sha_extend 0 w = w"
| "sha_extend (Suc n) w =
     (let i = length w
      in sha_extend n (w @ [sigma1 (w ! (i - 2)) + w ! (i - 7) + sigma0 (w ! (i - 15)) + w ! (i - 16)]))"

fun sha_round :: "w32 \<times> w32 \<Rightarrow> sha_state \<Rightarrow> sha_state" where
  "sha_round (k, w) [a, b, c, d, e, f, g, h] =
     (let t1 = h + Sigma1 e + ((e AND f) XOR ((NOT e) AND g)) + k + w;
          t2 = Sigma0 a + ((a AND b) XOR (a AND c) XOR (b AND c))
      in [t1 + t2, a, b, c, d + t1, e, f, g])"
| "sha_round _ s = s"

definition sha_block :: "nat list \<Rightarrow> sha_state \<Rightarrow> sha_state" where
  "sha_block blk s =
     (let w = sha_extend 48 (map be_word (chunks 4 blk))
      in map2 (+) s (fold sha_round (zip sha_K w) s))"

definition sha256_bytes :: "nat list \<Rightarrow> nat list" where
  "sha256_bytes m = concat (map (\<lambda>x. be_bytes 4 (unat x)) (fold sha_block (chunks 64 (sha_pad m)) sha_H0))"

definition sha256 :: "string \<Rightarrow> nat list" where
  "sha256 s = sha256_bytes (map of_char s)"

subsection \<open>The digest has 32 bytes\<close>

lemma be_bytes_length [simp]: "length (be_bytes n x) = n"
  by (simp add: be_bytes_def)

lemma sha_round_length [simp]: "length (sha_round kw s) = length s"
  by (induction kw s rule: sha_round.induct) (auto simp: Let_def)

lemma sha_rounds_length [simp]: "length (fold sha_round kws s) = length s"
  by (induction kws arbitrary: s) auto

lemma sha_block_length [simp]: "length (sha_block blk s) = length s"
  by (simp add: sha_block_def Let_def)

lemma sha_blocks_length [simp]: "length (fold sha_block bs s) = length s"
  by (induction bs arbitrary: s) auto

lemma length_concat_const: "(\<And>x. x \<in> set xs \<Longrightarrow> length (f x) = n) \<Longrightarrow> length (concat (map f xs)) = n * length xs"
  by (induction xs) auto

lemma sha256_length [simp]: "length (sha256 s) = 32"
proof -
  have "length (sha256 s) = 4 * length sha_H0"
    unfolding sha256_def sha256_bytes_def by (subst length_concat_const [where n = 4]) auto
  then show ?thesis by (simp add: sha_H0_def)
qed

end
