(* ===== verification/Go_Sort.thy ===== *)
theory Go_Sort
  imports Prelude
begin

text \<open>
  The standard library's \<open>sort\<close> package as the program uses it: the binary search
  \<open>sort.Search\<close> as it is written there, and the documented contract of \<open>sort.Sort\<close>
  (and of an SQL \<open>ORDER BY\<close>): the result is a permutation of its input in key order, and
  the order of equal keys is not specified. That contract is the locale \<open>sorter\<close>; the
  model takes the sorting function as a parameter, and the stable library sort
  \<open>sort_key\<close> is one function that satisfies the contract.
\<close>

subsection \<open>\<open>sort.Search\<close>\<close>

function search_loop :: "(nat \<Rightarrow> bool) \<Rightarrow> nat \<Rightarrow> nat \<Rightarrow> nat" where
  "search_loop f i j =
     (if i < j
      then let h = (i + j) div 2
           in if \<not> f h then search_loop f (h + 1) j else search_loop f i h
      else i)"
  by pat_completeness auto
termination
  by (relation "measure (\<lambda>(f, i, j). j - i)") auto

declare search_loop.simps [simp del]

definition Search :: "nat \<Rightarrow> (nat \<Rightarrow> bool) \<Rightarrow> nat" where
  "Search n f = search_loop f 0 n"

text \<open>
  On a predicate that is false and then true, the search returns the first index where it
  is true, or the upper bound.
\<close>

definition splits_at :: "(nat \<Rightarrow> bool) \<Rightarrow> nat \<Rightarrow> nat \<Rightarrow> nat \<Rightarrow> bool" where
  "splits_at f i j r \<longleftrightarrow>
     i \<le> r \<and> r \<le> j \<and> (\<forall>k. i \<le> k \<and> k < r \<longrightarrow> \<not> f k) \<and> (\<forall>k. r \<le> k \<and> k < j \<longrightarrow> f k)"

lemma splits_at_left:
  assumes "splits_at f (h + 1) j r" "\<And>k. i \<le> k \<Longrightarrow> k \<le> h \<Longrightarrow> \<not> f k" "i \<le> h"
  shows "splits_at f i j r"
  unfolding splits_at_def
proof (intro conjI allI impI)
  fix k assume "i \<le> k \<and> k < r"
  then show "\<not> f k" using assms by (cases "k \<le> h") (auto simp: splits_at_def)
qed (use assms in \<open>auto simp: splits_at_def\<close>)

lemma splits_at_right:
  assumes "splits_at f i h r" "\<And>k. h \<le> k \<Longrightarrow> k < j \<Longrightarrow> f k" "h \<le> j"
  shows "splits_at f i j r"
  unfolding splits_at_def
proof (intro conjI allI impI)
  fix k assume "r \<le> k \<and> k < j"
  then show "f k" using assms by (cases "h \<le> k") (auto simp: splits_at_def)
qed (use assms in \<open>auto simp: splits_at_def\<close>)

lemma search_loop_split:
  assumes "i \<le> j" "\<And>a b. i \<le> a \<Longrightarrow> a \<le> b \<Longrightarrow> b < j \<Longrightarrow> f a \<Longrightarrow> f b"
  shows "splits_at f i j (search_loop f i j)"
  using assms
proof (induction f i j rule: search_loop.induct)
  case (1 f i j)
  define h where "h = (i + j) div 2"
  show ?case
  proof (cases "i < j")
    case False
    then have "search_loop f i j = i" by (simp add: search_loop.simps [of f i j])
    then show ?thesis using False "1.prems"(1) by (auto simp: splits_at_def)
  next
    case True
    then have h: "i \<le> h" "h < j" by (auto simp: h_def)
    show ?thesis
    proof (cases "f h")
      case False
      have "splits_at f (h + 1) j (search_loop f (h + 1) j)"
        by (rule "1.IH"(1) [OF True h_def False]) (use h in simp, rule "1.prems"(2), use h in auto)
      moreover have "\<not> f k" if "i \<le> k" "k \<le> h" for k using "1.prems"(2) [of k h] that h False by auto
      ultimately have "splits_at f i j (search_loop f (h + 1) j)" using h splits_at_left by blast
      then show ?thesis using True False by (subst search_loop.simps) (simp add: h_def Let_def)
    next
      case f: True
      have "splits_at f i h (search_loop f i h)"
        by (rule "1.IH"(2) [OF True h_def]) (use f h in simp, use f h in simp, rule "1.prems"(2), use h in auto)
      moreover have "f k" if "h \<le> k" "k < j" for k using "1.prems"(2) [of h k] that h f by auto
      ultimately have "splits_at f i j (search_loop f i h)" using h splits_at_right [of f i h _ j] by simp
      then show ?thesis using True f by (subst search_loop.simps) (simp add: h_def Let_def)
    qed
  qed
qed

lemma Search_split:
  assumes "\<And>a b. a \<le> b \<Longrightarrow> b < n \<Longrightarrow> f a \<Longrightarrow> f b"
  shows "splits_at f 0 n (Search n f)"
  unfolding Search_def by (rule search_loop_split) (use assms in auto)

text \<open>On a sorted slice the search splits it by a threshold on the keys.\<close>

lemma Search_sorted:
  fixes t :: "'k::linorder"
  assumes "sorted (map key xs)"
  defines "i \<equiv> Search (length xs) (\<lambda>i. t \<le> key (xs ! i))"
  shows "i \<le> length xs" "drop i xs = filter (\<lambda>x. t \<le> key x) xs" "take i xs = filter (\<lambda>x. \<not> t \<le> key x) xs"
proof -
  have mono: "t \<le> key (xs ! b)" if "a \<le> b" "b < length xs" "t \<le> key (xs ! a)" for a b
    using assms(1) that sorted_nth_mono [of "map key xs" a b] by simp
  have i: "i \<le> length xs" "\<And>k. k < i \<Longrightarrow> \<not> t \<le> key (xs ! k)"
      "\<And>k. i \<le> k \<Longrightarrow> k < length xs \<Longrightarrow> t \<le> key (xs ! k)"
    using Search_split [of "length xs" "\<lambda>i. t \<le> key (xs ! i)"] mono
    unfolding i_def splits_at_def by blast+
  have d: "\<forall>x \<in> set (drop i xs). t \<le> key x"
    using i(3) by (auto simp: set_conv_nth)
  have e: "\<forall>x \<in> set (take i xs). \<not> t \<le> key x"
    using i(1,2) by (auto simp: set_conv_nth)
  have "filter P xs = filter P (take i xs) @ filter P (drop i xs)" for P
    by (metis append_take_drop_id filter_append)
  then show "drop i xs = filter (\<lambda>x. t \<le> key x) xs" "take i xs = filter (\<lambda>x. \<not> t \<le> key x) xs"
    using d e by (auto simp: filter_id_conv filter_empty_conv)
  show "i \<le> length xs" by (rule i)
qed

subsection \<open>The contract of a sort\<close>

locale sorter =
  fixes key :: "'a \<Rightarrow> 'k::linorder"
    and sortf :: "'a list \<Rightarrow> 'a list"
  assumes sort_mset: "mset (sortf xs) = mset xs"
    and sort_sorted: "sorted (map key (sortf xs))"
begin

lemma sort_set [simp]: "set (sortf xs) = set xs"
  using sort_mset by (metis set_mset_mset)

lemma sort_length [simp]: "length (sortf xs) = length xs"
  using sort_mset by (metis size_mset)

lemma sort_distinct [simp]: "distinct (sortf xs) = distinct xs"
  using sort_mset by (metis mset_eq_imp_distinct_iff)

text \<open>Where no two different elements share a key the sort has no choice.\<close>

lemma sort_unique:
  assumes "mset ys = mset xs" "sorted (map key xs)" "inj_on key (set xs)"
  shows "sortf ys = xs"
proof -
  have m: "mset (sortf ys) = mset xs" using assms(1) by (simp add: sort_mset)
  have "map key (sortf ys) = map key xs"
    using m assms(2) sort_sorted by (metis mset_map properties_for_sort)
  moreover have "set (sortf ys) = set xs" using m by (metis set_mset_mset)
  ultimately show ?thesis using map_inj_on [of key "sortf ys" xs] assms(3) by simp
qed

lemma sort_Nil [simp]: "sortf [] = []"
  by (metis length_0_conv sort_length)

lemma sort_nth_mono: "i \<le> j \<Longrightarrow> j < length xs \<Longrightarrow> key (sortf xs ! i) \<le> key (sortf xs ! j)"
  using sort_sorted [of xs] sorted_nth_mono [of "map key (sortf xs)" i j] by simp

end

interpretation stable: sorter key "sort_key key" for key :: "'a \<Rightarrow> 'k::linorder"
  by unfold_locales (simp_all add: sorted_sort_key)

end
