(* ===== verification/Scheduler.thy ===== *)
theory Scheduler
  imports Go_Float Go_Hash Go_Sort
begin

text \<open>
  \<open>internal/scheduler\<close>: registered workers, the consistent-hash ring of their virtual
  nodes, the clockwise walk that assigns a build, and the cache-affinity score. The ring is
  a slice sorted by 64-bit hash; \<open>sort.Sort\<close> is the parameter \<open>sortf\<close> with the contract
  \<open>sorter rhash sortf\<close>. Each operation runs under the scheduler's mutex and is one
  function here.
\<close>

subsection \<open>State\<close>

definition virtualReplicas :: nat where
  "virtualReplicas = 150"

record worker_state =
  wsID :: string
  wsStatus :: string
  wsCacheKeys :: "string list"
  wsLoad :: int

record ring_node =
  rhash :: "64 word"
  rworker :: string

record scheduler =
  ring :: "ring_node list"
  sworkers :: "string \<rightharpoonup> worker_state"

type_synonym ring_sort = "ring_node list \<Rightarrow> ring_node list"

definition New_scheduler :: scheduler where
  "New_scheduler = \<lparr>ring = [], sworkers = Map.empty\<rparr>"

subsection \<open>Operations\<close>

definition hashKey :: "string \<Rightarrow> 64 word" where
  "hashKey s = fnv64a s"

definition hashToRing :: "64 word \<Rightarrow> 64 word" where
  "hashToRing h = h"

text \<open>The loop that writes the virtual nodes: \<open>workerID:i:key1:key2...\<close>.\<close>

definition node_key :: "string \<Rightarrow> nat \<Rightarrow> string list \<Rightarrow> string" where
  "node_key w i cacheKeys = w @ '':'' @ Itoa i @ concat (map (\<lambda>ck. '':'' @ ck) cacheKeys)"

definition virtual_nodes :: "string \<Rightarrow> string list \<Rightarrow> ring_node list" where
  "virtual_nodes w cacheKeys =
     map (\<lambda>i. \<lparr>rhash = hashToRing (hashKey (node_key w i cacheKeys)), rworker = w\<rparr>)
       [0..<virtualReplicas]"

definition removeWorkerLocked :: "string \<Rightarrow> scheduler \<Rightarrow> scheduler" where
  "removeWorkerLocked w s = s\<lparr>ring := filter (\<lambda>n. rworker n \<noteq> w) (ring s)\<rparr>"

definition RegisterWorker ::
    "ring_sort \<Rightarrow> string \<Rightarrow> string \<Rightarrow> string list \<Rightarrow> scheduler \<Rightarrow> scheduler" where
  "RegisterWorker sortf w status cacheKeys s =
     (let s1 = removeWorkerLocked w s;
          ws = \<lparr>wsID = w, wsStatus = status, wsCacheKeys = cacheKeys, wsLoad = 0\<rparr>;
          s2 = s1\<lparr>sworkers := (sworkers s1)(w \<mapsto> ws)\<rparr>
      in if status = ''offline'' then s2
         else s2\<lparr>ring := sortf (ring s2 @ virtual_nodes w cacheKeys)\<rparr>)"

definition RemoveWorker :: "string \<Rightarrow> scheduler \<Rightarrow> scheduler" where
  "RemoveWorker w s =
     (let s1 = removeWorkerLocked w s in s1\<lparr>sworkers := (sworkers s1)(w := None)\<rparr>)"

definition MarkWorkerIdle :: "ring_sort \<Rightarrow> string \<Rightarrow> string list \<Rightarrow> scheduler \<Rightarrow> scheduler" where
  "MarkWorkerIdle sortf w cacheKeys s =
     (let s1 = removeWorkerLocked w s;
          ws = \<lparr>wsID = w, wsStatus = ''idle'', wsCacheKeys = cacheKeys, wsLoad = 0\<rparr>;
          s2 = s1\<lparr>sworkers := (sworkers s1)(w \<mapsto> ws)\<rparr>
      in s2\<lparr>ring := sortf (ring s2 @ virtual_nodes w cacheKeys)\<rparr>)"

definition MarkWorkerBusy :: "string \<Rightarrow> scheduler \<Rightarrow> scheduler" where
  "MarkWorkerBusy w s = (case sworkers s w of
       Some ws \<Rightarrow> s\<lparr>sworkers := (sworkers s)(w \<mapsto> ws\<lparr>wsStatus := ''busy''\<rparr>)\<rparr>
     | None \<Rightarrow> s)"

fun PruneStaleWorkers :: "string list \<Rightarrow> scheduler \<Rightarrow> scheduler" where
  "PruneStaleWorkers [] s = s"
| "PruneStaleWorkers (i # ids) s =
     PruneStaleWorkers ids
       (let s1 = removeWorkerLocked i s in s1\<lparr>sworkers := (sworkers s1)(i := None)\<rparr>)"

text \<open>The walk of \<open>AssignBuild\<close> over the loop counters that remain.\<close>

fun assign_walk :: "scheduler \<Rightarrow> nat \<Rightarrow> nat list \<Rightarrow> string option \<times> scheduler" where
  "assign_walk s idx [] = (None, s)"
| "assign_walk s idx (i # is) =
     (let node = ring s ! ((idx + i) mod length (ring s))
      in case sworkers s (rworker node) of
           Some ws \<Rightarrow>
             if wsStatus ws = ''idle''
             then (Some (rworker node),
                   s\<lparr>sworkers := (sworkers s)(rworker node \<mapsto>
                       ws\<lparr>wsStatus := ''busy'', wsLoad := wsLoad ws + 1\<rparr>)\<rparr>)
             else assign_walk s idx is
         | None \<Rightarrow> assign_walk s idx is)"

definition AssignBuild :: "string \<Rightarrow> scheduler \<Rightarrow> string option \<times> scheduler" where
  "AssignBuild fingerprint s =
     (if length (ring s) = 0 then (None, s)
      else let targetHash = hashToRing (hashKey fingerprint);
               idx = Search (length (ring s)) (\<lambda>i. targetHash \<le> rhash (ring s ! i))
           in assign_walk s idx [0..<length (ring s)])"

text \<open>The two counting loops of \<open>ScoreBuildForWorker\<close>.\<close>

fun score_cache :: "string set \<Rightarrow> string list \<Rightarrow> string set \<times> int \<times> int \<Rightarrow> string set \<times> int \<times> int" where
  "score_cache buildSet [] acc = acc"
| "score_cache buildSet (ck # cks) (cacheSet, common, uni) =
     score_cache buildSet cks
       (insert ck cacheSet, if ck \<in> buildSet then common + 1 else common, uni + 1)"

fun score_instr :: "string set \<Rightarrow> string list \<Rightarrow> int \<Rightarrow> int" where
  "score_instr cacheSet [] uni = uni"
| "score_instr cacheSet (x # xs) uni = score_instr cacheSet xs (if x \<notin> cacheSet then uni + 1 else uni)"

definition ScoreBuildForWorker :: "string list \<Rightarrow> string \<Rightarrow> scheduler \<Rightarrow> float64" where
  "ScoreBuildForWorker buildInstructions w s = (case sworkers s w of
       None \<Rightarrow> 0
     | Some ws \<Rightarrow>
        if length (wsCacheKeys ws) = 0 \<or> length buildInstructions = 0 then 0
        else let (cacheSet, common, uni) = score_cache (set buildInstructions) (wsCacheKeys ws) ({}, 0, 0);
                 uni' = score_instr cacheSet buildInstructions uni
             in if uni' = 0 then 0 else fdiv (float_of_int common) (float_of_int uni'))"

definition GetWorker :: "string \<Rightarrow> scheduler \<Rightarrow> worker_state option" where
  "GetWorker w s = sworkers s w"

fun shared_prefix :: "string \<Rightarrow> string \<Rightarrow> nat" where
  "shared_prefix (a # as) (b # bs) = (if a \<noteq> b then 0 else Suc (shared_prefix as bs))"
| "shared_prefix _ _ = 0"

definition sharedPrefixLen :: "string \<Rightarrow> string \<Rightarrow> float64" where
  "sharedPrefixLen a b = float_of_int (int (shared_prefix a b))"

fun best_prefix :: "string \<Rightarrow> string list \<Rightarrow> float64 \<Rightarrow> float64" where
  "best_prefix fpHash [] best = best"
| "best_prefix fpHash (ck # cks) best =
     (let score = sharedPrefixLen ck fpHash
      in best_prefix fpHash cks (if best < score then score else best))"

definition cacheScore :: "string list \<Rightarrow> string \<Rightarrow> float64" where
  "cacheScore workerCacheKeys fingerprint =
     (if length workerCacheKeys = 0 then 0
      else min (fdiv (best_prefix (hex (sha256 fingerprint)) workerCacheKeys 0) 64) 1)"

subsection \<open>The clockwise order, abstractly\<close>

text \<open>
  The nodes at or after the target in hash order, then the ones before it; the build goes to
  the first whose worker is idle.
\<close>

definition idle :: "scheduler \<Rightarrow> string \<Rightarrow> bool" where
  "idle s w \<longleftrightarrow> (\<exists>ws. sworkers s w = Some ws \<and> wsStatus ws = ''idle'')"

definition clockwise :: "64 word \<Rightarrow> ring_node list \<Rightarrow> ring_node list" where
  "clockwise t ns = filter (\<lambda>n. t \<le> rhash n) ns @ filter (\<lambda>n. \<not> t \<le> rhash n) ns"

definition route :: "string \<Rightarrow> scheduler \<Rightarrow> string option" where
  "route fp s =
     map_option rworker (find (\<lambda>n. idle s (rworker n)) (clockwise (hashToRing (hashKey fp)) (ring s)))"

definition take_worker :: "string \<Rightarrow> scheduler \<Rightarrow> scheduler" where
  "take_worker w s = s\<lparr>sworkers := (sworkers s)(w := map_option
     (\<lambda>ws. ws\<lparr>wsStatus := ''busy'', wsLoad := wsLoad ws + 1\<rparr>) (sworkers s w))\<rparr>"

lemma assign_walk_find:
  "assign_walk s idx is =
     (case find (\<lambda>n. idle s (rworker n)) (map (\<lambda>i. ring s ! ((idx + i) mod length (ring s))) is) of
        None \<Rightarrow> (None, s) | Some n \<Rightarrow> (Some (rworker n), take_worker (rworker n) s))"
proof (induction "is")
  case (Cons i "is")
  then show ?case by (auto simp: idle_def take_worker_def Let_def split: option.splits)
qed simp

lemma walk_order:
  assumes "idx \<le> length xs"
  shows "map (\<lambda>i. xs ! ((idx + i) mod length xs)) [0..<length xs] = drop idx xs @ take idx xs"
proof (cases "idx = length xs")
  case True
  then show ?thesis by (auto intro: nth_equalityI)
next
  case False
  then have "rotate idx xs = drop idx xs @ take idx xs" using assms by (simp add: rotate_drop_take)
  moreover have "map (\<lambda>i. xs ! ((idx + i) mod length xs)) [0..<length xs] = rotate idx xs"
    by (rule nth_equalityI) (auto simp: nth_rotate add.commute)
  ultimately show ?thesis by simp
qed

lemma AssignBuild_route:
  assumes "sorted (map rhash (ring s))"
  shows "AssignBuild fp s =
    (case route fp s of None \<Rightarrow> (None, s) | Some w \<Rightarrow> (Some w, take_worker w s))"
proof (cases "ring s = []")
  case True
  then show ?thesis by (simp add: AssignBuild_def route_def clockwise_def)
next
  case False
  let ?t = "hashToRing (hashKey fp)"
  let ?i = "Search (length (ring s)) (\<lambda>i. ?t \<le> rhash (ring s ! i))"
  have "drop ?i (ring s) @ take ?i (ring s) = clockwise ?t (ring s)" "?i \<le> length (ring s)"
    using Search_sorted [OF assms, of ?t] by (auto simp: clockwise_def)
  then show ?thesis using False
    by (simp add: AssignBuild_def Let_def assign_walk_find walk_order route_def split: option.split)
qed

subsection \<open>Invariant\<close>

definition nodes_of :: "string \<Rightarrow> scheduler \<Rightarrow> ring_node list" where
  "nodes_of w s = filter (\<lambda>n. rworker n = w) (ring s)"

text \<open>
  The ring is sorted; a worker has either all its virtual nodes or none: an unregistered or
  offline worker has none, an idle worker has all.
\<close>

definition worker_nodes_ok :: "scheduler \<Rightarrow> string \<Rightarrow> bool" where
  "worker_nodes_ok s w = (case sworkers s w of
       None \<Rightarrow> nodes_of w s = []
     | Some ws \<Rightarrow> wsID ws = w \<and>
        (if nodes_of w s = [] then wsStatus ws \<noteq> ''idle''
         else wsStatus ws \<noteq> ''offline'' \<and> mset (nodes_of w s) = mset (virtual_nodes w (wsCacheKeys ws))))"

definition sched_ok :: "scheduler \<Rightarrow> bool" where
  "sched_ok s \<longleftrightarrow> sorted (map rhash (ring s)) \<and> (\<forall>w. worker_nodes_ok s w)"

lemma rworker_virtual_nodes [simp]: "n \<in> set (virtual_nodes w cks) \<Longrightarrow> rworker n = w"
  by (auto simp: virtual_nodes_def)

lemma virtual_nodes_worker:
  "filter (\<lambda>n. rworker n = v) (virtual_nodes w cks) = (if v = w then virtual_nodes w cks else [])"
  by (auto simp: filter_id_conv filter_empty_conv)

lemma virtual_nodes_nonempty [simp]: "virtual_nodes w cks \<noteq> []"
  by (simp add: virtual_nodes_def virtualReplicas_def)

lemma removeWorkerLocked_workers [simp]: "sworkers (removeWorkerLocked w s) = sworkers s"
  by (simp add: removeWorkerLocked_def)

lemma removeWorkerLocked_nodes: "nodes_of v (removeWorkerLocked w s) = (if v = w then [] else nodes_of v s)"
  by (auto simp: removeWorkerLocked_def nodes_of_def filter_empty_conv intro: filter_cong)

lemma nodes_of_update [simp]: "nodes_of v (s\<lparr>sworkers := m\<rparr>) = nodes_of v s"
  by (simp add: nodes_of_def)

text \<open>The invariant of a worker depends on its entry and its nodes only.\<close>

lemma worker_nodes_cong:
  "sworkers t w = sworkers s w \<Longrightarrow> mset (nodes_of w t) = mset (nodes_of w s) \<Longrightarrow>
   worker_nodes_ok t w = worker_nodes_ok s w"
  by (auto simp: worker_nodes_ok_def split: option.split)

lemma sorted_removeWorkerLocked:
  "sorted (map rhash (ring s)) \<Longrightarrow> sorted (map rhash (ring (removeWorkerLocked w s)))"
  by (simp add: removeWorkerLocked_def sorted_filter)

lemma sched_ok_New [simp]: "sched_ok New_scheduler"
  by (simp add: sched_ok_def New_scheduler_def worker_nodes_ok_def nodes_of_def)

lemma drop_worker_ok:
  assumes "sched_ok s" "\<And>ws. e = Some ws \<Longrightarrow> wsID ws = w \<and> wsStatus ws \<noteq> ''idle''"
  shows "sched_ok ((removeWorkerLocked w s)\<lparr>sworkers := (sworkers s)(w := e)\<rparr>)" (is "sched_ok ?t")
proof -
  have "worker_nodes_ok ?t v" for v
  proof (cases "v = w")
    case True
    then show ?thesis using assms(2) by (auto simp: worker_nodes_ok_def removeWorkerLocked_nodes split: option.split)
  next
    case False
    then have "worker_nodes_ok ?t v = worker_nodes_ok s v"
      by (intro worker_nodes_cong) (simp_all add: removeWorkerLocked_nodes)
    then show ?thesis using assms(1) by (simp add: sched_ok_def)
  qed
  then show ?thesis using assms(1) sorted_removeWorkerLocked [of s w] by (simp add: sched_ok_def)
qed

lemma RemoveWorker_ok: "sched_ok s \<Longrightarrow> sched_ok (RemoveWorker w s)"
  using drop_worker_ok [of s None w] by (simp add: RemoveWorker_def Let_def)

lemma PruneStaleWorkers_fold: "PruneStaleWorkers ids s = fold RemoveWorker ids s"
  by (induction ids arbitrary: s) (simp_all add: RemoveWorker_def)

lemma PruneStaleWorkers_ok: "sched_ok s \<Longrightarrow> sched_ok (PruneStaleWorkers ids s)"
  unfolding PruneStaleWorkers_fold by (induction ids arbitrary: s) (simp_all add: RemoveWorker_ok)

text \<open>A status change that neither makes a worker idle nor takes it offline keeps the invariant.\<close>

lemma sched_ok_status:
  assumes "sched_ok s" "sworkers s w = Some ws" "wsID ws' = wsID ws"
    "wsCacheKeys ws' = wsCacheKeys ws" "wsStatus ws' = ''busy''"
  shows "sched_ok (s\<lparr>sworkers := (sworkers s)(w \<mapsto> ws')\<rparr>)" (is "sched_ok ?t")
proof -
  have "worker_nodes_ok ?t v" for v
  proof (cases "v = w")
    case True
    have "worker_nodes_ok s w" using assms(1) by (simp add: sched_ok_def)
    then show ?thesis using assms(2-) True by (simp add: worker_nodes_ok_def split: if_splits)
  next
    case False
    then have "worker_nodes_ok ?t v = worker_nodes_ok s v" by (intro worker_nodes_cong) simp_all
    then show ?thesis using assms(1) by (simp add: sched_ok_def)
  qed
  then show ?thesis using assms(1) by (simp add: sched_ok_def)
qed

lemma MarkWorkerBusy_ok: "sched_ok s \<Longrightarrow> sched_ok (MarkWorkerBusy w s)"
  by (auto simp: MarkWorkerBusy_def intro: sched_ok_status split: option.split)

lemma take_worker_ok: "sched_ok s \<Longrightarrow> sched_ok (take_worker w s)"
  by (cases "sworkers s w") (auto simp: take_worker_def fun_upd_idem intro: sched_ok_status)

lemma AssignBuild_ok: "sched_ok s \<Longrightarrow> sched_ok (snd (AssignBuild fp s))"
  using AssignBuild_route [of s fp] take_worker_ok by (auto simp: sched_ok_def split: option.split)

lemma RegisterWorker_workers:
  "sworkers (RegisterWorker sortf w st cks s) =
     (sworkers s)(w \<mapsto> \<lparr>wsID = w, wsStatus = st, wsCacheKeys = cks, wsLoad = 0\<rparr>)"
  by (simp add: RegisterWorker_def Let_def)

text \<open>Under the contract of \<open>sort.Sort\<close>.\<close>

locale ring_sorter = sorter rhash sortf for sortf :: ring_sort
begin

lemma nodes_of_sort: "mset (filter P (sortf xs)) = mset (filter P xs)"
  by (simp add: mset_filter sort_mset)

lemma add_worker_ok:
  assumes ok: "sched_ok s" and st: "st \<noteq> ''offline''" and s'_def: "s' = removeWorkerLocked w s"
  shows "sched_ok (s'\<lparr>sworkers := (sworkers s)(w \<mapsto> \<lparr>wsID = w, wsStatus = st, wsCacheKeys = cks, wsLoad = l\<rparr>),
                     ring := sortf (ring s' @ virtual_nodes w cks)\<rparr>)" (is "sched_ok ?t")
proof -
  have nodes: "mset (nodes_of v ?t) = mset (nodes_of v s' @ (if v = w then virtual_nodes w cks else []))" for v
    using nodes_of_sort [of "\<lambda>n. rworker n = v" "ring s' @ virtual_nodes w cks"]
    by (simp add: nodes_of_def virtual_nodes_worker del: mset_filter)
  have "worker_nodes_ok ?t v" for v
  proof (cases "v = w")
    case True
    have m: "mset (nodes_of w ?t) = mset (virtual_nodes w cks)"
      using nodes [of w] by (simp add: s'_def removeWorkerLocked_nodes)
    then have "nodes_of w ?t \<noteq> []" by (metis mset_zero_iff virtual_nodes_nonempty)
    then show ?thesis using True st m by (simp add: worker_nodes_ok_def)
  next
    case False
    have "mset (nodes_of v ?t) = mset (nodes_of v s)"
      using nodes [of v] False by (simp add: s'_def removeWorkerLocked_nodes)
    then have "worker_nodes_ok ?t v = worker_nodes_ok s v" using False by (intro worker_nodes_cong) simp_all
    then show ?thesis using ok by (simp add: sched_ok_def)
  qed
  then show ?thesis using sort_sorted by (simp add: sched_ok_def)
qed

lemma RegisterWorker_ring_set:
  "set (ring (RegisterWorker sortf w st cks s)) \<subseteq> set (ring s) \<union> set (virtual_nodes w cks)"
  by (auto simp: RegisterWorker_def Let_def removeWorkerLocked_def)

lemma RegisterWorker_ok:
  assumes "sched_ok s"
  shows "sched_ok (RegisterWorker sortf w st cks s)"
proof (cases "st = ''offline''")
  case True
  then show ?thesis
    using drop_worker_ok [OF assms, of "Some \<lparr>wsID = w, wsStatus = st, wsCacheKeys = cks, wsLoad = 0\<rparr>" w]
    by (simp add: RegisterWorker_def Let_def)
next
  case False
  then show ?thesis using add_worker_ok [OF assms False refl, of w cks 0]
    by (simp add: RegisterWorker_def Let_def removeWorkerLocked_def)
qed

end

lemma MarkWorkerIdle_Register: "MarkWorkerIdle sortf w cks s = RegisterWorker sortf w ''idle'' cks s"
  by (simp add: MarkWorkerIdle_def RegisterWorker_def)

interpretation ring_stable: ring_sorter "sort_key rhash"
  by (simp add: ring_sorter_def stable.sorter_axioms)

subsection \<open>Routing\<close>

text \<open>Every idle worker has a node on the ring, so a walk finds one if there is one.\<close>

lemma idle_has_node:
  assumes "sched_ok s" "idle s w"
  shows "\<exists>n \<in> set (ring s). rworker n = w"
proof -
  obtain ws where "sworkers s w = Some ws" "wsStatus ws = ''idle''" using assms(2) by (auto simp: idle_def)
  moreover have "worker_nodes_ok s w" using assms(1) by (simp add: sched_ok_def)
  ultimately have "nodes_of w s \<noteq> []" by (auto simp: worker_nodes_ok_def)
  then show ?thesis by (auto simp: nodes_of_def filter_empty_conv)
qed

lemma set_clockwise [simp]: "set (clockwise t ns) = set ns"
  by (auto simp: clockwise_def)

lemma route_None: "sched_ok s \<Longrightarrow> route fp s = None \<longleftrightarrow> (\<forall>w. \<not> idle s w)"
  using idle_has_node by (fastforce simp: route_def find_None_iff)

lemma route_idle: "route fp s = Some w \<Longrightarrow> idle s w"
  by (auto simp: route_def find_Some_iff)

text \<open>Dropping nodes that a search does not choose leaves its choice.\<close>

lemma find_filter: "find P xs = Some x \<Longrightarrow> Q x \<Longrightarrow> find P (filter Q xs) = Some x"
  by (induction xs) (auto split: if_splits)

lemma find_cong_set: "(\<And>x. x \<in> set xs \<Longrightarrow> P x = Q x) \<Longrightarrow> find P xs = find Q xs"
  by (induction xs) auto

lemma clockwise_filter: "clockwise t (filter Q ns) = filter Q (clockwise t ns)"
  by (simp add: clockwise_def conj_commute)

lemma route_RemoveWorker:
  assumes "route fp s = Some w" "w' \<noteq> w"
  shows "route fp (RemoveWorker w' s) = Some w"
proof -
  let ?t = "hashToRing (hashKey fp)" and ?keep = "\<lambda>n. rworker n \<noteq> w'"
  obtain n where n: "find (\<lambda>n. idle s (rworker n)) (clockwise ?t (ring s)) = Some n" "rworker n = w"
    using assms(1) by (auto simp: route_def)
  have "ring (RemoveWorker w' s) = filter ?keep (ring s)"
    by (simp add: RemoveWorker_def removeWorkerLocked_def Let_def)
  moreover have "find (\<lambda>n. idle (RemoveWorker w' s) (rworker n)) (filter ?keep (clockwise ?t (ring s)))
      = find (\<lambda>n. idle s (rworker n)) (filter ?keep (clockwise ?t (ring s)))"
    by (rule find_cong_set) (auto simp: idle_def RemoveWorker_def Let_def)
  moreover have "find (\<lambda>n. idle s (rworker n)) (filter ?keep (clockwise ?t (ring s))) = Some n"
    using find_filter [OF n(1), of ?keep] n(2) assms(2) by simp
  ultimately show ?thesis using n(2) by (simp add: route_def clockwise_filter)
qed

lemma AssignBuild_fst: "sched_ok s \<Longrightarrow> fst (AssignBuild fp s) = route fp s"
  using AssignBuild_route [of s fp] by (auto simp: sched_ok_def split: option.split)

subsection \<open>Scoring\<close>

lemma score_cache_spec:
  "score_cache B cks (C, i, u) =
     (C \<union> set cks, i + int (length (filter (\<lambda>k. k \<in> B) cks)), u + int (length cks))"
  by (induction cks arbitrary: C i u) auto

lemma score_instr_spec: "score_instr C xs u = u + int (length (filter (\<lambda>x. x \<notin> C) xs))"
  by (induction xs arbitrary: u) auto

lemma ScoreBuildForWorker_eq:
  "ScoreBuildForWorker xs w s = (case sworkers s w of
       None \<Rightarrow> 0
     | Some ws \<Rightarrow> if wsCacheKeys ws = [] \<or> xs = [] then 0
        else fdiv (float_of_int (int (length (filter (\<lambda>k. k \<in> set xs) (wsCacheKeys ws)))))
                  (float_of_int (int (length (wsCacheKeys ws)) +
                     int (length (filter (\<lambda>x. x \<notin> set (wsCacheKeys ws)) xs)))))"
  by (auto simp: ScoreBuildForWorker_def score_cache_spec score_instr_spec Let_def split: option.split)

lemma score_unit: "0 \<le> ScoreBuildForWorker xs w s \<and> ScoreBuildForWorker xs w s \<le> 1"
proof (cases "sworkers s w")
  case (Some ws)
  let ?c = "wsCacheKeys ws"
  have "int (length (filter (\<lambda>k. k \<in> set xs) ?c)) \<le>
      int (length ?c) + int (length (filter (\<lambda>x. x \<notin> set ?c) xs))"
    using length_filter_le [of "\<lambda>k. k \<in> set xs" ?c] by linarith
  then show ?thesis using Some fdiv_unit float_of_int_mono float_of_int_nonneg
    by (auto simp: ScoreBuildForWorker_eq)
qed (simp add: ScoreBuildForWorker_def)

lemma score_disjoint:
  assumes "sworkers s w = Some ws" "set (wsCacheKeys ws) \<inter> set xs = {}"
  shows "ScoreBuildForWorker xs w s = 0"
proof -
  have "filter (\<lambda>k. k \<in> set xs) (wsCacheKeys ws) = []" using assms(2) by (auto simp: filter_empty_conv)
  then show ?thesis using assms(1) by (simp add: ScoreBuildForWorker_eq fdiv_def)
qed

subsection \<open>What the scheduler promises\<close>

datatype sched_op =
    SRegister string string "string list" | SRemove string | SIdle string "string list"
  | SBusy string | SPrune "string list" | SAssign string

fun sched_exec :: "ring_sort \<Rightarrow> sched_op \<Rightarrow> scheduler \<Rightarrow> scheduler" where
  "sched_exec sortf (SRegister w st cks) s = RegisterWorker sortf w st cks s"
| "sched_exec sortf (SRemove w) s = RemoveWorker w s"
| "sched_exec sortf (SIdle w cks) s = MarkWorkerIdle sortf w cks s"
| "sched_exec sortf (SBusy w) s = MarkWorkerBusy w s"
| "sched_exec sortf (SPrune ids) s = PruneStaleWorkers ids s"
| "sched_exec sortf (SAssign fp) s = snd (AssignBuild fp s)"

context ring_sorter
begin

lemma sched_exec_ok: "sched_ok s \<Longrightarrow> sched_ok (sched_exec sortf op s)"
  by (cases op) (simp_all add: RegisterWorker_ok RemoveWorker_ok MarkWorkerIdle_Register
      MarkWorkerBusy_ok PruneStaleWorkers_ok AssignBuild_ok)

lemma sched_run_ok: "sched_ok s \<Longrightarrow> sched_ok (fold (sched_exec sortf) ops s)"
  by (induction ops arbitrary: s) (simp_all add: sched_exec_ok)

text \<open>Re-adding an idle worker's own nodes rebuilds the same ring when no two hashes collide.\<close>

lemma readd_ring:
  assumes "sched_ok s" "sworkers s w = Some ws" "wsStatus ws = ''idle''" "inj_on rhash (set (ring s))"
  shows "sortf (filter (\<lambda>n. rworker n \<noteq> w) (ring s) @ virtual_nodes w (wsCacheKeys ws)) = ring s"
proof (rule sort_unique)
  have "worker_nodes_ok s w" using assms(1) by (simp add: sched_ok_def)
  then have "mset (nodes_of w s) = mset (virtual_nodes w (wsCacheKeys ws))"
    using assms(2,3) by (auto simp: worker_nodes_ok_def split: if_splits)
  moreover have "mset (ring s) = mset (filter (\<lambda>n. rworker n \<noteq> w) (ring s)) + mset (nodes_of w s)"
    using multiset_partition [of "mset (ring s)" "\<lambda>n. rworker n = w"] by (simp add: nodes_of_def)
  ultimately show "mset (filter (\<lambda>n. rworker n \<noteq> w) (ring s) @ virtual_nodes w (wsCacheKeys ws)) = mset (ring s)"
    by simp
qed (use assms in \<open>auto simp: sched_ok_def\<close>)

lemma route_again:
  assumes "sched_ok s" "route fp s = Some w" "sworkers s w = Some ws" "inj_on rhash (set (ring s))"
  shows "route fp (MarkWorkerIdle sortf w (wsCacheKeys ws) (snd (AssignBuild fp s))) = Some w"
proof -
  let ?s = "MarkWorkerIdle sortf w (wsCacheKeys ws) (take_worker w s)"
  have st: "wsStatus ws = ''idle''" using route_idle [OF assms(2)] assms(3) by (simp add: idle_def)
  have "snd (AssignBuild fp s) = take_worker w s"
    using AssignBuild_route [of s fp] assms(1,2) by (simp add: sched_ok_def)
  moreover have "ring ?s = ring s"
    using readd_ring [OF assms(1,3) st assms(4)]
    by (simp add: MarkWorkerIdle_def Let_def removeWorkerLocked_def take_worker_def)
  moreover have "idle ?s = idle s"
    using assms(3) st by (auto simp: fun_eq_iff idle_def MarkWorkerIdle_def Let_def take_worker_def)
  ultimately show ?thesis using assms(2) by (simp add: route_def)
qed

end

text \<open>One registered worker, for the concrete instances.\<close>

definition one_worker :: scheduler where
  "one_worker = RegisterWorker (sort_key rhash) ''w1'' ''idle'' [] New_scheduler"

lemma one_worker_ok: "sched_ok one_worker"
  unfolding one_worker_def by (intro ring_stable.RegisterWorker_ok sched_ok_New)

lemma one_worker_entry:
  "sworkers one_worker = [''w1'' \<mapsto> \<lparr>wsID = ''w1'', wsStatus = ''idle'', wsCacheKeys = [], wsLoad = 0\<rparr>]"
  unfolding one_worker_def RegisterWorker_workers by (simp add: New_scheduler_def)

lemma one_worker_nodes: "n \<in> set (ring one_worker) \<Longrightarrow> rworker n = ''w1''"
  using subsetD [OF ring_stable.RegisterWorker_ring_set [of "''w1''" "''idle''" "[]" New_scheduler], of n]
  by (simp add: one_worker_def New_scheduler_def)

lemma one_worker_route: "route fp one_worker = Some ''w1''"
proof -
  have only: "idle one_worker w \<longleftrightarrow> w = ''w1''" for w by (simp add: idle_def one_worker_entry)
  have "route fp one_worker \<noteq> None" unfolding route_None [OF one_worker_ok] only by blast
  then obtain w where w: "route fp one_worker = Some w" by blast
  then have "w = ''w1''" using route_idle only by blast
  then show ?thesis using w by simp
qed

text \<open>(C26) Every run of scheduler operations keeps the ring sorted and consistent with the
  registered workers: an unregistered or offline worker owns no virtual node, an idle worker
  owns exactly its 150 nodes, and no worker owns part of its nodes.\<close>

theorem scheduler_run_consistent:
  assumes "ring_sorter sortf"
  shows "sched_ok (fold (sched_exec sortf) ops New_scheduler)"
  by (rule ring_sorter.sched_run_ok [OF assms sched_ok_New])

theorem scheduler_run_consistent_witness:
  "sched_ok (fold (sched_exec (sort_key rhash)) [SRegister ''w1'' ''idle'' [], SAssign ''fp''] New_scheduler)"
  by (rule scheduler_run_consistent [OF ring_stable.ring_sorter_axioms])

text \<open>(C8) \<open>AssignBuild\<close>, with its binary search and its walk modulo the ring length,
  returns the worker of the first node clockwise from the fingerprint's hash whose worker is
  idle. It assigns exactly when some registered worker is idle; then that worker becomes busy
  with its load counted up and nothing else changes, otherwise nothing changes.\<close>

theorem AssignBuild_clockwise:
  assumes "sched_ok s"
  shows "fst (AssignBuild fp s) = route fp s \<and>
    (fst (AssignBuild fp s) = None \<longleftrightarrow> (\<nexists>w. idle s w)) \<and>
    (case AssignBuild fp s of
       (None, s') \<Rightarrow> s' = s
     | (Some w, s') \<Rightarrow> idle s w \<and> \<not> idle s' w \<and> ring s' = ring s \<and>
         (\<exists>ws. sworkers s w = Some ws \<and>
            sworkers s' = (sworkers s)(w \<mapsto> ws\<lparr>wsStatus := ''busy'', wsLoad := wsLoad ws + 1\<rparr>)))"
proof -
  have eq: "AssignBuild fp s = (case route fp s of None \<Rightarrow> (None, s) | Some w \<Rightarrow> (Some w, take_worker w s))"
    using AssignBuild_route assms by (simp add: sched_ok_def)
  show ?thesis
  proof (cases "route fp s")
    case None
    then show ?thesis using eq route_None [OF assms, of fp] by simp
  next
    case (Some w)
    then have "idle s w" by (rule route_idle)
    then show ?thesis using Some eq by (auto simp: idle_def take_worker_def)
  qed
qed

theorem AssignBuild_clockwise_witness:
  "fst (AssignBuild ''fp'' one_worker) = Some ''w1''"
  using AssignBuild_clockwise [OF one_worker_ok, of "''fp''"] by (simp add: one_worker_route)

text \<open>Consistent hashing: removing another worker never reroutes a fingerprint.\<close>

theorem RemoveWorker_keeps_routes:
  assumes "sched_ok s" and "fst (AssignBuild fp s) = Some w" and "w' \<noteq> w"
  shows "fst (AssignBuild fp (RemoveWorker w' s)) = Some w"
  using assms AssignBuild_fst RemoveWorker_ok route_RemoveWorker by metis

theorem RemoveWorker_keeps_routes_witness:
  "fst (AssignBuild ''fp'' (RemoveWorker ''w2'' one_worker)) = Some ''w1''"
  using RemoveWorker_keeps_routes [OF one_worker_ok, of "''fp''" "''w1''" "''w2''"]
  by (simp add: AssignBuild_fst one_worker_ok one_worker_route)

text \<open>Stickiness: when no two workers share a hash on the ring, a worker that is marked idle
  again with the cache keys it had gets the same fingerprint again.\<close>

theorem AssignBuild_sticky:
  assumes "ring_sorter sortf" and "sched_ok s" and "inj_on rhash (set (ring s))"
    and "fst (AssignBuild fp s) = Some w" and "sworkers s w = Some ws"
  shows "fst (AssignBuild fp (MarkWorkerIdle sortf w (wsCacheKeys ws) (snd (AssignBuild fp s)))) = Some w"
proof -
  have "route fp s = Some w" using assms(2,4) AssignBuild_fst by metis
  then have "route fp (MarkWorkerIdle sortf w (wsCacheKeys ws) (snd (AssignBuild fp s))) = Some w"
    using ring_sorter.route_again [OF assms(1,2)] assms(3,5) by blast
  moreover have "sched_ok (MarkWorkerIdle sortf w (wsCacheKeys ws) (snd (AssignBuild fp s)))"
    unfolding MarkWorkerIdle_Register by (intro ring_sorter.RegisterWorker_ok [OF assms(1)] AssignBuild_ok assms(2))
  ultimately show ?thesis using AssignBuild_fst by metis
qed

theorem AssignBuild_sticky_witness:
  "fst (AssignBuild ''fp'' (MarkWorkerIdle (sort_key rhash) ''w1'' [] (snd (AssignBuild ''fp'' one_worker))))
     = Some ''w1''"
proof -
  have "inj_on rhash (set (ring one_worker))" by (auto simp: inj_on_def dest!: one_worker_nodes intro: ring_node.equality)
  then show ?thesis
    using AssignBuild_sticky [OF ring_stable.ring_sorter_axioms one_worker_ok, of "''fp''" "''w1''"]
    by (simp add: AssignBuild_fst one_worker_ok one_worker_route one_worker_entry)
qed

text \<open>(C27) The cache-affinity score is between 0 and 1. When neither the build's
  instructions nor the worker's cache keys repeat an entry, it is the Jaccard similarity of
  the two sets, rounded to a \<open>float64\<close>; disjoint sets score 0.\<close>

theorem score_is_jaccard:
  assumes "sworkers s w = Some ws" and "distinct xs" and "distinct (wsCacheKeys ws)"
    and "xs \<noteq> []" and "wsCacheKeys ws \<noteq> []"
  shows "0 \<le> ScoreBuildForWorker xs w s \<and> ScoreBuildForWorker xs w s \<le> 1 \<and>
    ScoreBuildForWorker xs w s =
      fdiv (float_of_int (int (card (set xs \<inter> set (wsCacheKeys ws)))))
           (float_of_int (int (card (set xs \<union> set (wsCacheKeys ws))))) \<and>
    (set xs \<inter> set (wsCacheKeys ws) = {} \<longleftrightarrow> ScoreBuildForWorker xs w s = 0)"
proof -
  let ?c = "wsCacheKeys ws"
  have i: "length (filter (\<lambda>k. k \<in> set xs) ?c) = card (set xs \<inter> set ?c)"
    using distinct_card [of "filter (\<lambda>k. k \<in> set xs) ?c"] assms(3) by (simp add: Int_def conj_commute)
  have "length (filter (\<lambda>x. x \<notin> set ?c) xs) = card (set xs - set ?c)"
    using distinct_card [of "filter (\<lambda>x. x \<notin> set ?c) xs"] assms(2) by (simp add: set_diff_eq)
  then have u: "length ?c + length (filter (\<lambda>x. x \<notin> set ?c) xs) = card (set xs \<union> set ?c)"
    using distinct_card [OF assms(3)] card_Un_disjoint [of "set ?c" "set xs - set ?c"] by (simp add: Un_commute)
  have eq: "ScoreBuildForWorker xs w s = fdiv (float_of_int (int (card (set xs \<inter> set ?c))))
      (float_of_int (int (card (set xs \<union> set ?c))))"
    using assms(1,4,5) i u by (simp add: ScoreBuildForWorker_eq flip: of_nat_add)
  have "set xs \<inter> set ?c \<noteq> {} \<Longrightarrow> 0 < ScoreBuildForWorker xs w s"
    unfolding eq using assms(4) by (intro fdiv_pos float_of_int_pos) (auto simp: card_gt_0_iff)
  then show ?thesis using eq score_unit [of xs w s] score_disjoint [OF assms(1), of xs] by fastforce
qed

theorem score_is_jaccard_witness:
  "ScoreBuildForWorker [''RUN a'', ''RUN b''] ''w'' (RegisterWorker (sort_key rhash) ''w'' ''idle'' [''RUN a'', ''RUN b''] New_scheduler) = 1"
proof -
  let ?s = "RegisterWorker (sort_key rhash) ''w'' ''idle'' [''RUN a'', ''RUN b''] New_scheduler"
  have "{''RUN a'', ''RUN b'', ''RUN a'', ''RUN b''} = {''RUN a'', ''RUN b''}" by blast
  then have "card {''RUN a'', ''RUN b'', ''RUN a'', ''RUN b''} = 2" by (simp only: card_2_iff) auto
  moreover have "fdiv (float_of_int 2) (float_of_int 2) = 1" using float_of_int_exact [of 2] by (simp add: fdiv_def)
  ultimately show ?thesis
    using score_is_jaccard [of ?s "''w''" _ "[''RUN a'', ''RUN b'']"] by (simp add: RegisterWorker_workers)
qed

text \<open>With repeated instructions the score is not the Jaccard similarity the comment on
  the function promises: a build with instructions \<open>x\<close>, \<open>x\<close>, \<open>y\<close> on a worker that cached
  \<open>y\<close> scores one third, where the sets \<open>{x, y}\<close> and \<open>{y}\<close> have similarity one half.\<close>

theorem score_counts_duplicates:
  "ScoreBuildForWorker [x, x, y] w (RegisterWorker sortf w st [y] s) = fdiv (float_of_int 1) (float_of_int (if x = y then 1 else 3))"
  by (auto simp: ScoreBuildForWorker_eq RegisterWorker_workers)

end
