(* ===== verification/Go_Json.thy ===== *)
theory Go_Json
  imports Go_Strings "HOL-Library.Char_ord" "HOL-Library.List_Lexorder"
begin

text \<open>
  The part of \<open>encoding/json\<close> behind the text columns \<open>args\<close> and \<open>instructions\<close>:
  \<open>Marshal\<close> of a string list and of a string map, with the HTML-safe escapes, the sorted
  keys and the replacement of invalid UTF-8 that Go documents, and \<open>Unmarshal\<close> of such
  text. The decoder accepts the compact form that \<open>Marshal\<close> writes, which is the only form
  the columns hold; the nil and the empty list (or map) are one value, written \<open>null\<close>.
\<close>

subsection \<open>Strings\<close>

definition hex4 :: "nat \<Rightarrow> string" where
  "hex4 r = [digit_char (r div 4096 mod 16), digit_char (r div 256 mod 16),
             digit_char (r div 16 mod 16), digit_char (r mod 16)]"

definition safe_byte :: "char \<Rightarrow> bool" where
  "safe_byte c \<longleftrightarrow> 32 \<le> (of_char c :: nat) \<and> (of_char c :: nat) < 128 \<and> c \<notin> {CHR 0x22, CHR 0x5C, CHR ''<'', CHR ''>'', CHR ''&''}"

definition enc_token :: "string \<Rightarrow> string \<times> nat" where
  "enc_token s = (let c = hd s in
     if (of_char c :: nat) < 128 then
       (if safe_byte c then [c]
        else if c = CHR 0x22 \<or> c = CHR 0x5C then [CHR 0x5C, c]
        else if c = CHR 0x08 then [CHR 0x5C, CHR ''b'']
        else if c = CHR 0x0C then [CHR 0x5C, CHR ''f'']
        else if c = CHR 0x0A then [CHR 0x5C, CHR ''n'']
        else if c = CHR 0x0D then [CHR 0x5C, CHR ''r'']
        else if c = CHR 0x09 then [CHR 0x5C, CHR ''t'']
        else [CHR 0x5C, CHR ''u''] @ hex4 (of_char c), 1)
     else let (r, w) = decode_rune s in
       if r = 65533 \<and> w = 1 then ([CHR 0x5C, CHR ''u''] @ hex4 65533, 1)
       else if r = 8232 \<or> r = 8233 then ([CHR 0x5C, CHR ''u''] @ hex4 r, w)
       else (take w s, w))"

function enc_chars :: "string \<Rightarrow> string" where
  "enc_chars s = (if s = [] then []
     else let (out, w) = enc_token s in out @ (if w = 0 then [] else enc_chars (drop w s)))"
  by pat_completeness auto
termination by (relation "measure length") auto

declare enc_chars.simps [simp del]

definition quote :: "string \<Rightarrow> string" where
  "quote s = [CHR 0x22] @ enc_chars s @ [CHR 0x22]"

definition hex_val :: "char \<Rightarrow> nat option" where
  "hex_val c = (let n = of_char c in
     if 48 \<le> n \<and> n \<le> 57 then Some (n - 48)
     else if 97 \<le> n \<and> n \<le> 102 then Some (n - 87)
     else if 65 \<le> n \<and> n \<le> 70 then Some (n - 55) else None)"

definition getu4 :: "string \<Rightarrow> nat option" where
  "getu4 s = (case s of b # u # h1 # h2 # h3 # h4 # _ \<Rightarrow>
       if b = CHR 0x5C \<and> u = CHR ''u'' then
         (case (hex_val h1, hex_val h2, hex_val h3, hex_val h4) of
            (Some a, Some b, Some c, Some d) \<Rightarrow> Some (((a * 16 + b) * 16 + c) * 16 + d)
          | _ \<Rightarrow> None)
       else None
     | _ \<Rightarrow> None)"

text \<open>A surrogate pair of \<open>\u\<close> escapes is one rune, a lone surrogate is U+FFFD.\<close>

definition dec_token :: "string \<Rightarrow> (string \<times> nat) option" where
  "dec_token s = (case s of
       [] \<Rightarrow> None
     | c # t \<Rightarrow>
        if c = CHR 0x5C then
          (case t of
             [] \<Rightarrow> None
           | e # _ \<Rightarrow>
              if e = CHR ''u'' then
                (case getu4 s of
                   None \<Rightarrow> None
                 | Some r \<Rightarrow>
                    (case getu4 (drop 6 s) of
                       Some r2 \<Rightarrow>
                         if 55296 \<le> r \<and> r \<le> 56319 \<and> 56320 \<le> r2 \<and> r2 \<le> 57343
                         then Some (encode_rune (65536 + (r - 55296) * 1024 + (r2 - 56320)), 12)
                         else Some (encode_rune r, 6)
                     | None \<Rightarrow> Some (encode_rune r, 6)))
              else if e = CHR 0x22 \<or> e = CHR 0x5C \<or> e = CHR ''/'' then Some ([e], 2)
              else if e = CHR ''b'' then Some ([CHR 0x08], 2)
              else if e = CHR ''f'' then Some ([CHR 0x0C], 2)
              else if e = CHR ''n'' then Some ([CHR 0x0A], 2)
              else if e = CHR ''r'' then Some ([CHR 0x0D], 2)
              else if e = CHR ''t'' then Some ([CHR 0x09], 2)
              else None)
        else if (of_char c :: nat) < 32 then None
        else if (of_char c :: nat) < 128 then Some ([c], 1)
        else let (r, w) = decode_rune s in Some (encode_rune r, w))"

function dec_chars :: "string \<Rightarrow> (string \<times> string) option" where
  "dec_chars s = (case s of
       [] \<Rightarrow> None
     | c # t \<Rightarrow>
        if c = CHR 0x22 then Some ([], t)
        else (case dec_token s of
                None \<Rightarrow> None
              | Some (out, w) \<Rightarrow>
                  if w = 0 then None
                  else map_option (\<lambda>(a, r). (out @ a, r)) (dec_chars (drop w s))))"
  by pat_completeness auto
termination by (relation "measure length") auto

declare dec_chars.simps [simp del]

definition unquote :: "string \<Rightarrow> (string \<times> string) option" where
  "unquote s = (case s of c # t \<Rightarrow> if c = CHR 0x22 then dec_chars t else None | [] \<Rightarrow> None)"

subsection \<open>Lists and maps\<close>

function dec_seq :: "(string \<Rightarrow> ('a \<times> string) option) \<Rightarrow> char \<Rightarrow> string \<Rightarrow> 'a list option" where
  "dec_seq p e s = (case p s of
       None \<Rightarrow> None
     | Some (v, rest) \<Rightarrow>
        (case rest of
           [] \<Rightarrow> None
         | c # r \<Rightarrow>
            if c = e then (if r = [] then Some [v] else None)
            else if c = CHR '','' \<and> length r < length s then map_option (Cons v) (dec_seq p e r)
            else None))"
  by pat_completeness auto
termination by (relation "measure (\<lambda>(p, e, s). length s)") auto

declare dec_seq.simps [simp del]

definition quote_pair :: "string \<times> string \<Rightarrow> string" where
  "quote_pair kv = quote (fst kv) @ '':'' @ quote (snd kv)"

definition unquote_pair :: "string \<Rightarrow> ((string \<times> string) \<times> string) option" where
  "unquote_pair s = (case unquote s of
       Some (k, c # r) \<Rightarrow>
         if c = CHR '':'' then (case unquote r of Some (v, r') \<Rightarrow> Some ((k, v), r') | None \<Rightarrow> None) else None
     | _ \<Rightarrow> None)"

definition marshal_list :: "string list \<Rightarrow> string" where
  "marshal_list xs = (if xs = [] then ''null'' else ''['' @ Join '','' (map quote xs) @ '']'')"

definition marshal_map :: "(string \<times> string) list \<Rightarrow> string" where
  "marshal_map m = (if m = [] then ''null''
     else [CHR 0x7B] @ Join '','' (map quote_pair (sort_key fst m)) @ [CHR 0x7D])"

definition unmarshal_list :: "string \<Rightarrow> string list option" where
  "unmarshal_list s = (if s = ''null'' \<or> s = ''[]'' then Some []
     else case s of c # t \<Rightarrow> if c = CHR ''['' then dec_seq unquote (CHR '']'') t else None | [] \<Rightarrow> None)"

definition unmarshal_map :: "string \<Rightarrow> (string \<times> string) list option" where
  "unmarshal_map s = (if s = ''null'' \<or> s = [CHR 0x7B, CHR 0x7D] then Some []
     else case s of c # t \<Rightarrow> if c = CHR 0x7B then dec_seq unquote_pair (CHR 0x7D) t else None | [] \<Rightarrow> None)"

subsection \<open>Valid UTF-8\<close>

function valid_utf8 :: "string \<Rightarrow> bool" where
  "valid_utf8 s = (if s = [] then True
     else let (r, w) = decode_rune s in
       \<not> (r = 65533 \<and> w = 1) \<and> (if w = 0 then True else valid_utf8 (drop w s)))"
  by pat_completeness auto
termination by (relation "measure length") auto

declare valid_utf8.simps [simp del]

lemma valid_utf8_Nil [simp]: "valid_utf8 []"
  by (simp add: valid_utf8.simps)

subsection \<open>Round trips\<close>

lemma horner64: "a < 64 \<Longrightarrow> (a + 64 * k) div 64 = k" "a < 64 \<Longrightarrow> (a + 64 * k) mod 64 = (a :: nat)"
  by simp_all

lemma two_bytes: fixes x b :: nat assumes "194 \<le> x" "x \<le> 223" "cont_byte b"
  shows "encode_rune ((x - 192) * 64 + (b - 128)) = [byte x, byte b]"
proof -
  obtain y d where [simp]: "x = 192 + y" "b = 128 + d" and *: "2 \<le> y" "y < 32" "d < 64"
    using assms that[of "x - 192" "b - 128"] by (auto simp: cont_byte_def)
  show ?thesis using * by (simp add: encode_rune_def)
qed

lemma three_bytes: fixes x b c :: nat
  assumes "224 \<le> x" "x \<le> 239" "(if x = 224 then 160 else 128) \<le> b" "b \<le> (if x = 237 then 159 else 191)" "cont_byte c"
  shows "encode_rune ((x - 224) * 4096 + (b - 128) * 64 + (c - 128)) = [byte x, byte b, byte c]"
proof -
  obtain y d f where [simp]: "x = 224 + y" "b = 128 + d" "c = 128 + f"
    and *: "y < 16" "d < 64" "f < 64" "y = 0 \<longrightarrow> 32 \<le> d" "y = 13 \<longrightarrow> d < 32"
    using assms that[of "x - 224" "b - 128" "c - 128"] by (auto simp: cont_byte_def split: if_splits)
  let ?r = "f + 64 * (d + 64 * y)"
  have 1: "\<not> ?r < 2048" using * by (cases "y = 0") auto
  have 2: "?r < 65536" using * by auto
  have 3: "\<not> (55296 \<le> ?r \<and> ?r \<le> 57343)"
    using * by (cases "y < 13"; cases "y = 13") auto
  have q: "?r div 64 = d + 64 * y" "?r mod 64 = f" "(d + 64 * y) div 64 = y" "(d + 64 * y) mod 64 = d" using * horner64 by blast+
  have "?r div 4096 = y" using div_mult2_eq [of ?r 64 64] by (simp only: q) simp
  then have "encode_rune ?r = [byte x, byte b, byte c]" using 1 2 3 q by (auto simp: encode_rune_def)
  moreover have "(x - 224) * 4096 + (b - 128) * 64 + (c - 128) = ?r" by simp
  ultimately show ?thesis by metis
qed

lemma four_bytes: fixes x b c e :: nat
  assumes "240 \<le> x" "x \<le> 244" "(if x = 240 then 144 else 128) \<le> b" "b \<le> (if x = 244 then 143 else 191)" "cont_byte c" "cont_byte e"
  shows "encode_rune ((x - 240) * 262144 + (b - 128) * 4096 + (c - 128) * 64 + (e - 128)) = [byte x, byte b, byte c, byte e]"
proof -
  obtain y d f g where [simp]: "x = 240 + y" "b = 128 + d" "c = 128 + f" "e = 128 + g"
    and *: "y < 5" "d < 64" "f < 64" "g < 64" "y = 0 \<longrightarrow> 16 \<le> d" "y = 4 \<longrightarrow> d < 16"
    using assms that[of "x - 240" "b - 128" "c - 128" "e - 128"] by (auto simp: cont_byte_def split: if_splits)
  let ?r = "g + 64 * (f + 64 * (d + 64 * y))"
  have 1: "65536 \<le> ?r" using * by (cases "y = 0") auto
  have 2: "?r \<le> 1114111" using * by (cases "y = 4") auto
  have q: "?r div 64 = f + 64 * (d + 64 * y)" "?r mod 64 = g" "(f + 64 * (d + 64 * y)) div 64 = d + 64 * y"
    "(f + 64 * (d + 64 * y)) mod 64 = f" "(d + 64 * y) div 64 = y" "(d + 64 * y) mod 64 = d" using * horner64 by blast+
  have 3: "?r div 4096 = d + 64 * y" using div_mult2_eq [of ?r 64 64] by (simp only: q) simp
  have "?r div 262144 = y" using div_mult2_eq [of ?r 4096 64] by (simp only: 3 q) simp
  then have "encode_rune ?r = [byte x, byte b, byte c, byte e]" using 1 2 3 q by (simp add: encode_rune_def)
  moreover have "(x - 240) * 262144 + (b - 128) * 4096 + (c - 128) * 64 + (e - 128) = ?r" by simp
  ultimately show ?thesis by metis
qed

lemma decode_rune_cases:
  assumes "decode_rune s = (r, w)" "s \<noteq> []" "\<not> (r = 65533 \<and> w = 1)"
  obtains (one) c t where "s = c # t" "(of_char c :: nat) < 128" "r = of_char c" "w = 1"
  | (two) c d t where "s = c # d # t" "194 \<le> (of_char c :: nat)" "(of_char c :: nat) \<le> 223" "cont_byte (of_char d)"
      "r = (of_char c - 192) * 64 + (of_char d - 128)" "w = 2"
  | (three) c d e t where "s = c # d # e # t" "224 \<le> (of_char c :: nat)" "(of_char c :: nat) \<le> 239"
      "(if of_char c = (224 :: nat) then 160 else 128) \<le> (of_char d :: nat)" "of_char d \<le> (if of_char c = (237 :: nat) then 159 else 191 :: nat)"
      "cont_byte (of_char e)" "r = (of_char c - 224) * 4096 + (of_char d - 128) * 64 + (of_char e - 128)" "w = 3"
  | (four) c d e f t where "s = c # d # e # f # t" "240 \<le> (of_char c :: nat)" "(of_char c :: nat) \<le> 244"
      "(if of_char c = (240 :: nat) then 144 else 128) \<le> (of_char d :: nat)" "of_char d \<le> (if of_char c = (244 :: nat) then 143 else 191 :: nat)"
      "cont_byte (of_char e)" "cont_byte (of_char f)"
      "r = (of_char c - 240) * 262144 + (of_char d - 128) * 4096 + (of_char e - 128) * 64 + (of_char f - 128)" "w = 4"
proof -
  obtain c t where s: "s = c # t" using assms(2) by (cases s) auto
  let ?x = "of_char c :: nat"
  consider "?x < 128" | "194 \<le> ?x" "?x \<le> 223" | "224 \<le> ?x" "?x \<le> 239" | "240 \<le> ?x" "?x \<le> 244"
    | "128 \<le> ?x" "?x < 194 \<or> 244 < ?x" by linarith
  then show thesis
  proof cases
    case 1
    then show thesis using assms(1) by (intro one) (auto simp: s decode_rune_def)
  next
    case 2
    then obtain d u where t: "t = d # u" using assms(1,3) by (cases t) (auto simp: s decode_rune_def)
    show thesis using assms(1,3) 2 by (intro two) (auto simp: s t decode_rune_def split: if_splits)
  next
    case 3
    then obtain d e u where t: "t = d # e # u" using assms(1,3) by (auto simp: s decode_rune_def split: list.splits)
    show thesis using assms(1,3) 3 by (intro three [of c d e u]) (auto simp: s t decode_rune_def split: if_splits)
  next
    case 4
    then obtain d e f u where t: "t = d # e # f # u" using assms(1,3) by (auto simp: s decode_rune_def split: list.splits)
    show thesis using assms(1,3) 4 by (intro four [of c d e f u]) (auto simp: s t decode_rune_def split: if_splits)
  next
    case 5
    then show thesis using assms(1,3) by (auto simp: s decode_rune_def)
  qed
qed

lemma decode_rune_valid:
  assumes "decode_rune s = (r, w)" "s \<noteq> []" "\<not> (r = 65533 \<and> w = 1)"
  shows "decode_rune (take w s @ t) = (r, w)" "encode_rune r = take w s" "0 < w" "w \<le> length s"
proof -
  have "decode_rune (take w s @ t) = (r, w) \<and> encode_rune r = take w s \<and> 0 < w \<and> w \<le> length s"
    using assms
  proof (cases rule: decode_rune_cases)
    case one then show ?thesis by (simp add: decode_rune_def encode_rune_def)
  next
    case two then show ?thesis by (simp add: decode_rune_def two_bytes)
  next
    case three then show ?thesis by (simp add: decode_rune_def three_bytes)
  next
    case four then show ?thesis by (simp add: decode_rune_def four_bytes)
  qed
  then show "decode_rune (take w s @ t) = (r, w)" "encode_rune r = take w s" "0 < w" "w \<le> length s" by auto
qed


lemma hex_val_digit: "n < 16 \<Longrightarrow> hex_val (digit_char n) = Some n"
proof -
  assume "n < 16"
  then consider "n < 10" "of_char (digit_char n) = 48 + n" | "10 \<le> n" "of_char (digit_char n) = 87 + n"
    by (cases "n < 10") (simp_all add: digit_char_def of_byte)
  then show ?thesis using \<open>n < 16\<close> by cases (simp_all add: hex_val_def)
qed

lemma hex_digits: fixes r :: nat assumes "r < 65536"
  shows "((r div 4096 mod 16 * 16 + r div 256 mod 16) * 16 + r div 16 mod 16) * 16 + r mod 16 = r"
proof -
  have q: "r div 256 = r div 16 div 16" "r div 4096 = r div 16 div 16 div 16" by (simp_all flip: div_mult2_eq)
  have "r div 16 div 16 div 16 < 16" using assms by (simp add: less_mult_imp_div_less)
  then show ?thesis unfolding q by (simp add: mult_div_mod_eq mult.commute)
qed

lemma getu4_hex4 [simp]: "r < 65536 \<Longrightarrow> getu4 (CHR 0x5C # CHR ''u'' # hex4 r @ t) = Some r"
  using hex_digits [of r] by (simp add: getu4_def hex4_def hex_val_digit)

lemma dec_token_hex4:
  assumes "r < 55296 \<or> 57343 < r" "r < 65536"
  shows "dec_token (CHR 0x5C # CHR ''u'' # hex4 r @ t) = Some (encode_rune r, 6)"
proof -
  have "\<not> (55296 \<le> r \<and> r \<le> 56319)" using assms(1) by linarith
  then show ?thesis using assms(2) by (cases "getu4 (drop 6 (CHR 0x5C # CHR ''u'' # hex4 r @ t))") (auto simp: dec_token_def)
qed

lemma enc_token_ascii:
  assumes "(of_char c :: nat) < 128"
  obtains out where "enc_token (c # u) = (out, 1)" "out \<noteq> []" "hd out \<noteq> CHR 0x22"
    "\<And>t. dec_token (out @ t) = Some ([c], length out)"
proof -
  let ?E = "{CHR 0x22, CHR 0x5C, CHR 0x08, CHR 0x0C, CHR 0x0A, CHR 0x0D, CHR 0x09}"
  consider "safe_byte c" | "\<not> safe_byte c" "c \<in> ?E" | "\<not> safe_byte c" "c \<notin> ?E" by blast
  then show thesis
  proof cases
    case 1
    then have "c \<noteq> CHR 0x22" "c \<noteq> CHR 0x5C" "\<not> (of_char c :: nat) < 32" by (auto simp: safe_byte_def)
    then show thesis using 1 assms by (intro that [of "[c]"]) (simp_all add: enc_token_def Let_def dec_token_def)
  next
    case 2
    have "\<exists>e. enc_token (c # u) = ([CHR 0x5C, e], 1) \<and> (\<forall>t. dec_token (CHR 0x5C # e # t) = Some ([c], 2))"
      using 2(2) by (elim insertE emptyE) (simp_all add: enc_token_def Let_def safe_byte_def dec_token_def)
    then obtain e where "enc_token (c # u) = ([CHR 0x5C, e], 1)" "\<And>t. dec_token (CHR 0x5C # e # t) = Some ([c], 2)"
      by blast
    then show thesis by (intro that [of "[CHR 0x5C, e]"]) simp_all
  next
    case 3
    have "dec_token (CHR 0x5C # CHR ''u'' # hex4 (of_char c) @ t) = Some ([c], 6)" for t
      using dec_token_hex4 [of "of_char c" t] assms by (simp add: encode_rune_def)
    then show thesis using 3 assms
      by (intro that [of "[CHR 0x5C, CHR ''u''] @ hex4 (of_char c)"]) (simp_all add: enc_token_def Let_def hex4_def)
  qed
qed

lemma enc_token_dec:
  assumes "s \<noteq> []" "decode_rune s = (r, k)" "\<not> (r = 65533 \<and> k = 1)"
  obtains out where "enc_token s = (out, k)" "0 < k" "out \<noteq> []" "hd out \<noteq> CHR 0x22"
    "\<And>t. dec_token (out @ t) = Some (take k s, length out)"
proof (cases "(of_char (hd s) :: nat) < 128")
  case True
  obtain c u where s: "s = c # u" using assms(1) by (cases s) auto
  have k: "k = 1" using True assms(2) by (auto simp: s decode_rune_def)
  obtain out where "enc_token (c # u) = (out, 1)" "out \<noteq> []" "hd out \<noteq> CHR 0x22"
    "\<And>t. dec_token (out @ t) = Some ([c], length out)" using enc_token_ascii [of c u] True s by auto
  then show thesis using that [of out] by (simp add: s k)
next
  case False
  note v = decode_rune_valid [OF assms(2,1,3)]
  obtain c u where s: "take k s = c # u" "(of_char c :: nat) \<ge> 128" using v assms(1) False by (cases s; cases k) auto
  show thesis
  proof (cases "r = 8232 \<or> r = 8233")
    case True
    have "dec_token (CHR 0x5C # CHR ''u'' # hex4 r @ t) = Some (take k s, 6)" for t
      using True v(2) by (subst dec_token_hex4) auto
    then show thesis using v(3) True False assms
      by (intro that [of "[CHR 0x5C, CHR ''u''] @ hex4 r"]) (auto simp: enc_token_def Let_def hex4_def)
  next
    case other: False
    have "c \<noteq> CHR 0x22" "c \<noteq> CHR 0x5C" using s(2) by auto
    moreover from this have "dec_token (take k s @ t) = Some (take k s, k)" for t
      using v(1) [of t] v(2) s(2) by (simp add: s(1) dec_token_def)
    moreover have "length (c # u) = k" using v(4) by (simp flip: s(1))
    ultimately show thesis using v(3,4) other False assms s
      by (intro that [of "take k s"]) (auto simp: enc_token_def Let_def min_def)
  qed
qed

lemma dec_enc_chars: "valid_utf8 s \<Longrightarrow> dec_chars (enc_chars s @ CHR 0x22 # t) = Some (s, t)"
proof (induction s rule: valid_utf8.induct)
  case (1 s)
  show ?case
  proof (cases "s = []")
    case True
    then show ?thesis by (simp add: enc_chars.simps dec_chars.simps)
  next
    case False
    obtain r k where d: "decode_rune s = (r, k)" by fastforce
    have v: "\<not> (r = 65533 \<and> k = 1)" "k \<noteq> 0 \<Longrightarrow> valid_utf8 (drop k s)"
      using 1(2) False d by (auto simp: valid_utf8.simps [of s])
    obtain out where o: "enc_token s = (out, k)" "0 < k" "out \<noteq> []" "hd out \<noteq> CHR 0x22"
      "\<And>t. dec_token (out @ t) = Some (take k s, length out)" using enc_token_dec [OF False d v(1)] by blast
    obtain c u where out: "out = c # u" "c \<noteq> CHR 0x22" using o(3,4) by (cases out) auto
    have "dec_chars (enc_chars (drop k s) @ CHR 0x22 # t) = Some (drop k s, t)"
      using 1(1) [OF False d [symmetric] refl] o(2) v(2) by simp
    moreover have "enc_chars s = out @ enc_chars (drop k s)" using False o(1,2) by (simp add: enc_chars.simps [of s])
    moreover have "dec_token (c # u @ enc_chars (drop k s) @ CHR 0x22 # t) = Some (take k s, length out)"
      using o(5) [of "enc_chars (drop k s) @ CHR 0x22 # t"] out by simp
    ultimately show ?thesis using out by (simp add: dec_chars.simps [of "c # _"])
  qed
qed

lemma unquote_quote [simp]: "valid_utf8 s \<Longrightarrow> unquote (quote s @ t) = Some (s, t)"
  by (simp add: unquote_def quote_def dec_enc_chars)

lemma dec_seq_Join:
  assumes "xs \<noteq> []" and "\<And>x t. x \<in> set xs \<Longrightarrow> p (enc x @ t) = Some (x, t)" and "e \<noteq> CHR '',''"
  shows "dec_seq p e (Join '','' (map enc xs) @ [e]) = Some xs"
  using assms(1,2)
proof (induction xs)
  case (Cons x xs)
  show ?case
  proof (cases "xs = []")
    case True
    then show ?thesis using Cons.prems by (simp add: dec_seq.simps)
  next
    case False
    then have "dec_seq p e (Join '','' (map enc xs) @ [e]) = Some xs" using Cons by simp
    moreover have "Join '','' (map enc (x # xs)) @ [e] = enc x @ CHR '','' # Join '','' (map enc xs) @ [e]"
      using False by (simp add: Join_Cons)
    ultimately show ?thesis using Cons.prems assms(3) by (simp add: dec_seq.simps [of p e "enc x @ _"])
  qed
qed simp

lemma Join_nonempty: "xs \<noteq> [] \<Longrightarrow> (\<And>x. enc x \<noteq> []) \<Longrightarrow> Join sep (map enc xs) \<noteq> []"
  by (cases xs rule: remdups_adj.cases) auto

lemma quote_nonempty: "quote s \<noteq> []" "quote_pair kv \<noteq> []"
  by (auto simp: quote_def quote_pair_def)

lemma unmarshal_marshal_list:
  assumes "\<And>x. x \<in> set xs \<Longrightarrow> valid_utf8 x"
  shows "unmarshal_list (marshal_list xs) = Some xs"
proof (cases "xs = []")
  case False
  then show ?thesis
    using dec_seq_Join [of xs unquote quote "CHR '']''"] Join_nonempty [of xs quote] assms
    by (simp add: unmarshal_list_def marshal_list_def quote_nonempty)
qed (simp add: unmarshal_list_def marshal_list_def)

lemma unmarshal_marshal_map:
  assumes "\<And>k v. (k, v) \<in> set m \<Longrightarrow> valid_utf8 k \<and> valid_utf8 v"
  shows "unmarshal_map (marshal_map m) = Some (sort_key fst m)"
proof (cases "m = []")
  case False
  then have ne: "sort_key fst m \<noteq> []" by (metis length_0_conv length_sort)
  have "dec_seq unquote_pair (CHR 0x7D) (Join '','' (map quote_pair (sort_key fst m)) @ [CHR 0x7D]) = Some (sort_key fst m)"
    using ne assms by (intro dec_seq_Join) (auto simp: unquote_pair_def quote_pair_def)
  then show ?thesis using False Join_nonempty [OF ne, of quote_pair]
    by (simp add: unmarshal_map_def marshal_map_def quote_nonempty)
qed (simp add: unmarshal_map_def marshal_map_def)

lemma valid_utf8_ascii: "is_ascii s \<Longrightarrow> valid_utf8 s"
proof (induction s)
  case (Cons c s)
  then show ?case by (subst valid_utf8.simps) (auto simp: decode_rune_def is_ascii_def)
qed simp

end
