(* ===== verification/Repo.thy ===== *)
theory Repo
  imports Prelude Domain Go_Json Go_Sort "HOL-Library.Product_Lexorder"
begin

text \<open>
  \<open>internal/repo\<close>: the \<open>builds\<close> and \<open>workers\<close> tables and the statements the
  repository runs on them. A table is the list of its rows in storage order. A timestamp
  column holds RFC 3339 text of second precision, written in UTC, so that text order is
  the order of the second counts the model stores (proved in \<open>Timestamps\<close>); \<open>args\<close> and \<open>instructions\<close> hold JSON text.

  The driver and the server behind it are not part of the repository. What they may do to a
  statement is the list \<open>faults\<close>: the statement is carried out, it is refused with an error
  and has no effect, or it is carried out and the answer is lost, so that the caller sees an
  error. An \<open>ORDER BY\<close> leaves the order of equal keys open; the sorting function is a
  parameter \<open>sortf\<close> of the operations that use it. Every operation runs under the
  repository's lock and is one atomic step; the wall clock \<open>now\<close> is an argument.
\<close>

subsection \<open>Tables\<close>

record build_row =
  c_id :: string
  c_status :: status
  c_fingerprint :: string
  c_worker_id :: string
  c_context_key :: string
  c_dockerfile :: string
  c_image_tag :: string
  c_args :: string
  c_logs :: string
  c_error :: string
  c_retry_count :: int
  c_max_retries :: int
  c_timeout_seconds :: int
  c_instructions :: string
  c_user_id :: string
  c_priority :: int
  c_cache_hit_rate :: float64
  c_created_at :: int
  c_updated_at :: int
  c_completed_at :: "int option"

record worker_row =
  w_id :: string
  w_hostname :: string
  w_ip :: string
  w_status :: string
  w_last_heartbeat :: int
  w_cache_keys :: string

datatype fault = Sound | Refused string | Unacked string

record database =
  builds :: "build_row list"
  workers :: "worker_row list"
  faults :: "fault list"

datatype repo_error = Driver string | NoRows | AlreadyClaimed

type_synonym 'a reply = "(repo_error, 'a) outcome \<times> database"

definition empty_db :: database where
  "empty_db = \<lparr>builds = [], workers = [], faults = []\<rparr>"

subsection \<open>Statements\<close>

definition run_stmt :: "(database \<Rightarrow> 'a reply) \<Rightarrow> database \<Rightarrow> 'a reply" where
  "run_stmt f d = (case faults d of
       [] \<Rightarrow> f d
     | Sound # fs \<Rightarrow> f (d\<lparr>faults := fs\<rparr>)
     | Refused e # fs \<Rightarrow> (Err (Driver e), d\<lparr>faults := fs\<rparr>)
     | Unacked e # fs \<Rightarrow> (Err (Driver e), snd (f (d\<lparr>faults := fs\<rparr>))))"

definition query :: "(database \<Rightarrow> 'a) \<Rightarrow> database \<Rightarrow> 'a reply" where
  "query q = run_stmt (\<lambda>d. (Ret (q d), d))"

text \<open>\<open>UPDATE builds SET \<dots> WHERE \<dots>\<close>, with the number of rows affected.\<close>

definition update_rows :: "(build_row \<Rightarrow> bool) \<Rightarrow> (build_row \<Rightarrow> build_row) \<Rightarrow> database \<Rightarrow> database" where
  "update_rows p g d = d\<lparr>builds := map (\<lambda>r. if p r then g r else r) (builds d)\<rparr>"

definition update_stmt :: "(build_row \<Rightarrow> bool) \<Rightarrow> (build_row \<Rightarrow> build_row) \<Rightarrow> database \<Rightarrow> nat reply" where
  "update_stmt p g = run_stmt (\<lambda>d. (Ret (length (filter p (builds d))), update_rows p g d))"

text \<open>\<open>Format(time.RFC3339)\<close> keeps the seconds, \<open>time.Parse\<close> restores them.\<close>

definition secs :: "time \<Rightarrow> int" where
  "secs t = t div 1000000000"

definition from_secs :: "int \<Rightarrow> time" where
  "from_secs s = s * 1000000000"

subsection \<open>Rows and builds\<close>

definition scan_row :: "build_row \<Rightarrow> build" where
  "scan_row r = \<lparr>ID = c_id r, Status = c_status r, Fingerprint = c_fingerprint r,
     WorkerID = c_worker_id r, ContextKey = c_context_key r, Dockerfile = c_dockerfile r,
     ImageTag = c_image_tag r,
     Args = (case unmarshal_map (c_args r) of Some m \<Rightarrow> m | None \<Rightarrow> []),
     Instructions = (case unmarshal_list (c_instructions r) of Some xs \<Rightarrow> xs | None \<Rightarrow> []),
     Logs = c_logs r, Error = c_error r, RetryCount = c_retry_count r,
     MaxRetries = c_max_retries r, TimeoutSeconds = c_timeout_seconds r, UserID = c_user_id r,
     Priority = c_priority r, CacheHitRate = c_cache_hit_rate r,
     CreatedAt = from_secs (c_created_at r), UpdatedAt = from_secs (c_updated_at r),
     CompletedAt = map_option from_secs (c_completed_at r)\<rparr>"

text \<open>The inserted row: \<open>logs\<close>, \<open>error\<close> and \<open>completed_at\<close> take their defaults.\<close>

definition new_row :: "build \<Rightarrow> build_row" where
  "new_row b = \<lparr>c_id = ID b, c_status = Status b, c_fingerprint = Fingerprint b,
     c_worker_id = WorkerID b, c_context_key = ContextKey b, c_dockerfile = Dockerfile b,
     c_image_tag = ImageTag b, c_args = marshal_map (Args b), c_logs = [], c_error = [],
     c_retry_count = RetryCount b, c_max_retries = MaxRetries b,
     c_timeout_seconds = TimeoutSeconds b, c_instructions = marshal_list (Instructions b),
     c_user_id = UserID b, c_priority = Priority b, c_cache_hit_rate = f32 (CacheHitRate b),
     c_created_at = secs (CreatedAt b), c_updated_at = secs (UpdatedAt b), c_completed_at = None\<rparr>"

text \<open>The caller's struct gets the timestamps even when the statement fails.\<close>

definition insertBuild :: "time \<Rightarrow> build \<Rightarrow> database \<Rightarrow> build \<times> unit reply" where
  "insertBuild now b d = (let b' = b\<lparr>CreatedAt := now, UpdatedAt := now\<rparr> in
     (b', run_stmt (\<lambda>d. if ID b' \<in> c_id ` set (builds d)
                         then (Err (Driver ''duplicate key value violates unique constraint''), d)
                         else (Ret (), d\<lparr>builds := builds d @ [new_row b']\<rparr>)) d))"

subsection \<open>BuildRepo\<close>

definition Create :: "time \<Rightarrow> build \<Rightarrow> database \<Rightarrow> build \<times> unit reply" where
  "Create now b d = insertBuild now b d"

definition row_of :: "database \<Rightarrow> string \<Rightarrow> build_row option" where
  "row_of d i = find (\<lambda>r. c_id r = i) (builds d)"

definition Get :: "string \<Rightarrow> database \<Rightarrow> build reply" where
  "Get i = run_stmt (\<lambda>d. (case row_of d i of Some r \<Rightarrow> Ret (scan_row r) | None \<Rightarrow> Err NoRows, d))"

text \<open>The helper \<open>listBuilds\<close> runs a query and scans its rows one by one.\<close>

fun scan_rows :: "build list \<Rightarrow> build_row list \<Rightarrow> build list" where
  "scan_rows bs [] = bs"
| "scan_rows bs (r # rs) = scan_rows (bs @ [scan_row r]) rs"

definition listBuilds_repo :: "(database \<Rightarrow> (repo_error, build_row list) outcome) \<Rightarrow> database \<Rightarrow> build list reply" where
  "listBuilds_repo q = run_stmt (\<lambda>d. (case q d of
       Err e \<Rightarrow> Err e
     | Panic \<Rightarrow> Panic
     | Ret rs \<Rightarrow> Ret (scan_rows [] rs), d))"

definition List :: "(build_row list \<Rightarrow> build_row list) \<Rightarrow> int \<Rightarrow> database \<Rightarrow> build list reply" where
  "List sortf limit = listBuilds_repo (\<lambda>d.
     if limit < 0 then Err (Driver ''LIMIT must not be negative'')
     else Ret (take (nat limit) (sortf (builds d))))"

definition list_key :: "build_row \<Rightarrow> int" where
  "list_key r = - c_created_at r"

definition is_pending :: "build_row \<Rightarrow> bool" where
  "is_pending r \<longleftrightarrow> c_status r = StatusPending"

definition pending_key :: "build_row \<Rightarrow> int \<times> int" where
  "pending_key r = (- c_priority r, c_created_at r)"

definition pending_rows :: "(build_row list \<Rightarrow> build_row list) \<Rightarrow> database \<Rightarrow> build_row list" where
  "pending_rows sortf d = take 100 (sortf (filter is_pending (builds d)))"

definition ListPending :: "(build_row list \<Rightarrow> build_row list) \<Rightarrow> database \<Rightarrow> build list reply" where
  "ListPending sortf = listBuilds_repo (\<lambda>d. Ret (pending_rows sortf d))"

text \<open>The condition and the assignment of the five \<open>UPDATE\<close> statements.\<close>

definition update_cond :: "string \<Rightarrow> status \<Rightarrow> build_row \<Rightarrow> bool" where
  "update_cond i st r \<longleftrightarrow> c_id r = i \<and>
     (if IsTerminal st then \<not> IsTerminal (c_status r)
      else if st = StatusBuilding then c_status r = ''pending''
      else True)"

definition update_set :: "int \<Rightarrow> status \<Rightarrow> string \<Rightarrow> string \<Rightarrow> string \<Rightarrow> build_row \<Rightarrow> build_row" where
  "update_set now st workerID logLine errMsg r =
     (if IsTerminal st then
        if workerID = [] then
          r\<lparr>c_status := st, c_logs := c_logs r @ logLine, c_error := errMsg,
            c_updated_at := now, c_completed_at := Some now\<rparr>
        else
          r\<lparr>c_status := st, c_worker_id := workerID, c_logs := c_logs r @ logLine, c_error := errMsg,
            c_updated_at := now, c_completed_at := Some now\<rparr>
      else if st = StatusBuilding then
        r\<lparr>c_status := st, c_worker_id := workerID, c_logs := c_logs r @ logLine, c_error := errMsg,
          c_updated_at := now\<rparr>
      else if st = [] then
        r\<lparr>c_logs := c_logs r @ logLine, c_updated_at := now\<rparr>
      else
        r\<lparr>c_status := st, c_worker_id := workerID, c_logs := c_logs r @ logLine, c_error := errMsg,
          c_updated_at := now\<rparr>)"

definition UpdateStatus :: "time \<Rightarrow> string \<Rightarrow> status \<Rightarrow> string \<Rightarrow> string \<Rightarrow> string \<Rightarrow> database \<Rightarrow> unit reply" where
  "UpdateStatus now i st workerID logLine errMsg d =
     (case update_stmt (update_cond i st) (update_set (secs now) st workerID logLine errMsg) d of
        (Err e, d') \<Rightarrow> (Err e, d')
      | (Panic, d') \<Rightarrow> (Panic, d')
      | (Ret n, d') \<Rightarrow> if st = StatusBuilding \<and> n = 0 then (Err AlreadyClaimed, d') else (Ret (), d'))"

definition count_where :: "(build_row \<Rightarrow> bool) \<Rightarrow> database \<Rightarrow> nat reply" where
  "count_where p = query (\<lambda>d. length (filter p (builds d)))"

definition CountPending :: "database \<Rightarrow> nat reply" where
  "CountPending = count_where is_pending"

definition CountAll :: "database \<Rightarrow> nat reply" where
  "CountAll = count_where (\<lambda>r. True)"

definition CountUserBuilding :: "string \<Rightarrow> database \<Rightarrow> nat reply" where
  "CountUserBuilding u = count_where (\<lambda>r. c_status r = StatusBuilding \<and> c_user_id r = u)"

definition CountUserDaily :: "time \<Rightarrow> string \<Rightarrow> database \<Rightarrow> nat reply" where
  "CountUserDaily now u = (let today = secs (now - now mod 86400000000000) in
     count_where (\<lambda>r. c_user_id r = u \<and> today \<le> c_created_at r))"

definition timed_out_cond :: "int \<Rightarrow> build_row \<Rightarrow> bool" where
  "timed_out_cond now r \<longleftrightarrow> c_status r = StatusBuilding \<and> c_timeout_seconds r < now - c_updated_at r"

definition timed_out_set :: "int \<Rightarrow> build_row \<Rightarrow> build_row" where
  "timed_out_set now r = r\<lparr>c_status := StatusTimedOut, c_error := ''build timed out'',
     c_updated_at := now, c_completed_at := Some now\<rparr>"

definition orphan_cond :: "worker_row list \<Rightarrow> int \<Rightarrow> build_row \<Rightarrow> bool" where
  "orphan_cond ws cutoff r \<longleftrightarrow> c_status r = StatusBuilding \<and>
     c_worker_id r \<in> w_id ` set (filter (\<lambda>w. w_last_heartbeat w < cutoff) ws)"

definition orphan_set :: "int \<Rightarrow> build_row \<Rightarrow> build_row" where
  "orphan_set now r = r\<lparr>c_status := StatusPending, c_worker_id := [], c_updated_at := now\<rparr>"

definition ReassignStale :: "time \<Rightarrow> int \<Rightarrow> int \<Rightarrow> database \<Rightarrow> unit reply" where
  "ReassignStale now workerTimeout buildTimeout d =
     (let n = secs now; cutoff = secs (now - workerTimeout) in
      case update_stmt (timed_out_cond n) (timed_out_set n) d of
        (Err e, d1) \<Rightarrow> (Err e, d1)
      | (Panic, d1) \<Rightarrow> (Panic, d1)
      | (Ret _, d1) \<Rightarrow>
         (case update_stmt (orphan_cond (workers d1) cutoff) (orphan_set n) d1 of
            (Err e, d2) \<Rightarrow> (Err e, d2)
          | (Panic, d2) \<Rightarrow> (Panic, d2)
          | (Ret _, d2) \<Rightarrow> (Ret (), d2)))"

text \<open>
  \<open>before.Format(time.RFC3339)\<close> writes the clock reading of the zone of \<open>before\<close>, which is
  \<open>tz\<close> seconds ahead of UTC; the column holds UTC text and the comparison is one of texts.
\<close>

definition gc_cond :: "int \<Rightarrow> build_row \<Rightarrow> bool" where
  "gc_cond cutoff r \<longleftrightarrow> IsTerminal (c_status r) \<and>
     (case c_completed_at r of None \<Rightarrow> False | Some t \<Rightarrow> t < cutoff)"

definition GC :: "int \<Rightarrow> time \<Rightarrow> database \<Rightarrow> nat reply" where
  "GC tz before = run_stmt (\<lambda>d. let p = gc_cond (secs before + tz) in
     (Ret (length (filter p (builds d))), d\<lparr>builds := filter (\<lambda>r. \<not> p r) (builds d)\<rparr>))"

definition SetCacheRate :: "string \<Rightarrow> float64 \<Rightarrow> database \<Rightarrow> unit reply" where
  "SetCacheRate i rate d =
     (case update_stmt (\<lambda>r. c_id r = i) (\<lambda>r. r\<lparr>c_cache_hit_rate := f32 rate\<rparr>) d of
        (Err e, d') \<Rightarrow> (Err e, d')
      | (Panic, d') \<Rightarrow> (Panic, d')
      | (Ret _, d') \<Rightarrow> (Ret (), d'))"

subsection \<open>WorkerRepo\<close>

definition new_worker_row :: "worker \<Rightarrow> worker_row" where
  "new_worker_row w = \<lparr>w_id = wID w, w_hostname = wHostname w, w_ip = wIP w, w_status = wStatus w,
     w_last_heartbeat = secs (wLastHeartbeat w), w_cache_keys = marshal_list (wCacheKeys w)\<rparr>"

definition Upsert :: "time \<Rightarrow> worker \<Rightarrow> database \<Rightarrow> worker \<times> unit reply" where
  "Upsert now w d = (let w' = w\<lparr>wLastHeartbeat := now\<rparr> in
     (w', run_stmt (\<lambda>d. (Ret (),
        if wID w' \<in> w_id ` set (workers d)
        then d\<lparr>workers := map (\<lambda>r. if w_id r = wID w' then new_worker_row w' else r) (workers d)\<rparr>
        else d\<lparr>workers := workers d @ [new_worker_row w']\<rparr>)) d))"

definition CountActive :: "time \<Rightarrow> int \<Rightarrow> database \<Rightarrow> nat reply" where
  "CountActive now maxAge = (let cutoff = secs (now - maxAge) in
     query (\<lambda>d. length (filter (\<lambda>w. cutoff < w_last_heartbeat w \<and> w_status w \<noteq> ''offline'') (workers d))))"

definition MarkOffline :: "time \<Rightarrow> int \<Rightarrow> database \<Rightarrow> unit reply" where
  "MarkOffline now maxAge = (let cutoff = secs (now - maxAge) in
     run_stmt (\<lambda>d. (Ret (), d\<lparr>workers := map (\<lambda>w.
       if w_last_heartbeat w < cutoff \<and> w_status w \<noteq> ''offline'' then w\<lparr>w_status := ''offline''\<rparr> else w)
       (workers d)\<rparr>)))"

subsection \<open>Facts on statements\<close>

lemma scan_rows_eq [simp]: "scan_rows bs rs = bs @ map scan_row rs"
  by (induction rs arbitrary: bs) simp_all

lemma ListPending_eq: "ListPending sortf = query (\<lambda>d. map scan_row (pending_rows sortf d))"
  by (simp add: ListPending_def listBuilds_repo_def query_def)

lemma List_eq: "List sortf limit = run_stmt (\<lambda>d. (if limit < 0 then Err (Driver ''LIMIT must not be negative'')
     else Ret (map scan_row (take (nat limit) (sortf (builds d)))), d))"
  unfolding List_def listBuilds_repo_def by (rule arg_cong [of _ _ run_stmt]) (auto simp: fun_eq_iff)

lemma faults_self [simp]: "faults d = [] \<Longrightarrow> d\<lparr>faults := []\<rparr> = d"
  by (cases d) simp

lemma run_stmt_Ret:
  assumes "run_stmt f d = (Ret x, d')"
  obtains fs where "f (d\<lparr>faults := fs\<rparr>) = (Ret x, d')"
proof (cases "faults d")
  case Nil
  then show thesis using assms that [of "[]"] by (simp add: run_stmt_def)
next
  case (Cons a fs)
  then show thesis using assms that [of fs] by (cases a) (simp_all add: run_stmt_def)
qed

text \<open>Whatever the driver does, the statement takes effect or changes nothing.\<close>

lemma run_stmt_state:
  obtains fs where "snd (run_stmt f d) = d\<lparr>faults := fs\<rparr>" | fs where "snd (run_stmt f d) = snd (f (d\<lparr>faults := fs\<rparr>))"
proof (cases "faults d")
  case Nil
  then show thesis using that(2) [of "[]"] by (simp add: run_stmt_def)
next
  case (Cons a fs)
  then show thesis using that(1) [of fs] that(2) [of fs] by (cases a) (simp_all add: run_stmt_def)
qed

lemma run_stmt_inv:
  assumes "P d" and "\<And>d. P d \<Longrightarrow> P (snd (f d))" and "\<And>d fs. P d \<Longrightarrow> P (d\<lparr>faults := fs\<rparr>)"
  shows "P (snd (run_stmt f d))"
  using assms by (cases f d rule: run_stmt_state) auto

lemma run_stmt_sound: "faults d = [] \<Longrightarrow> run_stmt f d = f d"
  by (simp add: run_stmt_def)

lemma query_Ret: "query q d = (Ret x, d') \<Longrightarrow> (\<exists>fs. x = q (d\<lparr>faults := fs\<rparr>)) \<and> builds d' = builds d \<and> workers d' = workers d"
  by (auto simp: query_def elim!: run_stmt_Ret)

lemma query_frame [frame]: "builds (snd (query q d)) = builds d" "workers (snd (query q d)) = workers d"
  unfolding query_def by (auto simp: run_stmt_def split: list.split fault.split)

lemma run_read_frame [frame]:
  "builds (snd (run_stmt (\<lambda>d. (g d, d)) d)) = builds d" "workers (snd (run_stmt (\<lambda>d. (g d, d)) d)) = workers d"
  by (auto simp: run_stmt_def split: list.split fault.split)

lemma update_rows_simps [simp]:
  "builds (update_rows p g d) = map (\<lambda>r. if p r then g r else r) (builds d)"
  "workers (update_rows p g d) = workers d" "faults (update_rows p g d) = faults d"
  by (simp_all add: update_rows_def)

lemma find_map_id:
  assumes "\<And>r. c_id (h r) = c_id r"
  shows "find (\<lambda>r. c_id r = i) (map h rs) = map_option h (find (\<lambda>r. c_id r = i) rs)"
  by (induction rs) (auto simp: assms)

lemma row_of_update:
  assumes "\<And>r. c_id (g r) = c_id r"
  shows "row_of (update_rows p g d) i = map_option (\<lambda>r. if p r then g r else r) (row_of d i)"
  unfolding row_of_def update_rows_simps by (rule find_map_id) (simp add: assms)

lemma row_of_faults [simp]: "row_of (d\<lparr>faults := fs\<rparr>) i = row_of d i"
  by (simp add: row_of_def)

lemma row_of_builds: "builds d = builds d' \<Longrightarrow> row_of d = row_of d'"
  by (rule ext) (simp add: row_of_def)

lemma row_of_id: "row_of d i = Some r \<Longrightarrow> c_id r = i \<and> r \<in> set (builds d)"
  by (auto simp: row_of_def find_Some_iff)

lemma row_of_None: "row_of d i = None \<longleftrightarrow> i \<notin> c_id ` set (builds d)"
  by (auto simp: row_of_def find_None_iff)

definition ids_ok :: "database \<Rightarrow> bool" where
  "ids_ok d \<longleftrightarrow> distinct (map c_id (builds d)) \<and> distinct (map w_id (workers d))"

lemma row_of_unique: "ids_ok d \<Longrightarrow> r \<in> set (builds d) \<Longrightarrow> row_of d (c_id r) = Some r"
proof -
  assume "ids_ok d" "r \<in> set (builds d)"
  then have "row_of d (c_id r) \<noteq> None" by (auto simp: row_of_None)
  then show ?thesis using \<open>ids_ok d\<close> \<open>r \<in> set (builds d)\<close> row_of_id [of d "c_id r"]
    by (auto simp: ids_ok_def distinct_map inj_on_def)
qed

text \<open>On a table with distinct keys an update of one row affects at most that row.\<close>

lemma affected_row:
  assumes "ids_ok d" and "\<And>r. p r \<Longrightarrow> c_id r = i"
  shows "length (filter p (builds d)) = (case row_of d i of Some r \<Rightarrow> if p r then 1 else 0 | None \<Rightarrow> 0)"
proof -
  have "length (filter p rs) = (case find (\<lambda>r. c_id r = i) rs of Some r \<Rightarrow> if p r then 1 else 0 | None \<Rightarrow> 0)"
    if "distinct (map c_id rs)" for rs
    using that
  proof (induction rs)
    case (Cons r rs)
    show ?case
    proof (cases "c_id r = i")
      case True
      then have "\<not> p r'" if "r' \<in> set rs" for r'
        using Cons.prems assms(2) [of r'] that by (metis distinct.simps(2) image_eqI list.map(2) list.set_map)
      then have "filter p rs = []" by (simp add: filter_empty_conv)
      then show ?thesis using True by simp
    next
      case False
      then show ?thesis using Cons assms(2) [of r] by auto
    qed
  qed simp
  then show ?thesis using assms(1) by (simp add: ids_ok_def row_of_def)
qed

lemma update_set_id [simp]: "c_id (update_set n st w l e r) = c_id r"
  by (simp add: update_set_def)

lemma timed_out_set_id [simp]: "c_id (timed_out_set n r) = c_id r"
  by (simp add: timed_out_set_def)

lemma orphan_set_id [simp]: "c_id (orphan_set n r) = c_id r"
  by (simp add: orphan_set_def)

lemma ids_ok_update: "ids_ok d \<Longrightarrow> (\<And>r. c_id (g r) = c_id r) \<Longrightarrow> ids_ok (update_rows p g d)"
  by (simp add: ids_ok_def comp_def if_distrib cong: if_cong)

lemma ids_ok_faults [simp]: "ids_ok (d\<lparr>faults := fs\<rparr>) \<longleftrightarrow> ids_ok d"
  by (simp add: ids_ok_def)

subsection \<open>The life of a row\<close>

text \<open>
  What a row keeps for ever, how its status may move, and what a finished build never
  changes again. The relation is reflexive and transitive, so it also bounds what a whole
  run of operations does to a row.
\<close>

definition fixed_cols :: "build_row \<Rightarrow> string list \<times> int list" where
  "fixed_cols r = ([c_id r, c_fingerprint r, c_context_key r, c_dockerfile r, c_image_tag r, c_args r,
     c_instructions r, c_user_id r],
    [c_retry_count r, c_max_retries r, c_timeout_seconds r, c_priority r, c_created_at r])"

definition verdict :: "build_row \<Rightarrow> status \<times> string \<times> string \<times> int option" where
  "verdict r = (c_status r, c_worker_id r, c_error r, c_completed_at r)"

definition life :: "status \<Rightarrow> status \<Rightarrow> bool" where
  "life st st' \<longleftrightarrow> st = st' \<or> {st, st'} \<subseteq> {StatusPending, StatusBuilding} \<or> \<not> IsTerminal st \<and> IsTerminal st'"

definition row_ok :: "build_row \<Rightarrow> bool" where
  "row_ok r \<longleftrightarrow> (c_status r = StatusPending \<or> c_status r = StatusBuilding \<or> IsTerminal (c_status r)) \<and>
     (c_completed_at r \<noteq> None \<longleftrightarrow> IsTerminal (c_status r))"

definition evolves :: "build_row \<Rightarrow> build_row \<Rightarrow> bool" where
  "evolves r r' \<longleftrightarrow> fixed_cols r' = fixed_cols r \<and> life (c_status r) (c_status r') \<and>
     (\<exists>l. c_logs r' = c_logs r @ l) \<and> (IsTerminal (c_status r) \<longrightarrow> verdict r' = verdict r) \<and>
     (row_ok r \<longrightarrow> row_ok r')"

definition db_evolves :: "database \<Rightarrow> database \<Rightarrow> bool" where
  "db_evolves d d' \<longleftrightarrow> (\<forall>i r. row_of d i = Some r \<longrightarrow> (\<exists>r'. row_of d' i = Some r' \<and> evolves r r'))"

lemma life_refl [simp]: "life st st"
  by (simp add: life_def)

lemma life_trans: "life a b \<Longrightarrow> life b c \<Longrightarrow> life a c"
  by (auto simp: life_def)

lemma evolves_refl [simp]: "evolves r r"
  by (simp add: evolves_def)

lemma evolves_trans: "evolves a b \<Longrightarrow> evolves b c \<Longrightarrow> evolves a c"
  by (auto simp: evolves_def verdict_def intro: life_trans)

lemma db_evolves_refl [simp]: "db_evolves d d"
  by (simp add: db_evolves_def)

lemma db_evolves_trans: "db_evolves a b \<Longrightarrow> db_evolves b c \<Longrightarrow> db_evolves a c"
  unfolding db_evolves_def using evolves_trans by blast

lemma db_evolves_same: "builds d' = builds d \<Longrightarrow> db_evolves d d'"
  by (simp add: db_evolves_def row_of_def)

lemma db_evolves_update:
  assumes "\<And>r. p r \<Longrightarrow> evolves r (g r)" and "\<And>r. c_id (g r) = c_id r"
  shows "db_evolves d (update_rows p g d)"
  using assms by (auto simp: db_evolves_def row_of_update)

lemma run_stmt_evolves:
  assumes "\<And>d. db_evolves d (snd (f d))"
  shows "db_evolves d (snd (run_stmt f d))"
proof (cases f d rule: run_stmt_state)
  case (1 fs)
  then show ?thesis by (simp add: db_evolves_same)
next
  case (2 fs)
  then show ?thesis using assms [of "d\<lparr>faults := fs\<rparr>"] by (simp add: db_evolves_def)
qed

text \<open>The statuses that the service passes for an append, a claim and a completion.\<close>

definition legal_status :: "status \<Rightarrow> bool" where
  "legal_status st \<longleftrightarrow> st = [] \<or> st = StatusBuilding \<or> IsTerminal st"

lemma update_set_evolves:
  assumes "legal_status st" and "update_cond i st r"
  shows "evolves r (update_set n st w l e r)"
proof -
  consider "IsTerminal st" "\<not> IsTerminal (c_status r)" | "st = StatusBuilding" "c_status r = StatusPending" | "st = []"
    using assms by (auto simp: legal_status_def update_cond_def StatusPending_def)
  then show ?thesis
    by cases (auto simp: evolves_def update_set_def fixed_cols_def life_def row_ok_def verdict_def)
qed

lemma update_stmt_snd: "snd (update_stmt p g d) = snd (run_stmt (\<lambda>d. (Ret (), update_rows p g d)) d)"
  by (simp add: update_stmt_def run_stmt_def split: list.split fault.split)

lemma update_stmt_evolves:
  assumes "\<And>r. p r \<Longrightarrow> evolves r (g r)" and "\<And>r. c_id (g r) = c_id r"
  shows "db_evolves d (snd (update_stmt p g d))"
  unfolding update_stmt_snd using db_evolves_update assms by (intro run_stmt_evolves) simp

lemma UpdateStatus_snd:
  "snd (UpdateStatus now i st w l e d) = snd (update_stmt (update_cond i st) (update_set (secs now) st w l e) d)"
  by (simp add: UpdateStatus_def split: prod.split outcome.split)

lemma UpdateStatus_evolves: "legal_status st \<Longrightarrow> db_evolves d (snd (UpdateStatus now i st w l e d))"
  unfolding UpdateStatus_snd by (rule update_stmt_evolves) (auto intro: update_set_evolves)

lemma Create_evolves: "db_evolves d (snd (snd (Create now b d)))"
  unfolding Create_def insertBuild_def Let_def snd_conv
  by (rule run_stmt_evolves) (auto simp: db_evolves_def row_of_def find_append)

lemma orphan_evolves: "orphan_cond ws cutoff r \<Longrightarrow> evolves r (orphan_set n r)"
  by (auto simp: orphan_cond_def orphan_set_def evolves_def fixed_cols_def life_def row_ok_def)

lemma timed_out_evolves: "timed_out_cond n r \<Longrightarrow> evolves r (timed_out_set n r)"
  by (auto simp: timed_out_cond_def timed_out_set_def evolves_def fixed_cols_def life_def row_ok_def)

text \<open>What both statements of \<open>ReassignStale\<close> keep, the operation keeps, wherever it stops.\<close>

lemma ReassignStale_inv:
  assumes "P d" and "\<And>d. P d \<Longrightarrow> P (snd (update_stmt (timed_out_cond (secs now)) (timed_out_set (secs now)) d))"
    and "\<And>d ws. P d \<Longrightarrow> P (snd (update_stmt (orphan_cond ws (secs (now - wt))) (orphan_set (secs now)) d))"
  shows "P (snd (ReassignStale now wt bt d))"
proof -
  obtain o1 d1 where 1: "update_stmt (timed_out_cond (secs now)) (timed_out_set (secs now)) d = (o1, d1)" by fastforce
  obtain o2 d2 where 2: "update_stmt (orphan_cond (workers d1) (secs (now - wt))) (orphan_set (secs now)) d1 = (o2, d2)" by fastforce
  have "P d1" "P d2" using assms(2) [OF assms(1)] 1 assms(3) [of d1 "workers d1"] 2 by simp_all
  then show ?thesis using 1 2 by (auto simp: ReassignStale_def Let_def split: outcome.split)
qed

lemma ReassignStale_evolves: "db_evolves d (snd (ReassignStale now wt bt d))"
proof (rule ReassignStale_inv [where P = "db_evolves d"])
  fix d' ws assume "db_evolves d d'"
  moreover have "db_evolves d' (snd (update_stmt (timed_out_cond (secs now)) (timed_out_set (secs now)) d'))"
    "db_evolves d' (snd (update_stmt (orphan_cond ws (secs (now - wt))) (orphan_set (secs now)) d'))"
    by (rule update_stmt_evolves; simp add: timed_out_evolves orphan_evolves)+
  ultimately show "db_evolves d (snd (update_stmt (timed_out_cond (secs now)) (timed_out_set (secs now)) d'))"
    "db_evolves d (snd (update_stmt (orphan_cond ws (secs (now - wt))) (orphan_set (secs now)) d'))"
    using db_evolves_trans by blast+
qed simp

lemma SetCacheRate_evolves: "db_evolves d (snd (SetCacheRate i x d))"
proof -
  have "db_evolves d (snd (update_stmt (\<lambda>r. c_id r = i) (\<lambda>r. r\<lparr>c_cache_hit_rate := f32 x\<rparr>) d))"
    by (rule update_stmt_evolves) (auto simp: evolves_def fixed_cols_def verdict_def row_ok_def)
  then show ?thesis by (auto simp: SetCacheRate_def split: prod.split outcome.split)
qed

text \<open>Every row of the table is well formed.\<close>

definition rows_ok :: "database \<Rightarrow> bool" where
  "rows_ok d \<longleftrightarrow> (\<forall>r \<in> set (builds d). row_ok r)"

lemma rows_ok_run_stmt: "rows_ok d \<Longrightarrow> (\<And>d. rows_ok d \<Longrightarrow> rows_ok (snd (f d))) \<Longrightarrow> rows_ok (snd (run_stmt f d))"
  by (rule run_stmt_inv) (auto simp: rows_ok_def)

lemma update_stmt_rows:
  assumes "rows_ok d" and "\<And>r. p r \<Longrightarrow> evolves r (g r)"
  shows "rows_ok (snd (update_stmt p g d))"
  unfolding update_stmt_snd using assms by (intro rows_ok_run_stmt) (auto simp: rows_ok_def evolves_def)

lemma UpdateStatus_rows: "legal_status st \<Longrightarrow> rows_ok d \<Longrightarrow> rows_ok (snd (UpdateStatus now i st w l e d))"
  unfolding UpdateStatus_snd by (rule update_stmt_rows) (auto intro: update_set_evolves)

lemma Create_rows: "Status b = StatusPending \<Longrightarrow> rows_ok d \<Longrightarrow> rows_ok (snd (snd (Create now b d)))"
  unfolding Create_def insertBuild_def Let_def snd_conv
  by (rule rows_ok_run_stmt) (auto simp: rows_ok_def new_row_def row_ok_def)

lemma ReassignStale_rows_ok: "rows_ok d \<Longrightarrow> rows_ok (snd (ReassignStale now wt bt d))"
  by (rule ReassignStale_inv) (auto intro: update_stmt_rows timed_out_evolves orphan_evolves)

lemma rows_ok_same: "builds d' = builds d \<Longrightarrow> rows_ok d \<Longrightarrow> rows_ok d'"
  by (simp add: rows_ok_def)

lemma read_rows: "rows_ok d \<Longrightarrow> rows_ok (snd (Get i d))" "rows_ok d \<Longrightarrow> rows_ok (snd (ListPending sortf d))"
  unfolding Get_def ListPending_eq by (erule rows_ok_same [rotated], rule frame)+

lemma GC_rows_ok: "rows_ok d \<Longrightarrow> rows_ok (snd (GC tz before d))"
  unfolding GC_def Let_def by (rule rows_ok_run_stmt) (auto simp: rows_ok_def)

lemma read_evolves [simp]:
  "db_evolves d (snd (Get i d))" "db_evolves d (snd (ListPending sortf d))" "db_evolves d (snd (List sortf n d))"
  unfolding Get_def ListPending_eq List_eq
  by (intro db_evolves_same frame)+

subsection \<open>Correctness of the repository\<close>

text \<open>The rows a listing leaves out come after the rows it returns.\<close>

lemma take_sorted_rest:
  assumes "sorter key sortf" and "r \<in> set xs" and "r \<notin> set (take n (sortf xs))" and "s \<in> set (take n (sortf xs))"
  shows "key s \<le> key r"
proof -
  have srt: "sorted (map key (take n (sortf xs) @ drop n (sortf xs)))"
    using sorter.sort_sorted [OF assms(1)] by simp
  have "r \<in> set (take n (sortf xs) @ drop n (sortf xs))" using assms(2) sorter.sort_set [OF assms(1)] by simp
  then have "r \<in> set (drop n (sortf xs))" using assms(3) by (simp only: set_append Un_iff) simp
  then show ?thesis using srt assms(4) unfolding map_append sorted_append by simp
qed

lemma take_sorted:
  assumes "sorter key sortf"
  shows "sorted (map key (take n (sortf xs)))" "set (take n (sortf xs)) \<subseteq> set xs" "length (take n (sortf xs)) = min n (length xs)"
  using sorter.sort_sorted [OF assms, of xs] sorter.sort_set [OF assms, of xs] sorter.sort_length [OF assms, of xs]
  by (auto simp flip: take_map dest: in_set_takeD intro: sorted_wrt_take)

lemma scan_row_simps [simp]:
  "ID (scan_row r) = c_id r" "Status (scan_row r) = c_status r" "WorkerID (scan_row r) = c_worker_id r"
  "Priority (scan_row r) = c_priority r" "Fingerprint (scan_row r) = c_fingerprint r"
  by (simp_all add: scan_row_def)

lemma ListPending_Ret:
  assumes "ListPending sortf d = (Ret bs, d')"
  shows "bs = map scan_row (pending_rows sortf d)" "builds d' = builds d" "workers d' = workers d"
  using query_Ret assms unfolding ListPending_eq by (fastforce simp: pending_rows_def)+

lemma Get_Ret: "Get i d = (Ret b, d') \<Longrightarrow> (\<exists>r. row_of d i = Some r \<and> b = scan_row r) \<and> builds d' = builds d"
  unfolding Get_def by (elim run_stmt_Ret) (auto split: option.splits)

text \<open>A claim that reports success found the row pending; a claim of another row is
  independent of it.\<close>

lemma UpdateStatus_row:
  assumes "UpdateStatus now i st w l e d = (Ret (), d')"
  shows "row_of d' j = (if j = i then map_option (\<lambda>r. if update_cond i st r then update_set (secs now) st w l e r else r) (row_of d i)
                        else row_of d j)"
proof -
  obtain n where "update_stmt (update_cond i st) (update_set (secs now) st w l e) d = (Ret n, d')"
    using assms by (auto simp: UpdateStatus_def split: prod.splits outcome.splits if_splits)
  then obtain fs where d': "d' = update_rows (update_cond i st) (update_set (secs now) st w l e) (d\<lparr>faults := fs\<rparr>)"
    by (auto simp: update_stmt_def elim!: run_stmt_Ret)
  have "\<not> update_cond i st r" if "row_of d j = Some r" "j \<noteq> i" for r
    using that row_of_id [of d j r] by (auto simp: update_cond_def)
  then show ?thesis unfolding d' by (cases "row_of d j") (auto simp: row_of_update)
qed

lemma UpdateStatus_claim:
  assumes "ids_ok d" and "UpdateStatus now i StatusBuilding w l e d = (Ret (), d')"
  obtains r where "row_of d i = Some r" "c_status r = StatusPending"
proof -
  obtain n where u: "update_stmt (update_cond i StatusBuilding) (update_set (secs now) StatusBuilding w l e) d = (Ret n, d')" "n \<noteq> 0"
    using assms(2) by (auto simp: UpdateStatus_def split: prod.splits outcome.splits if_splits)
  then have "n = length (filter (update_cond i StatusBuilding) (builds d))"
    by (auto simp: update_stmt_def elim!: run_stmt_Ret)
  then show thesis using u(2) affected_row [OF assms(1), of "update_cond i StatusBuilding" i] that
    by (auto simp: update_cond_def StatusPending_def split: option.splits if_splits)
qed

lemma UpdateStatus_sound:
  assumes "faults d = []" "ids_ok d"
  shows "UpdateStatus now i st w l e d =
    (if st = StatusBuilding \<and> (\<forall>r. row_of d i = Some r \<longrightarrow> c_status r \<noteq> StatusPending) then Err AlreadyClaimed else Ret (),
     update_rows (update_cond i st) (update_set (secs now) st w l e) d)"
  using affected_row [OF assms(2), of "update_cond i StatusBuilding" i] row_of_id [of d i]
  by (auto simp: UpdateStatus_def update_stmt_def run_stmt_sound assms(1) update_cond_def StatusPending_def split: option.splits if_splits)

lemma ids_ok_run_stmt: "ids_ok d \<Longrightarrow> (\<And>d. ids_ok d \<Longrightarrow> ids_ok (snd (f d))) \<Longrightarrow> ids_ok (snd (run_stmt f d))"
  by (rule run_stmt_inv) auto

lemma ids_ok_update_stmt:
  "ids_ok d \<Longrightarrow> (\<And>r. c_id (g r) = c_id r) \<Longrightarrow> ids_ok (snd (update_stmt p g d))"
  unfolding update_stmt_snd by (rule ids_ok_run_stmt) (simp_all add: ids_ok_update)

lemma UpdateStatus_ids: "ids_ok d \<Longrightarrow> ids_ok (snd (UpdateStatus now i st w l e d))"
  unfolding UpdateStatus_snd by (simp add: ids_ok_update_stmt)

lemma Create_ids: "ids_ok d \<Longrightarrow> ids_ok (snd (snd (Create now b d)))"
  unfolding Create_def insertBuild_def Let_def snd_conv
  by (rule ids_ok_run_stmt) (auto simp: ids_ok_def new_row_def)

lemma ids_ok_same: "ids_ok d \<Longrightarrow> builds d' = builds d \<Longrightarrow> workers d' = workers d \<Longrightarrow> ids_ok d'"
  by (simp add: ids_ok_def)

lemma read_ids:
  "ids_ok d \<Longrightarrow> ids_ok (snd (Get i d))" "ids_ok d \<Longrightarrow> ids_ok (snd (ListPending sortf d))"
  unfolding Get_def ListPending_eq by (erule ids_ok_same; rule frame)+

lemma ReassignStale_ids: "ids_ok d \<Longrightarrow> ids_ok (snd (ReassignStale now wt bt d))"
  by (rule ReassignStale_inv) (simp_all add: ids_ok_update_stmt)

lemma GC_ids: "ids_ok d \<Longrightarrow> ids_ok (snd (GC tz before d))"
  unfolding GC_def Let_def by (rule ids_ok_run_stmt) (auto simp: ids_ok_def distinct_map_filter)

lemma SetCacheRate_ids: "ids_ok d \<Longrightarrow> ids_ok (snd (SetCacheRate i x d))"
  using ids_ok_update_stmt [of d "\<lambda>r. r\<lparr>c_cache_hit_rate := f32 x\<rparr>" "\<lambda>r. c_id r = i"]
  by (auto simp: SetCacheRate_def split: prod.split outcome.split)

lemma new_worker_row_id [simp]: "w_id (new_worker_row w) = wID w"
  by (simp add: new_worker_row_def)

lemma map_upsert_id:
  "wID v = x \<Longrightarrow> map w_id (map (\<lambda>r. if w_id r = x then new_worker_row v else r) rs) = map w_id rs"
  by (induction rs) auto

lemma Upsert_ids: "ids_ok d \<Longrightarrow> ids_ok (snd (snd (Upsert now w d)))"
  unfolding Upsert_def Let_def snd_conv
  by (rule ids_ok_run_stmt) (auto simp: ids_ok_def map_upsert_id simp del: map_map)

lemma MarkOffline_ids: "ids_ok d \<Longrightarrow> ids_ok (snd (MarkOffline now age d))"
  unfolding MarkOffline_def Let_def by (rule ids_ok_run_stmt) (auto simp: ids_ok_def comp_def if_distrib cong: if_cong)

lemma ids_ok_empty [simp]: "ids_ok empty_db"
  by (simp add: ids_ok_def empty_db_def)

text \<open>A pending build and a database that holds it, for the concrete instances.\<close>

definition sample :: build where
  "sample = zero_build\<lparr>ID := ''b1'', Status := StatusPending, Fingerprint := hex [171, 205], Instructions := [''RUN make''],
     Args := [(''V'', ''1''), (''A'', ''2'')], TimeoutSeconds := 600, CacheHitRate := -1\<rparr>"

definition sample_db :: database where
  "sample_db = snd (snd (Create 1700000000500000000 sample empty_db))"

lemma sample_db_eq: "sample_db = \<lparr>builds = [new_row (sample\<lparr>CreatedAt := 1700000000500000000, UpdatedAt := 1700000000500000000\<rparr>)],
   workers = [], faults = []\<rparr>"
  by (simp add: sample_db_def Create_def insertBuild_def run_stmt_def empty_db_def Let_def)

lemma sample_db_row: "row_of sample_db ''b1'' = Some (new_row (sample\<lparr>CreatedAt := 1700000000500000000, UpdatedAt := 1700000000500000000\<rparr>))"
  by (simp add: sample_db_eq row_of_def new_row_def sample_def)

lemma sample_db_ok [simp]: "ids_ok sample_db" "faults sample_db = []" "workers sample_db = []"
  by (simp_all add: sample_db_eq ids_ok_def)

text \<open>(C20) A build that is created can be read back: identifier, status, Dockerfile, arguments
  and instructions are those of the caller, the arguments in key order, the timestamps cut to
  seconds, the log and the error empty, the rate rounded to the column's single precision.\<close>

theorem Create_Get_roundtrip:
  assumes "faults d = []" and "ID b \<notin> c_id ` set (builds d)"
    and "\<forall>x \<in> set (Instructions b). valid_utf8 x" and "\<forall>(k, v) \<in> set (Args b). valid_utf8 k \<and> valid_utf8 v"
  shows "case Create now b d of (b', r, d') \<Rightarrow>
    r = Ret () \<and> b' = b\<lparr>CreatedAt := now, UpdatedAt := now\<rparr> \<and>
    fst (Get (ID b) d') = Ret (b\<lparr>Args := sort_key fst (Args b), Logs := [], Error := [],
      CacheHitRate := f32 (CacheHitRate b), CreatedAt := now div 1000000000 * 1000000000,
      UpdatedAt := now div 1000000000 * 1000000000, CompletedAt := None\<rparr>)"
proof -
  have "unmarshal_list (marshal_list (Instructions b)) = Some (Instructions b)"
    using assms(3) by (intro unmarshal_marshal_list) blast
  moreover have "unmarshal_map (marshal_map (Args b)) = Some (sort_key fst (Args b))"
    using assms(4) by (intro unmarshal_marshal_map) auto
  moreover have "find (\<lambda>r. c_id r = ID b) (builds d) = None" using assms(2) by (force simp: find_None_iff)
  ultimately show ?thesis
    by (simp add: Create_def insertBuild_def Let_def run_stmt_sound assms(1,2) Get_def row_of_def find_append
        new_row_def scan_row_def secs_def from_secs_def)
qed

theorem Create_Get_roundtrip_witness:
  "case Create 1700000000500000000 sample empty_db of (b', r, d') \<Rightarrow>
     r = Ret () \<and> Args sample = [(''V'', ''1''), (''A'', ''2'')] \<and>
     (\<exists>b. fst (Get ''b1'' d') = Ret b \<and> Args b = [(''A'', ''2''), (''V'', ''1'')] \<and> Instructions b = [''RUN make''])"
proof -
  have "valid_utf8 ''RUN make'' \<and> valid_utf8 ''V'' \<and> valid_utf8 ''1'' \<and> valid_utf8 ''A'' \<and> valid_utf8 ''2''"
    by (intro conjI valid_utf8_ascii) (simp_all add: is_ascii_def)
  moreover have "sort_key fst [(''V'', ''1''), (''A'', ''2'')] = [(''A'', ''2''), (''V'', ''1'')]" by code_simp
  ultimately show ?thesis
    using Create_Get_roundtrip [of empty_db sample 1700000000500000000]
    by (auto simp: empty_db_def sample_def split: prod.splits)
qed

text \<open>(C10) Claims are exclusive. A claim that reports success found the build pending, leaves it
  building on the claiming worker and touches no other build; a second claim of the build, by any
  worker at any later time, then fails, whatever the driver does to either statement.\<close>

theorem claim_exclusive:
  assumes "ids_ok d" and "UpdateStatus now i StatusBuilding w l e d = (Ret (), d')"
  shows "(\<exists>r. row_of d i = Some r \<and> c_status r = StatusPending \<and>
            row_of d' i = Some (r\<lparr>c_status := StatusBuilding, c_worker_id := w, c_logs := c_logs r @ l,
              c_error := e, c_updated_at := secs now\<rparr>)) \<and>
    (\<forall>j. j \<noteq> i \<longrightarrow> row_of d' j = row_of d j) \<and>
    fst (UpdateStatus now' i StatusBuilding w' l' e' d') \<noteq> Ret ()"
proof -
  obtain r where r: "row_of d i = Some r" "c_status r = StatusPending" using UpdateStatus_claim [OF assms] .
  have id': "ids_ok d'" using UpdateStatus_ids [OF assms(1), of now i StatusBuilding w l e] assms(2) by simp
  have row: "row_of d' i = Some (update_set (secs now) StatusBuilding w l e r)"
    using UpdateStatus_row [OF assms(2), of i] r row_of_id [OF r(1)] by (simp add: update_cond_def StatusPending_def)
  have "fst (UpdateStatus now' i StatusBuilding w' l' e' d') \<noteq> Ret ()"
  proof
    assume "fst (UpdateStatus now' i StatusBuilding w' l' e' d') = Ret ()"
    then obtain d2 where "UpdateStatus now' i StatusBuilding w' l' e' d' = (Ret (), d2)" by (metis prod.collapse)
    from UpdateStatus_claim [OF id' this] show False using row by (auto simp: update_set_def)
  qed
  then show ?thesis using r row UpdateStatus_row [OF assms(2)] by (simp add: update_set_def)
qed

theorem claim_exclusive_witness:
  "fst (UpdateStatus 7 ''b1'' StatusBuilding ''w2'' [] []
      (snd (UpdateStatus 5 ''b1'' StatusBuilding ''w1'' [] [] sample_db))) \<noteq> Ret ()"
proof -
  have "fst (UpdateStatus 5 ''b1'' StatusBuilding ''w1'' [] [] sample_db) = Ret ()"
    by (simp add: UpdateStatus_sound sample_db_row new_row_def sample_def)
  then show ?thesis
    using claim_exclusive [of sample_db 5 "''b1''" "''w1''" "[]" "[]"] by (simp add: prod_eq_iff)
qed

text \<open>(C21) \<open>ListPending\<close> returns the pending builds in order of decreasing priority and, within a
  priority, increasing creation time, at most one hundred of them; a pending build that it leaves
  out does not come before any build that it returns. Neither table changes.\<close>

theorem ListPending_best:
  assumes "sorter pending_key sortf" and "ListPending sortf d = (Ret bs, d')"
  shows "\<exists>rs. bs = map scan_row rs \<and> set rs \<subseteq> {r \<in> set (builds d). c_status r = StatusPending} \<and>
    length rs = min 100 (length (filter is_pending (builds d))) \<and>
    sorted (map (\<lambda>r. (- c_priority r, c_created_at r)) rs) \<and>
    (\<forall>r \<in> set (builds d). c_status r = StatusPending \<longrightarrow> r \<notin> set rs \<longrightarrow>
       (\<forall>s \<in> set rs. c_priority r < c_priority s \<or> c_priority r = c_priority s \<and> c_created_at s \<le> c_created_at r)) \<and>
    builds d' = builds d \<and> workers d' = workers d"
proof -
  let ?rs = "pending_rows sortf d"
  have rest: "pending_key s \<le> pending_key r"
    if "r \<in> set (builds d)" "c_status r = StatusPending" "r \<notin> set ?rs" "s \<in> set ?rs" for r s
    using take_sorted_rest [OF assms(1), of r "filter is_pending (builds d)" 100 s] that
    by (simp add: pending_rows_def is_pending_def)
  have "sorted (map pending_key ?rs)" "set ?rs \<subseteq> set (filter is_pending (builds d))"
    "length ?rs = min 100 (length (filter is_pending (builds d)))"
    unfolding pending_rows_def by (rule take_sorted [OF assms(1)])+
  moreover have "pending_key = (\<lambda>r. (- c_priority r, c_created_at r))" by (rule ext) (simp add: pending_key_def)
  ultimately show ?thesis using ListPending_Ret [OF assms(2)] rest
    by (intro exI [of _ ?rs]) (fastforce simp: is_pending_def pending_key_def)
qed

theorem ListPending_best_witness:
  "map ID (case fst (ListPending (sort_key pending_key) sample_db) of Ret bs \<Rightarrow> bs | _ \<Rightarrow> []) = [''b1'']"
proof -
  let ?bs = "map scan_row (pending_rows (sort_key pending_key) sample_db)"
  have eq: "ListPending (sort_key pending_key) sample_db = (Ret ?bs, sample_db)"
    by (simp add: ListPending_eq query_def run_stmt_sound)
  obtain rs where rs: "?bs = map scan_row rs" "set rs \<subseteq> {r \<in> set (builds sample_db). c_status r = StatusPending}"
    "length rs = min 100 (length (filter is_pending (builds sample_db)))"
    using ListPending_best [OF stable.sorter_axioms eq] by blast
  then have "length rs = 1" by (simp add: sample_db_eq is_pending_def new_row_def sample_def)
  then obtain r where "rs = [r]" by (auto simp: length_Suc_conv)
  then show ?thesis using rs eq by (simp add: sample_db_eq new_row_def sample_def)
qed

lemma ReassignStale_sound:
  assumes "faults d = []"
  shows "ReassignStale now wt bt d = (Ret (), update_rows (orphan_cond (workers d) (secs (now - wt))) (orphan_set (secs now))
    (update_rows (timed_out_cond (secs now)) (timed_out_set (secs now)) d))"
  by (simp add: ReassignStale_def Let_def update_stmt_def run_stmt_sound assms)

lemma find_filter_id:
  assumes "distinct (map c_id rs)"
  shows "find (\<lambda>r. c_id r = i) (filter (\<lambda>r. \<not> p r) rs) =
    (case find (\<lambda>r. c_id r = i) rs of None \<Rightarrow> None | Some r \<Rightarrow> if p r then None else Some r)"
  using assms
proof (induction rs)
  case (Cons r rs)
  show ?case
  proof (cases "c_id r = i")
    case True
    then have "find (\<lambda>r. c_id r = i) rs = None" using Cons.prems by (simp add: find_None_iff) (metis image_eqI)
    then show ?thesis using Cons True by simp
  qed (use Cons in simp)
qed simp

text \<open>(C22) \<open>ReassignStale\<close> on a database that answers: a build that is not building is untouched; a
  build that has seen no update for longer than its timeout becomes timed out and completed; any
  other build whose worker has sent no heartbeat within the worker timeout becomes pending again
  without a worker; every other build is untouched. The build timeout argument has no effect.\<close>

theorem ReassignStale_rows:
  assumes "faults d = []" and "row_of d i = Some r"
  shows "fst (ReassignStale now wt bt d) = Ret () \<and>
    row_of (snd (ReassignStale now wt bt d)) i =
      (if c_status r \<noteq> StatusBuilding then Some r
       else if c_timeout_seconds r < secs now - c_updated_at r then
         Some (r\<lparr>c_status := StatusTimedOut, c_error := ''build timed out'', c_updated_at := secs now,
           c_completed_at := Some (secs now)\<rparr>)
       else if \<exists>w \<in> set (workers d). w_id w = c_worker_id r \<and> w_last_heartbeat w < secs (now - wt) then
         Some (r\<lparr>c_status := StatusPending, c_worker_id := [], c_updated_at := secs now\<rparr>)
       else Some r)"
proof -
  have "(\<exists>w \<in> set (workers d). w_id w = c_worker_id r \<and> w_last_heartbeat w < secs (now - wt)) \<longleftrightarrow>
      c_worker_id r \<in> w_id ` set (filter (\<lambda>w. w_last_heartbeat w < secs (now - wt)) (workers d))" by force
  then show ?thesis using assms(2) ReassignStale_sound [OF assms(1)]
    by (simp add: row_of_update timed_out_cond_def timed_out_set_def orphan_cond_def orphan_set_def)
qed

theorem ReassignStale_rows_witness:
  "\<exists>r. row_of (snd (ReassignStale 1700000900000000000 60000000000 0
          (snd (UpdateStatus 1700000001000000000 ''b1'' StatusBuilding ''w1'' [] [] sample_db)))) ''b1'' = Some r \<and>
       c_status r = StatusTimedOut \<and> c_completed_at r = Some 1700000900"
proof -
  let ?d = "snd (UpdateStatus 1700000001000000000 ''b1'' StatusBuilding ''w1'' [] [] sample_db)"
  let ?r = "update_set 1700000001 StatusBuilding ''w1'' [] [] (new_row (sample\<lparr>CreatedAt := 1700000000500000000, UpdatedAt := 1700000000500000000\<rparr>))"
  have d: "faults ?d = []" "row_of ?d ''b1'' = Some ?r"
    by (simp_all add: UpdateStatus_sound row_of_update sample_db_row update_cond_def new_row_def sample_def secs_def StatusPending_def)
  then show ?thesis using ReassignStale_rows [OF d, of 1700000900000000000 60000000000 0]
    by (simp add: update_set_def new_row_def sample_def secs_def)
qed

text \<open>A build whose log keeps growing never times out: after a log line at \<open>t\<close>, the
  reassignment at \<open>t'\<close> marks the build timed out only when more than \<open>timeout_seconds\<close> have
  passed since \<open>t\<close>, however long ago the build started.\<close>

theorem log_line_extends_timeout:
  assumes "faults d = []" and "ids_ok d" and "row_of d i = Some r" and "c_status r = StatusBuilding"
    and "secs t' - secs t \<le> c_timeout_seconds r"
    and "\<forall>w \<in> set (workers d). w_id w = c_worker_id r \<longrightarrow> secs (t' - wt) \<le> w_last_heartbeat w"
  shows "\<exists>r'. row_of (snd (ReassignStale t' wt bt (snd (UpdateStatus t i [] [] line [] d)))) i = Some r' \<and>
    c_status r' = StatusBuilding \<and> c_worker_id r' = c_worker_id r"
proof -
  let ?d = "snd (UpdateStatus t i [] [] line [] d)"
  have row: "row_of ?d i = Some (update_set (secs t) [] [] line [] r)" and f: "faults ?d = []" and w: "workers ?d = workers d"
    using assms(1-3) row_of_id [OF assms(3)] by (simp_all add: UpdateStatus_sound row_of_update update_cond_def)
  have "\<not> timed_out_cond (secs t') (update_set (secs t) [] [] line [] r)"
    using assms(4,5) by (simp add: timed_out_cond_def update_set_def)
  moreover have "\<not> orphan_cond (workers d) (secs (t' - wt)) (update_set (secs t) [] [] line [] r)"
    using assms(6) by (fastforce simp: orphan_cond_def update_set_def)
  ultimately show ?thesis using assms(4) by (simp add: ReassignStale_sound [OF f] row_of_update row w) (simp add: update_set_def)
qed

theorem log_line_extends_timeout_witness:
  "\<exists>r. row_of (snd (ReassignStale 1700001100000000000 60000000000 0 (snd (UpdateStatus 1700000590000000000 ''b1'' [] [] ''line'' []
          (snd (UpdateStatus 1700000001000000000 ''b1'' StatusBuilding ''w1'' [] [] sample_db)))))) ''b1'' = Some r \<and>
       c_status r = StatusBuilding \<and> c_worker_id r = ''w1''"
proof -
  let ?d = "snd (UpdateStatus 1700000001000000000 ''b1'' StatusBuilding ''w1'' [] [] sample_db)"
  let ?r = "update_set 1700000001 StatusBuilding ''w1'' [] [] (new_row (sample\<lparr>CreatedAt := 1700000000500000000, UpdatedAt := 1700000000500000000\<rparr>))"
  have d: "faults ?d = []" "ids_ok ?d" "row_of ?d ''b1'' = Some ?r" "workers ?d = []"
    by (simp_all add: UpdateStatus_ids)
      (simp_all add: UpdateStatus_sound row_of_update sample_db_row update_cond_def new_row_def sample_def secs_def StatusPending_def)
  show ?thesis using log_line_extends_timeout [OF d(1,2,3), of 1700001100000000000 1700000590000000000 60000000000 0 "''line''"]
    by (simp add: d(4) update_set_def new_row_def sample_def secs_def)
qed

text \<open>(C23) Garbage collection on a database that answers deletes exactly the finished builds whose
  completion time is before the cutoff as written, reports their number, and never deletes a
  pending or building one. The cutoff as written is the cutoff moved by the zone offset of the
  \<open>Time\<close> value: with a UTC value it is the cutoff itself.\<close>

theorem GC_rows:
  assumes "faults d = []" and "ids_ok d"
  shows "fst (GC tz before d) = Ret (card {r \<in> set (builds d). gc_cond (secs before + tz) r}) \<and>
    (\<forall>i. row_of (snd (GC tz before d)) i = (case row_of d i of None \<Rightarrow> None
      | Some r \<Rightarrow> if IsTerminal (c_status r) \<and> (\<exists>t. c_completed_at r = Some t \<and> t < secs before + tz) then None else Some r)) \<and>
    workers (snd (GC tz before d)) = workers d"
proof -
  let ?p = "gc_cond (secs before + tz)"
  have GC: "GC tz before d = (Ret (length (filter ?p (builds d))), d\<lparr>builds := filter (\<lambda>r. \<not> ?p r) (builds d)\<rparr>)"
    by (simp add: GC_def Let_def run_stmt_sound assms(1))
  have "distinct (builds d)" using assms(2) by (simp add: ids_ok_def distinct_map)
  then have "length (filter ?p (builds d)) = card {r \<in> set (builds d). ?p r}"
    using distinct_card [of "filter ?p (builds d)"] by simp
  moreover have "?p r \<longleftrightarrow> IsTerminal (c_status r) \<and> (\<exists>t. c_completed_at r = Some t \<and> t < secs before + tz)" for r
    by (auto simp: gc_cond_def split: option.split)
  moreover have "row_of (snd (GC tz before d)) i = (case row_of d i of None \<Rightarrow> None | Some r \<Rightarrow> if ?p r then None else Some r)" for i
    using assms(2) find_filter_id [of "builds d"] by (simp add: GC row_of_def ids_ok_def)
  ultimately show ?thesis by (simp add: GC split: option.split)
qed

theorem GC_rows_witness: "row_of (snd (GC 0 2000000000000000000 sample_db)) ''b1'' \<noteq> None"
  using GC_rows [of sample_db 0 2000000000000000000] by (simp add: sample_db_row new_row_def sample_def)

text \<open>The zone of the cutoff matters: with a \<open>Time\<close> value in a zone east of UTC, garbage
  collection deletes builds that finished at or after the cutoff, up to the zone offset late.\<close>

theorem GC_zone_skew:
  assumes "faults d = []" and "ids_ok d" and "row_of d i = Some r" and "IsTerminal (c_status r)"
    and "c_completed_at r = Some t" and "secs before \<le> t" and "t < secs before + tz"
  shows "row_of (snd (GC tz before d)) i = None"
proof -
  let ?p = "gc_cond (secs before + tz)"
  have "?p r" using assms(4,5,7) by (simp add: gc_cond_def)
  moreover have "r' = r" if "r' \<in> set (builds d)" "c_id r' = i" for r'
    using row_of_unique [OF assms(2) that(1)] that(2) assms(3) by simp
  ultimately show ?thesis
    by (auto simp: GC_def Let_def run_stmt_sound assms(1) row_of_None)
qed

theorem GC_zone_skew_witness:
  "row_of (snd (GC 3600 1700000000000000000 (snd (UpdateStatus 1700001800000000000 ''b1'' StatusFailed [] [] ''e'' sample_db)))) ''b1'' = None"
proof -
  let ?d = "snd (UpdateStatus 1700001800000000000 ''b1'' StatusFailed [] [] ''e'' sample_db)"
  let ?r = "update_set 1700001800 StatusFailed [] [] ''e'' (new_row (sample\<lparr>CreatedAt := 1700000000500000000, UpdatedAt := 1700000000500000000\<rparr>))"
  have d: "faults ?d = []" "ids_ok ?d" "row_of ?d ''b1'' = Some ?r"
    by (simp_all add: UpdateStatus_ids)
      (simp_all add: UpdateStatus_sound row_of_update sample_db_row update_cond_def new_row_def sample_def secs_def)
  show ?thesis using GC_zone_skew [OF d, of 1700001800 1700000000000000000 3600] by (simp add: update_set_def secs_def)
qed

end
