(* ===== verification/Fingerprint.thy ===== *)
theory Fingerprint
  imports Go_Hash Go_Strings
begin

text \<open>
  \<open>internal/fingerprint\<close>: the content hash of a Dockerfile. The base images and the
  cacheable instructions are collected line by line, sorted, and hashed with SHA-256. The
  scan cuts a base image at an index that it computes on the upper-cased text; a bound out
  of range is Go's run-time panic, the result \<open>Panic\<close>. \<open>U\<close> is the Unicode case table.
\<close>

record fingerprint =
  Hash :: string
  BaseImages :: "string list"
  fpInstructions :: "string list"

text \<open>The base image of a \<open>FROM\<close> line.\<close>

definition base_image :: "(nat \<Rightarrow> nat) \<Rightarrow> string \<Rightarrow> string option" where
  "base_image U line = (case slice_from line 5 of
       None \<Rightarrow> None
     | Some rest \<Rightarrow>
        (let img = TrimSpace rest in
         case last_index (ToUpper U img) '' AS '' of
           None \<Rightarrow> Some (TrimSpace img)
         | Some idx \<Rightarrow> if 0 < idx then map_option TrimSpace (slice_to img idx) else Some (TrimSpace img)))"

definition is_cached_instr :: "string \<Rightarrow> bool" where
  "is_cached_instr upper \<longleftrightarrow> HasPrefix upper ''RUN '' \<or> HasPrefix upper ''COPY '' \<or> HasPrefix upper ''ADD ''"

text \<open>One iteration of the scan, on the bases and instructions collected so far.\<close>

definition scan_line :: "(nat \<Rightarrow> nat) \<Rightarrow> string \<Rightarrow> string list \<times> string list \<Rightarrow> (string list \<times> string list) option" where
  "scan_line U line0 acc = (let line = TrimSpace line0; upper = ToUpper U line in
     if line = [] \<or> HasPrefix line ''#'' then Some acc
     else if HasPrefix upper ''FROM '' then
       map_option (\<lambda>img. (fst acc @ [img], snd acc)) (base_image U line)
     else if is_cached_instr upper then Some (fst acc, snd acc @ [line])
     else Some acc)"

fun scan_lines :: "(nat \<Rightarrow> nat) \<Rightarrow> string list \<Rightarrow> string list \<times> string list \<Rightarrow> (string list \<times> string list) option" where
  "scan_lines U [] acc = Some acc"
| "scan_lines U (l # ls) acc = (case scan_line U l acc of None \<Rightarrow> None | Some acc' \<Rightarrow> scan_lines U ls acc')"

text \<open>What \<open>h.Write\<close> feeds to the hash: every entry with a NUL byte after it.\<close>

definition hash_input :: "string list \<Rightarrow> string list \<Rightarrow> string" where
  "hash_input bases instrs = concat (map (\<lambda>x. x @ [CHR 0x00]) bases) @ concat (map (\<lambda>x. x @ [CHR 0x00]) instrs)"

definition FromDockerfile :: "(nat \<Rightarrow> nat) \<Rightarrow> string \<Rightarrow> (string, fingerprint) outcome" where
  "FromDockerfile U content = (case scan_lines U (Split (CHR 0x0A) content) ([], []) of
       None \<Rightarrow> Panic
     | Some (bases, instrs) \<Rightarrow>
        Ret \<lparr>Hash = hex (sha256 (hash_input (sort bases) (sort instrs))),
             BaseImages = sort bases, fpInstructions = sort instrs\<rparr>)"

subsection \<open>The scan as a function of the lines\<close>

text \<open>What a trimmed line contributes: nothing, a base image (or a panic), or an instruction.\<close>

definition is_from :: "(nat \<Rightarrow> nat) \<Rightarrow> string \<Rightarrow> bool" where
  "is_from U l \<longleftrightarrow> l \<noteq> [] \<and> \<not> HasPrefix l ''#'' \<and> HasPrefix (ToUpper U l) ''FROM ''"

definition is_instr :: "(nat \<Rightarrow> nat) \<Rightarrow> string \<Rightarrow> bool" where
  "is_instr U l \<longleftrightarrow> l \<noteq> [] \<and> \<not> HasPrefix l ''#'' \<and> \<not> HasPrefix (ToUpper U l) ''FROM '' \<and> is_cached_instr (ToUpper U l)"

definition trimmed :: "string \<Rightarrow> string list" where
  "trimmed c = map TrimSpace (Split (CHR 0x0A) c)"

definition relevant :: "(nat \<Rightarrow> nat) \<Rightarrow> string \<Rightarrow> string multiset" where
  "relevant U c = filter_mset (\<lambda>l. is_from U l \<or> is_instr U l) (mset (trimmed c))"

lemma scan_lines_eq:
  "scan_lines U ls acc = (let ts = map TrimSpace ls in
     if \<forall>l \<in> set ts. is_from U l \<longrightarrow> base_image U l \<noteq> None
     then Some (fst acc @ map (\<lambda>l. the (base_image U l)) (filter (is_from U) ts), snd acc @ filter (is_instr U) ts)
     else None)"
proof (induction ls arbitrary: acc)
  case (Cons l ls)
  have "scan_line U l acc =
    (if is_from U (TrimSpace l) then map_option (\<lambda>img. (fst acc @ [img], snd acc)) (base_image U (TrimSpace l))
     else if is_instr U (TrimSpace l) then Some (fst acc, snd acc @ [TrimSpace l]) else Some acc)"
    by (auto simp: scan_line_def Let_def is_from_def is_instr_def)
  moreover have "\<not> is_instr U (TrimSpace l)" if "is_from U (TrimSpace l)"
    using that by (simp add: is_from_def is_instr_def)
  ultimately show ?case using Cons.IH unfolding Let_def
    by (cases "is_from U (TrimSpace l)"; cases "base_image U (TrimSpace l)"; cases "is_instr U (TrimSpace l)") simp_all
qed simp

lemma FromDockerfile_eq:
  "FromDockerfile U c =
    (if \<forall>l \<in> set (trimmed c). is_from U l \<longrightarrow> base_image U l \<noteq> None then
       let bases = sort (map (\<lambda>l. the (base_image U l)) (filter (is_from U) (trimmed c)));
           instrs = sort (filter (is_instr U) (trimmed c))
       in Ret \<lparr>Hash = hex (sha256 (hash_input bases instrs)), BaseImages = bases, fpInstructions = instrs\<rparr>
     else Panic)"
  unfolding FromDockerfile_def scan_lines_eq Let_def trimmed_def by simp

lemma FromDockerfile_Ret:
  assumes "FromDockerfile U c = Ret f"
  shows "Hash f = hex (sha256 (hash_input (BaseImages f) (fpInstructions f)))"
    "BaseImages f = sort (map (\<lambda>l. the (base_image U l)) (filter (is_from U) (trimmed c)))"
    "fpInstructions f = sort (filter (is_instr U) (trimmed c))"
    "\<And>l. l \<in> set (trimmed c) \<Longrightarrow> is_from U l \<Longrightarrow> base_image U l \<noteq> None"
  using assms unfolding FromDockerfile_eq Let_def by (auto split: if_splits)

subsection \<open>Properties\<close>

lemma base_image_ascii:
  assumes "is_ascii line" and "HasPrefix (ToUpper U line) ''FROM ''"
  shows "base_image U line \<noteq> None"
proof -
  have len: "5 \<le> length line" using ToUpper_prefix_length [OF assms(2)] by (simp add: is_ascii_def)
  let ?img = "TrimSpace (drop 5 line)"
  have "is_ascii ?img" using is_ascii_subset [OF set_drop_subset assms(1)] by (rule TrimSpace_ascii)
  then have "idx \<le> length ?img" if "last_index (ToUpper U ?img) '' AS '' = Some idx" for idx
    using last_index_bound [OF that] by (simp add: ToUpper_length)
  then show ?thesis using len
    by (auto simp: base_image_def slice_from_def slice_to_def Let_def split: option.split)
qed

lemma base_image_set: "base_image U line = Some img \<Longrightarrow> set img \<subseteq> set line"
proof -
  assume b: "base_image U line = Some img"
  have t: "set (TrimSpace (take n (TrimSpace (drop 5 line)))) \<subseteq> set line"
    and u: "set (TrimSpace (TrimSpace (drop 5 line))) \<subseteq> set line" for n
    using TrimSpace_set set_take_subset set_drop_subset by (metis subset_trans)+
  then show ?thesis using b
    by (auto simp: base_image_def slice_from_def slice_to_def Let_def split: option.splits if_splits)
qed

lemma nul_terminated_inj:
  assumes "concat (map (\<lambda>x. x @ [z]) xs) = concat (map (\<lambda>x. x @ [z]) ys)"
    and "\<forall>x \<in> set xs. z \<notin> set x" and "\<forall>y \<in> set ys. z \<notin> set y"
  shows "xs = ys"
  using assms
proof (induction xs arbitrary: ys)
  case Nil
  then show ?case by (cases ys) auto
next
  case (Cons x xs)
  then obtain y ys' where ys: "ys = y # ys'" by (cases ys) auto
  have "x = y \<and> concat (map (\<lambda>x. x @ [z]) xs) = concat (map (\<lambda>x. x @ [z]) ys')"
    using Cons.prems unfolding ys by (auto simp: append_eq_append_conv2 Cons_eq_append_conv append_eq_Cons_conv)
  then show ?case using Cons ys by simp
qed

lemma hash_input_concat: "hash_input bs is = concat (map (\<lambda>x. x @ [CHR 0x00]) (bs @ is))"
  by (simp add: hash_input_def)

lemma trimmed_set: "l \<in> set (trimmed c) \<Longrightarrow> set l \<subseteq> set c"
  unfolding trimmed_def using TrimSpace_set Split_set by fastforce

lemma FromDockerfile_sets:
  assumes "FromDockerfile U c = Ret f" and "x \<in> set (BaseImages f @ fpInstructions f)"
  shows "set x \<subseteq> set c"
proof -
  obtain l where "l \<in> set (trimmed c)" "x = l \<or> base_image U l = Some x"
    using assms(2) FromDockerfile_Ret [OF assms(1)] by fastforce
  then show ?thesis using base_image_set trimmed_set by (metis subset_trans)
qed

lemma filter_relevant:
  assumes "relevant U c1 = relevant U c2" and "\<And>l. P l \<Longrightarrow> is_from U l \<or> is_instr U l"
  shows "mset (filter P (trimmed c1)) = mset (filter P (trimmed c2))"
proof -
  have "filter_mset P (relevant U c) = mset (filter P (trimmed c))" for c
    unfolding relevant_def using assms(2) by (simp add: filter_filter_mset conj_commute) (metis (mono_tags, lifting) filter_mset_cong)
  then show ?thesis using assms(1) by metis
qed

text \<open>(C35) The fingerprint does not depend on the order of the lines, nor on comments, blank lines,
  surrounding white space and other instructions: two Dockerfiles with the same multiset of
  trimmed FROM, RUN, COPY and ADD lines have the same fingerprint (or both make the scan panic).\<close>

theorem fingerprint_order_blind:
  assumes "relevant U c1 = relevant U c2"
  shows "FromDockerfile U c1 = FromDockerfile U c2"
proof -
  have fr: "mset (filter (is_from U) (trimmed c1)) = mset (filter (is_from U) (trimmed c2))"
    and ins: "mset (filter (is_instr U) (trimmed c1)) = mset (filter (is_instr U) (trimmed c2))"
    using assms by (rule filter_relevant, simp)+
  have "sort (map g (filter (is_from U) (trimmed c1))) = sort (map g (filter (is_from U) (trimmed c2)))" for g :: "string \<Rightarrow> string"
    using fr by (intro properties_for_sort) (simp_all only: mset_map mset_sort sorted_sort)
  moreover have "sort (filter (is_instr U) (trimmed c1)) = sort (filter (is_instr U) (trimmed c2))"
    using ins by (intro properties_for_sort) (simp_all only: mset_sort sorted_sort)
  moreover have "set (filter (is_from U) (trimmed c1)) = set (filter (is_from U) (trimmed c2))"
    using fr by (metis set_mset_mset)
  then have "(\<forall>l \<in> set (trimmed c1). is_from U l \<longrightarrow> Q l) \<longleftrightarrow> (\<forall>l \<in> set (trimmed c2). is_from U l \<longrightarrow> Q l)" for Q
    by (simp add: set_eq_iff) blast
  ultimately show ?thesis unfolding FromDockerfile_eq by (simp only:)
qed

theorem fingerprint_order_blind_witness:
  "FromDockerfile id (''FROM a'' @ [CHR 0x0A] @ ''RUN x'') = FromDockerfile id (''RUN x'' @ [CHR 0x0A] @ ''FROM a'')"
proof (rule fingerprint_order_blind)
  have t: "trimmed (''FROM a'' @ [CHR 0x0A] @ ''RUN x'') = [''FROM a'', ''RUN x'']" by (simp add: trimmed_def TrimSpace_plain)
  have u: "trimmed (''RUN x'' @ [CHR 0x0A] @ ''FROM a'') = [''RUN x'', ''FROM a'']" by (simp add: trimmed_def TrimSpace_plain)
  show "relevant id (''FROM a'' @ [CHR 0x0A] @ ''RUN x'') = relevant id (''RUN x'' @ [CHR 0x0A] @ ''FROM a'')"
    unfolding relevant_def t u by (rule arg_cong [where f = "filter_mset _"], simp only: mset.simps, rule add_mset_commute)
qed

text \<open>A fingerprint is the lower-case hexadecimal SHA-256 digest of its sorted base images and
  sorted instructions, 64 characters long. The text that is hashed determines them: two Dockerfiles
  without NUL bytes whose images and instructions differ feed different texts to the hash, so equal
  fingerprints would exhibit a collision of SHA-256.\<close>

theorem fingerprint_digest:
  assumes "FromDockerfile U c1 = Ret f1" and "FromDockerfile U c2 = Ret f2"
    and "CHR 0x00 \<notin> set c1" and "CHR 0x00 \<notin> set c2"
  shows "length (Hash f1) = 64 \<and> (\<forall>c \<in> set (Hash f1). is_hex_char c) \<and>
    sorted (BaseImages f1) \<and> sorted (fpInstructions f1) \<and>
    Hash f1 = hex (sha256 (hash_input (BaseImages f1) (fpInstructions f1))) \<and>
    (BaseImages f1 @ fpInstructions f1 \<noteq> BaseImages f2 @ fpInstructions f2 \<longrightarrow>
       hash_input (BaseImages f1) (fpInstructions f1) \<noteq> hash_input (BaseImages f2) (fpInstructions f2))"
proof -
  note f1 = FromDockerfile_Ret [OF assms(1)]
  have "length (Hash f1) = 64" unfolding f1(1) by simp
  moreover have "\<forall>c \<in> set (Hash f1). is_hex_char c" unfolding f1(1) using hex_chars by blast
  moreover have "sorted (BaseImages f1)" "sorted (fpInstructions f1)" unfolding f1(2,3) by (rule sorted_sort)+
  moreover have "\<forall>x \<in> set (BaseImages f1 @ fpInstructions f1). CHR 0x00 \<notin> set x"
    using FromDockerfile_sets [OF assms(1)] assms(3) by blast
  moreover have "\<forall>x \<in> set (BaseImages f2 @ fpInstructions f2). CHR 0x00 \<notin> set x"
    using FromDockerfile_sets [OF assms(2)] assms(4) by blast
  ultimately show ?thesis using f1(1) nul_terminated_inj unfolding hash_input_concat by metis
qed

theorem fingerprint_digest_witness:
  "\<exists>f1 f2. FromDockerfile id ''RUN x'' = Ret f1 \<and> FromDockerfile id ''RUN y'' = Ret f2 \<and>
     hash_input (BaseImages f1) (fpInstructions f1) \<noteq> hash_input (BaseImages f2) (fpInstructions f2) \<and> length (Hash f1) = 64"
proof -
  have t: "trimmed ''RUN x'' = [''RUN x'']" "trimmed ''RUN y'' = [''RUN y'']" by (simp_all add: trimmed_def TrimSpace_plain)
  have up: "ToUpper id ''RUN x'' = ''RUN X''" "ToUpper id ''RUN y'' = ''RUN Y''" by (simp_all add: upper_eval)
  have i: "\<not> is_from id ''RUN x''" "is_instr id ''RUN x''" "\<not> is_from id ''RUN y''" "is_instr id ''RUN y''"
    unfolding is_from_def is_instr_def is_cached_instr_def up by simp_all
  obtain f1 f2 where f: "FromDockerfile id ''RUN x'' = Ret f1" "FromDockerfile id ''RUN y'' = Ret f2"
    by (simp add: FromDockerfile_eq Let_def t i)
  moreover have "BaseImages f1 @ fpInstructions f1 \<noteq> BaseImages f2 @ fpInstructions f2"
    by (simp add: FromDockerfile_Ret [OF f(1)] FromDockerfile_Ret [OF f(2)] t i)
  ultimately have "hash_input (BaseImages f1) (fpInstructions f1) \<noteq> hash_input (BaseImages f2) (fpInstructions f2)"
    "length (Hash f1) = 64" using fingerprint_digest [OF f] by simp_all
  then show ?thesis using f by blast
qed

text \<open>On ASCII text the scan always returns: no slice is out of range.\<close>

theorem fingerprint_total_ascii:
  assumes "is_ascii c"
  shows "\<exists>f. FromDockerfile U c = Ret f"
proof -
  have "base_image U l \<noteq> None" if "l \<in> set (trimmed c)" "is_from U l" for l
    using that(2) is_ascii_subset [OF trimmed_set [OF that(1)] assms] by (intro base_image_ascii) (simp_all add: is_from_def)
  then show ?thesis unfolding FromDockerfile_eq Let_def by simp
qed

theorem fingerprint_total_ascii_witness: "\<exists>f. FromDockerfile id ''FROM a AS b'' = Ret f"
  by (rule fingerprint_total_ascii) (simp add: is_ascii_def)

text \<open>On other text it can panic: the index of the stage alias is found in the upper-cased
  image, whose encoding may be longer than the image. Every byte that is not valid UTF-8 grows
  to the three bytes of U+FFFD, so three of them before the alias are enough.\<close>

theorem fingerprint_alias_panic:
  assumes "U 65533 = 65533"
  shows "FromDockerfile U (''FROM '' @ replicate 3 (CHR 0xFF) @ '' AS x'') = Panic"
proof -
  let ?img = "replicate 3 (CHR 0xFF) @ '' AS x''"
  let ?f = "\<lambda>r. if r < 128 then ascii_upper r else U r"
  have ff: "rune_map ?f (CHR 0xFF # s) = map byte [239, 191, 189] @ rune_map ?f s" for s
    using assms by (subst rune_map.simps) (simp add: decode_rune_def encode_rune_def)
  have ch: "rune_map ?f (p @ s) = map (\<lambda>c. byte (ascii_upper (of_char c))) p @ rune_map ?f s" if "is_ascii p" for p s
    using that
  proof (induction p)
    case (Cons c p)
    have "encode_rune (ascii_upper (of_char c)) = [byte (ascii_upper (of_char c))]"
      using Cons.prems by (auto simp: encode_rune_def ascii_upper_def is_ascii_def)
    then show ?case
      using Cons by (simp add: rune_map.simps [of _ "c # p @ s"] decode_rune_def is_ascii_def)
  qed simp
  have up: "map (\<lambda>c. byte (ascii_upper (of_char c))) '' AS x'' = '' AS X''"
    "map (\<lambda>c. byte (ascii_upper (of_char c))) ''FROM '' = ''FROM ''" by (simp_all add: upper_eval)
  have img: "rune_map ?f ?img = map byte [239, 191, 189, 239, 191, 189, 239, 191, 189] @ '' AS X''"
    using ch [of "'' AS x''" "[]"] up(1) by (simp add: numeral_3_eq_3 ff is_ascii_def rune_map.simps [of _ "[]"])
  then have U: "ToUpper U ?img = map byte [239, 191, 189, 239, 191, 189, 239, 191, 189] @ '' AS X''"
    "ToUpper U (''FROM '' @ ?img) = ''FROM '' @ map byte [239, 191, 189, 239, 191, 189, 239, 191, 189] @ '' AS X''"
    using ch [of "''FROM ''" ?img] up(2) by (simp_all add: ToUpper_def is_ascii_def)
  have "last_index (map byte [239, 191, 189, 239, 191, 189, 239, 191, 189] @ '' AS X'') '' AS '' = Some 9" by (simp add: byte_eq_iff)
  moreover have "TrimSpace ?img = ?img" by (rule TrimSpace_plain) (simp_all add: numeral_3_eq_3)
  ultimately have "base_image U (''FROM '' @ ?img) = None"
    using U(1) by (simp add: base_image_def slice_from_def slice_to_def)
  moreover have "trimmed (''FROM '' @ ?img) = [''FROM '' @ ?img]" by (simp add: trimmed_def TrimSpace_plain numeral_3_eq_3)
  moreover have "is_from U (''FROM '' @ ?img)" using U(2) by (simp add: is_from_def)
  ultimately show ?thesis unfolding FromDockerfile_eq by simp
qed

theorem fingerprint_alias_panic_witness:
  "FromDockerfile id (''FROM '' @ replicate 3 (CHR 0xFF) @ '' AS x'') = Panic"
  by (rule fingerprint_alias_panic) simp

end
