(* ===== verification/Validate.thy ===== *)
theory Validate
  imports Go_Strings
begin

text \<open>
  \<open>internal/validate\<close>: the pre-flight checks of a submission. A \<open>Result\<close> is the list of
  its errors, and the checks append to it. As in the fingerprint, the stage alias of a
  \<open>FROM\<close> line is cut at an index of the upper-cased text, so the check of a Dockerfile may
  panic; \<open>None\<close> is that panic. \<open>U\<close> is the Unicode case table.
\<close>

record build_input =
  iDockerfile :: string
  iImageTag :: string

record bulk_entry =
  ePath :: string
  eName :: string
  eContent :: string
  eTag :: string

type_synonym result = "string list"

definition Valid :: "result \<Rightarrow> bool" where
  "Valid r \<longleftrightarrow> r = []"

definition add :: "string \<Rightarrow> string \<Rightarrow> result \<Rightarrow> result" where
  "add what msg r = r @ [what @ '': '' @ msg]"

definition Count_char :: "string \<Rightarrow> char \<Rightarrow> nat" where
  "Count_char s c = length (filter (\<lambda>x. x = c) s)"

definition validateImageRef :: "(nat \<Rightarrow> nat) \<Rightarrow> string \<Rightarrow> result \<Rightarrow> result" where
  "validateImageRef U ref r =
     (if 2 < Count_char ref (CHR '':'') then add ''dockerfile'' (''invalid image ref: '' @ ref @ '' (too many colons)'') r
      else if Contains ref ''://'' then add ''dockerfile'' (''invalid image ref: '' @ ref @ '' (contains ://)'') r
      else if Contains ref '' '' \<and> \<not> Contains (ToUpper U ref) '' AS '' then
        add ''dockerfile'' (''invalid image ref: '' @ ref @ '' (contains spaces)'') r
      else r)"

definition validateTag :: "string \<Rightarrow> result \<Rightarrow> result" where
  "validateTag tag r =
     (if Contains tag ''://'' then add ''image_tag'' (''invalid: '' @ tag @ '' (contains ://)'') r
      else if 2 < Count_char tag (CHR '':'') then add ''image_tag'' ''too many colons in tag'' r
      else r)"

text \<open>The image of a \<open>FROM\<close> line without its platform flag and its alias.\<close>

definition strip_platform :: "(nat \<Rightarrow> nat) \<Rightarrow> string \<Rightarrow> string option" where
  "strip_platform U img =
     (if HasPrefix (ToUpper U img) ''--PLATFORM'' then
        (case str_index img '' '' of
           Some idx \<Rightarrow> if 0 < idx then map_option TrimSpace (slice_from img (idx + 1)) else Some img
         | None \<Rightarrow> Some img)
      else Some img)"

definition strip_alias :: "(nat \<Rightarrow> nat) \<Rightarrow> string \<Rightarrow> string option" where
  "strip_alias U img =
     (case last_index (ToUpper U img) '' AS '' of
        Some idx \<Rightarrow> if 0 < idx then map_option TrimSpace (slice_to img idx) else Some img
      | None \<Rightarrow> Some img)"

text \<open>One iteration of the loop, on \<open>hasFrom\<close> and the result so far.\<close>

definition check_line :: "(nat \<Rightarrow> nat) \<Rightarrow> string \<Rightarrow> bool \<times> result \<Rightarrow> (bool \<times> result) option" where
  "check_line U line0 st = (let line = TrimSpace line0 in
     if line = [] \<or> HasPrefix line ''#'' then Some st
     else if HasPrefix (ToUpper U line) ''FROM '' then
       (case slice_from line 5 of
          None \<Rightarrow> None
        | Some rest \<Rightarrow>
           (let img = TrimSpace rest in
            if img = [] then Some (True, add ''dockerfile'' ''FROM with empty image'' (snd st))
            else case strip_platform U img of
                   None \<Rightarrow> None
                 | Some img1 \<Rightarrow>
                    (case strip_alias U img1 of
                       None \<Rightarrow> None
                     | Some img2 \<Rightarrow> Some (True, validateImageRef U img2 (snd st)))))
     else Some st)"

fun check_lines :: "(nat \<Rightarrow> nat) \<Rightarrow> string list \<Rightarrow> bool \<times> result \<Rightarrow> (bool \<times> result) option" where
  "check_lines U [] st = Some st"
| "check_lines U (l # ls) st = (case check_line U l st of None \<Rightarrow> None | Some st' \<Rightarrow> check_lines U ls st')"

definition validateDockerfile :: "(nat \<Rightarrow> nat) \<Rightarrow> string \<Rightarrow> result \<Rightarrow> result option" where
  "validateDockerfile U content r = (case check_lines U (Split (CHR 0x0A) content) (False, r) of
       None \<Rightarrow> None
     | Some (hasFrom, r') \<Rightarrow> Some (if hasFrom then r' else add ''dockerfile'' ''no FROM line found'' r'))"

definition Single :: "(nat \<Rightarrow> nat) \<Rightarrow> build_input \<Rightarrow> result option" where
  "Single U inp = (let content = TrimSpace (iDockerfile inp) in
     case (if content = [] then Some (add ''dockerfile'' ''empty'' [])
           else if Contains content [CHR 0x0A] \<or> HasPrefix (ToUpper U content) ''FROM '' then validateDockerfile U content []
           else Some []) of
       None \<Rightarrow> None
     | Some r \<Rightarrow> Some (if iImageTag inp = [] then add ''image_tag'' ''empty'' r else validateTag (iImageTag inp) r))"

definition hasFROM :: "(nat \<Rightarrow> nat) \<Rightarrow> string \<Rightarrow> bool" where
  "hasFROM U content \<longleftrightarrow> (\<exists>line \<in> set (Split (CHR 0x0A) content). HasPrefix (ToUpper U (TrimSpace line)) ''FROM '')"

fun bulk_entries :: "(nat \<Rightarrow> nat) \<Rightarrow> nat \<Rightarrow> bulk_entry list \<Rightarrow> result \<Rightarrow> result" where
  "bulk_entries U i [] r = r"
| "bulk_entries U i (e # es) r =
     (let prefix = ''entry['' @ Itoa i @ ''] '' @ ePath e @ ''/'' @ eName e in
      if eContent e = [] then bulk_entries U (i + 1) es (add prefix ''empty Dockerfile'' r)
      else if \<not> hasFROM U (eContent e) then bulk_entries U (i + 1) es (add prefix ''missing FROM line'' r)
      else bulk_entries U (i + 1) es r)"

definition Bulk :: "(nat \<Rightarrow> nat) \<Rightarrow> bulk_entry list \<Rightarrow> result" where
  "Bulk U entries = (let r = bulk_entries U 0 entries [] in
     if entries = [] then add ''bulk'' ''no Dockerfiles found'' r else r)"

subsection \<open>What the checks accept\<close>

definition tag_ok :: "string \<Rightarrow> bool" where
  "tag_ok tag \<longleftrightarrow> tag \<noteq> [] \<and> \<not> Contains tag ''://'' \<and> Count_char tag (CHR '':'') \<le> 2"

definition ref_ok :: "(nat \<Rightarrow> nat) \<Rightarrow> string \<Rightarrow> bool" where
  "ref_ok U ref \<longleftrightarrow> Count_char ref (CHR '':'') \<le> 2 \<and> \<not> Contains ref ''://'' \<and>
     (Contains ref '' '' \<longrightarrow> Contains (ToUpper U ref) '' AS '')"

text \<open>The image reference that a trimmed \<open>FROM\<close> line names.\<close>

definition from_image :: "(nat \<Rightarrow> nat) \<Rightarrow> string \<Rightarrow> string option" where
  "from_image U line = (case slice_from line 5 of
       None \<Rightarrow> None
     | Some rest \<Rightarrow> (case strip_platform U (TrimSpace rest) of None \<Rightarrow> None | Some img \<Rightarrow> strip_alias U img))"

definition from_line :: "(nat \<Rightarrow> nat) \<Rightarrow> string \<Rightarrow> bool" where
  "from_line U line \<longleftrightarrow> line \<noteq> [] \<and> \<not> HasPrefix line ''#'' \<and> HasPrefix (ToUpper U line) ''FROM ''"

lemma add_nonempty [simp]: "add what msg r \<noteq> []"
  by (simp add: add_def)

lemma validateTag_Valid: "validateTag tag r = [] \<longleftrightarrow> r = [] \<and> \<not> Contains tag ''://'' \<and> Count_char tag (CHR '':'') \<le> 2"
  by (auto simp: validateTag_def)

lemma validateImageRef_Valid: "validateImageRef U ref r = [] \<longleftrightarrow> r = [] \<and> ref_ok U ref"
  by (auto simp: validateImageRef_def ref_ok_def)

definition line_ok :: "(nat \<Rightarrow> nat) \<Rightarrow> string \<Rightarrow> bool" where
  "line_ok U line \<longleftrightarrow> TrimSpace (drop 5 line) \<noteq> [] \<and> (\<exists>ref. from_image U line = Some ref \<and> ref_ok U ref)"

definition dockerfile_lines :: "string \<Rightarrow> string list" where
  "dockerfile_lines content = map TrimSpace (Split (CHR 0x0A) content)"

lemma from_line_length: "from_line U line \<Longrightarrow> 5 \<le> length line"
  using ToUpper_prefix_length [of U line "''FROM ''"] by (simp add: from_line_def is_ascii_def)

lemma check_line_other: "\<not> from_line U (TrimSpace l) \<Longrightarrow> check_line U l st = Some st"
  by (auto simp: check_line_def Let_def from_line_def)

lemma check_line_from:
  assumes "from_line U (TrimSpace l)"
  shows "check_line U l st =
    (if TrimSpace (drop 5 (TrimSpace l)) = [] then Some (True, add ''dockerfile'' ''FROM with empty image'' (snd st))
     else map_option (\<lambda>ref. (True, validateImageRef U ref (snd st))) (from_image U (TrimSpace l)))"
  using assms from_line_length [OF assms]
  by (auto simp: check_line_def Let_def from_line_def from_image_def slice_from_def split: option.split)

lemma validateImageRef_grows: "r \<noteq> [] \<Longrightarrow> validateImageRef U ref r \<noteq> []"
  by (simp add: validateImageRef_Valid)

lemma check_line_grows: "snd st \<noteq> [] \<Longrightarrow> check_line U l st = Some st' \<Longrightarrow> snd st' \<noteq> []"
  by (cases "from_line U (TrimSpace l)")
    (auto simp: check_line_other check_line_from validateImageRef_grows split: if_splits)

lemma check_lines_grows: "snd st \<noteq> [] \<Longrightarrow> check_lines U ls st = Some st' \<Longrightarrow> snd st' \<noteq> []"
  by (induction ls arbitrary: st) (auto split: option.splits dest: check_line_grows)

lemma check_line_clean:
  "check_line U l (h, []) = Some (h', []) \<longleftrightarrow>
     (if from_line U (TrimSpace l) then h' \<and> line_ok U (TrimSpace l) else h' = h)"
  by (cases "from_line U (TrimSpace l)")
    (auto simp: check_line_other check_line_from line_ok_def validateImageRef_Valid)

lemma check_lines_clean:
  "check_lines U ls (h, []) = Some (h', []) \<longleftrightarrow>
     (\<forall>l \<in> set (map TrimSpace ls). from_line U l \<longrightarrow> line_ok U l) \<and>
     h' = (h \<or> (\<exists>l \<in> set (map TrimSpace ls). from_line U l))"
proof (induction ls arbitrary: h)
  case (Cons l ls)
  have "check_lines U (l # ls) (h, []) = Some (h', []) \<longleftrightarrow>
    (\<exists>k. check_line U l (h, []) = Some (k, []) \<and> check_lines U ls (k, []) = Some (h', []))"
  proof (cases "check_line U l (h, [])")
    case (Some st)
    obtain k r where st: "st = (k, r)" by fastforce
    show ?thesis using check_lines_grows [of st U ls "(h', [])"] Some by (cases "r = []") (auto simp: st)
  qed simp
  then show ?case unfolding check_line_clean Cons.IH
    by (cases "from_line U (TrimSpace l)") (simp_all, blast)
qed auto

lemma validateDockerfile_clean:
  "validateDockerfile U content [] = Some [] \<longleftrightarrow>
     (\<exists>l \<in> set (dockerfile_lines content). from_line U l) \<and>
     (\<forall>l \<in> set (dockerfile_lines content). from_line U l \<longrightarrow> line_ok U l)"
proof -
  have "validateDockerfile U content [] = Some [] \<longleftrightarrow> check_lines U (Split (CHR 0x0A) content) (False, []) = Some (True, [])"
    by (auto simp: validateDockerfile_def split: option.split)
  then show ?thesis unfolding check_lines_clean dockerfile_lines_def by auto
qed

lemma from_image_ascii:
  assumes "from_line U line" and "is_ascii line"
  shows "from_image U line \<noteq> None"
proof -
  have up: "\<exists>x. strip_alias U img = Some x" if "is_ascii img" for img
    using that last_index_bound [of "ToUpper U img" "'' AS ''"]
    by (auto simp: strip_alias_def slice_to_def ToUpper_length split: option.split)
  have "\<exists>x. strip_platform U img = Some x \<and> is_ascii x" if "is_ascii img" for img
  proof (cases "str_index img '' ''")
    case (Some idx)
    then have "idx + 1 \<le> length img" using str_index_bound by fastforce
    then show ?thesis using that Some is_ascii_subset [OF set_drop_subset that]
      by (auto simp: strip_platform_def slice_from_def)
  qed (use that in \<open>simp add: strip_platform_def\<close>)
  moreover have "is_ascii (TrimSpace (drop 5 line))"
    using is_ascii_subset [OF set_drop_subset assms(2)] by (rule TrimSpace_ascii)
  ultimately obtain x where "strip_platform U (TrimSpace (drop 5 line)) = Some x" "is_ascii x" by blast
  then show ?thesis using up from_line_length [OF assms(1)] by (auto simp: from_image_def slice_from_def)
qed

lemma check_lines_total:
  assumes "\<And>l. l \<in> set ls \<Longrightarrow> is_ascii l"
  shows "\<exists>st'. check_lines U ls st = Some st'"
  using assms
proof (induction ls arbitrary: st)
  case (Cons l ls)
  have "is_ascii (TrimSpace l)" using Cons.prems by auto
  then have "check_line U l st \<noteq> None" using from_image_ascii [of U "TrimSpace l"]
    by (cases "from_line U (TrimSpace l)") (auto simp: check_line_from check_line_other)
  then show ?case using Cons by auto
qed simp

text \<open>(C34) A submission passes the pre-flight check exactly when its Dockerfile is not blank, its
  image tag is not empty, has no scheme and at most two colons, and, where the text is Dockerfile
  content (it has a line break or starts with FROM) and not a file name, some line is a FROM line
  and every FROM line names an image with at most two colons, no scheme and no stray space.\<close>

theorem Single_accepts:
  "Single U inp = Some [] \<longleftrightarrow>
     (let content = TrimSpace (iDockerfile inp); ls = dockerfile_lines content in
      content \<noteq> [] \<and> tag_ok (iImageTag inp) \<and>
      (CHR 0x0A \<in> set content \<or> HasPrefix (ToUpper U content) ''FROM '' \<longrightarrow>
         (\<exists>l \<in> set ls. from_line U l) \<and> (\<forall>l \<in> set ls. from_line U l \<longrightarrow> line_ok U l)))"
proof -
  let ?c = "TrimSpace (iDockerfile inp)"
  have "Single U inp = Some [] \<longleftrightarrow> ?c \<noteq> [] \<and> tag_ok (iImageTag inp) \<and>
    (CHR 0x0A \<in> set ?c \<or> HasPrefix (ToUpper U ?c) ''FROM '' \<longrightarrow> validateDockerfile U ?c [] = Some [])"
    by (auto simp: Single_def Let_def Contains_char validateTag_Valid tag_ok_def split: option.split)
  then show ?thesis unfolding validateDockerfile_clean Let_def .
qed

theorem Single_accepts_witness:
  "Single id \<lparr>iDockerfile = ''FROM alpine:3'', iImageTag = ''reg:5000/app:1''\<rparr> = Some []"
proof -
  have t: "TrimSpace ''FROM alpine:3'' = ''FROM alpine:3''" "TrimSpace ''alpine:3'' = ''alpine:3''" by (simp_all add: TrimSpace_plain)
  have up: "ToUpper id ''FROM alpine:3'' = ''FROM ALPINE:3''" "ToUpper id ''alpine:3'' = ''ALPINE:3''"
    by (simp_all add: upper_eval)
  have "strip_platform id ''alpine:3'' = Some ''alpine:3''" by (simp add: strip_platform_def up)
  moreover have "strip_alias id ''alpine:3'' = Some ''alpine:3''" by (simp add: strip_alias_def up)
  ultimately have "from_image id ''FROM alpine:3'' = Some ''alpine:3''" by (simp add: from_image_def slice_from_def t)
  moreover have "ref_ok id ''alpine:3''" by (simp add: ref_ok_def Count_char_def Contains_def)
  moreover have "tag_ok ''reg:5000/app:1''" by (simp add: tag_ok_def Count_char_def Contains_def)
  ultimately show ?thesis
    using Single_accepts [of id "\<lparr>iDockerfile = ''FROM alpine:3'', iImageTag = ''reg:5000/app:1''\<rparr>"]
    by (simp add: t dockerfile_lines_def from_line_def up line_ok_def)
qed

text \<open>On ASCII text the check always returns a result: no slice is out of range.\<close>

theorem Single_total_ascii:
  assumes "is_ascii (iDockerfile inp)"
  shows "\<exists>r. Single U inp = Some r"
proof -
  let ?c = "TrimSpace (iDockerfile inp)"
  obtain st where "check_lines U (Split (CHR 0x0A) ?c) (False, []) = Some st"
    using check_lines_total Split_ascii TrimSpace_ascii [OF assms] by metis
  then show ?thesis by (auto simp: Single_def Let_def validateDockerfile_def split: prod.split)
qed

theorem Single_total_ascii_witness: "\<exists>r. Single id \<lparr>iDockerfile = ''FROM a AS b'', iImageTag = []\<rparr> = Some r"
  by (rule Single_total_ascii) (simp add: is_ascii_def)

lemma bulk_entries_clean:
  "bulk_entries U i es r = [] \<longleftrightarrow> r = [] \<and> (\<forall>e \<in> set es. eContent e \<noteq> [] \<and> hasFROM U (eContent e))"
  by (induction es arbitrary: i r) (auto simp: Let_def)

text \<open>A bulk submission passes exactly when it has an entry and every entry's content is not
  empty and has a FROM line.\<close>

theorem Bulk_accepts:
  "Valid (Bulk U es) \<longleftrightarrow> es \<noteq> [] \<and> (\<forall>e \<in> set es. eContent e \<noteq> [] \<and> hasFROM U (eContent e))"
  by (auto simp: Valid_def Bulk_def Let_def bulk_entries_clean)

end
