(* ===== verification/Service.thy ===== *)
theory Service
  imports Interleaving Build_Queue Scheduler Repo Fingerprint Validate
begin

text \<open>
  \<open>internal/service\<close>: the life cycle of builds. A service call is a program of atomic
  steps on the shared state: the build queue, the scheduler and the persister, each behind
  its own lock. \<open>buildPersister\<close> is the Go interface of the same name, a record of functions
  on the persister's state \<open>'r\<close>; \<open>BuildRepo\<close> implements it (theory \<open>Repo\<close>), and the
  locale \<open>build_persister\<close> states what the service relies on.

  \<open>ts k\<close> is the clock reading of the \<open>k\<close>-th repository call, \<open>uuid\<close> the text that
  \<open>uuid.New\<close> returns, \<open>U\<close> the Unicode case table. The scores of one selection are read
  from one state of the scheduler. The returned build is the value at the time of return;
  in Go it shares the struct that the queue holds.
\<close>

subsection \<open>State, interfaces and errors\<close>

record 'r persister =
  pCreate :: "time \<Rightarrow> build \<Rightarrow> 'r \<Rightarrow> build \<times> (repo_error, unit) outcome \<times> 'r"
  pGet :: "string \<Rightarrow> 'r \<Rightarrow> (repo_error, build) outcome \<times> 'r"
  pListPending :: "'r \<Rightarrow> (repo_error, build list) outcome \<times> 'r"
  pUpdateStatus :: "time \<Rightarrow> string \<Rightarrow> status \<Rightarrow> string \<Rightarrow> string \<Rightarrow> string \<Rightarrow> 'r \<Rightarrow> (repo_error, unit) outcome \<times> 'r"

record 'r sys =
  store :: 'r
  que :: queue
  sched :: scheduler

datatype svc_error = ErrQueueFull | ErrValidation string | ErrCreate repo_error
  | ErrListPending repo_error | ErrNotCancellable | ErrRepo repo_error

type_synonym ('r, 'a) call = "('r sys, (svc_error, 'a) outcome) prog"

definition on_store :: "('r \<Rightarrow> 'x \<times> 'r) \<Rightarrow> 'r sys \<Rightarrow> 'x \<times> 'r sys" where
  "on_store f s = (case f (store s) of (x, r) \<Rightarrow> (x, s\<lparr>store := r\<rparr>))"

definition on_que :: "(queue \<Rightarrow> 'x \<times> queue) \<Rightarrow> 'r sys \<Rightarrow> 'x \<times> 'r sys" where
  "on_que f s = (case f (que s) of (x, q) \<Rightarrow> (x, s\<lparr>que := q\<rparr>))"

definition on_sched :: "(scheduler \<Rightarrow> scheduler) \<Rightarrow> 'r sys \<Rightarrow> unit \<times> 'r sys" where
  "on_sched f s = ((), s\<lparr>sched := f (sched s)\<rparr>)"

text \<open>\<open>Create\<close> also returns the build, whose timestamps it has set.\<close>

definition create_step :: "'r persister \<Rightarrow> time \<Rightarrow> build \<Rightarrow> 'r sys \<Rightarrow> (build \<times> (repo_error, unit) outcome) \<times> 'r sys" where
  "create_step P t b = on_store (\<lambda>r. case pCreate P t b r of (b', res, r') \<Rightarrow> ((b', res), r'))"

definition update_step :: "'r persister \<Rightarrow> time \<Rightarrow> string \<Rightarrow> status \<Rightarrow> string \<Rightarrow> string \<Rightarrow> string \<Rightarrow> 'r sys \<Rightarrow> (repo_error, unit) outcome \<times> 'r sys" where
  "update_step P t i st w l e = on_store (pUpdateStatus P t i st w l e)"

definition peek_step :: "string \<Rightarrow> 'r sys \<Rightarrow> build option \<times> 'r sys" where
  "peek_step workerID s = on_que (PeekByScore (\<lambda>b. ScoreBuildForWorker (Instructions b) workerID (sched s))) s"

subsection \<open>BuildService\<close>

definition new_build :: "string \<Rightarrow> string \<Rightarrow> string \<Rightarrow> string \<Rightarrow> string \<Rightarrow> int \<Rightarrow> (string \<times> string) list \<Rightarrow> fingerprint \<Rightarrow> build" where
  "new_build buildID ctxKey df imageTag userID timeoutSec args fp =
     zero_build\<lparr>ID := buildID, Status := StatusPending, Fingerprint := Hash fp, ContextKey := ctxKey,
       Dockerfile := df, ImageTag := imageTag, Args := args, Instructions := fpInstructions fp,
       TimeoutSeconds := timeoutSec, UserID := userID, Priority := 0, CacheHitRate := -1\<rparr>"

text \<open>The end of a submission: the queue may have filled up since the first check.\<close>

definition push_or_cancel :: "'r persister \<Rightarrow> time \<Rightarrow> build \<Rightarrow> ('r, build) call" where
  "push_or_cancel P t b = atomic (on_que (Push b)) (\<lambda>ok.
     if ok then Done (Ret b)
     else atomic (update_step P t (ID b) StatusCancelled [] [] ''queue full at submit time'') (\<lambda>_.
       Done (Err ErrQueueFull)))"

definition SubmitBuild :: "'r persister \<Rightarrow> (nat \<Rightarrow> nat) \<Rightarrow> string \<Rightarrow> (nat \<Rightarrow> time) \<Rightarrow> string \<Rightarrow> string \<Rightarrow> string \<Rightarrow>
    string \<Rightarrow> string \<Rightarrow> int \<Rightarrow> (string \<times> string) list \<Rightarrow> ('r, build) call" where
  "SubmitBuild P U uuid ts buildID ctxKey df imageTag userID timeoutSec args =
     (case Single U \<lparr>iDockerfile = df, iImageTag = imageTag\<rparr> of
        None \<Rightarrow> Done Panic
      | Some v \<Rightarrow>
         if \<not> Valid v then Done (Err (ErrValidation (Join ''; '' v)))
         else let bid = (if buildID = [] then uuid else buildID) in
           case FromDockerfile U df of
             Ret fp \<Rightarrow>
               (let b = new_build bid ctxKey df imageTag userID timeoutSec args fp in
                atomic (\<lambda>s. (Full (que s), s)) (\<lambda>full.
                  if full then Done (Err ErrQueueFull)
                  else atomic (create_step P (ts 0) b) (\<lambda>(b', res).
                    case res of
                      Err e \<Rightarrow> Done (Err (ErrCreate e))
                    | Panic \<Rightarrow> Done Panic
                    | Ret _ \<Rightarrow> push_or_cancel P (ts 1) b')))
           | _ \<Rightarrow> Done Panic)"

text \<open>The claim at the end of \<open>AssignBuild\<close>.\<close>

definition claim :: "'r persister \<Rightarrow> time \<Rightarrow> string \<Rightarrow> build \<Rightarrow> ('r, build option) call" where
  "claim P t workerID b = atomic (update_step P t (ID b) StatusBuilding workerID [] []) (\<lambda>res.
     case res of
       Err e \<Rightarrow> Done (Err (ErrRepo e))
     | Panic \<Rightarrow> Done Panic
     | Ret _ \<Rightarrow> Done (Ret (Some (b\<lparr>Status := StatusBuilding, WorkerID := workerID\<rparr>))))"

text \<open>Pushing rows until the queue refuses one, with the number pushed.\<close>

fun refill :: "build list \<Rightarrow> nat \<Rightarrow> (nat \<Rightarrow> ('r sys, 'a) prog) \<Rightarrow> ('r sys, 'a) prog" where
  "refill [] pushed k = k pushed"
| "refill (b # bs) pushed k = atomic (on_que (Push b)) (\<lambda>ok. if \<not> ok then k pushed else refill bs (pushed + 1) k)"

definition AssignBuild_svc :: "'r persister \<Rightarrow> time \<Rightarrow> string \<Rightarrow> ('r, build option) call" where
  "AssignBuild_svc P t workerID = atomic (peek_step workerID) (\<lambda>found.
     case found of
       Some b \<Rightarrow> claim P t workerID b
     | None \<Rightarrow>
        atomic (on_store (pListPending P)) (\<lambda>res.
          case res of
            Ret bs \<Rightarrow>
              if bs = [] then Done (Ret None)
              else refill bs 0 (\<lambda>_. atomic (peek_step workerID) (\<lambda>found.
                     claim P t workerID (case found of Some b \<Rightarrow> b | None \<Rightarrow> hd bs)))
          | _ \<Rightarrow> Done (Ret None)))"

definition CompleteBuild :: "'r persister \<Rightarrow> ring_sort \<Rightarrow> time \<Rightarrow> string \<Rightarrow> status \<Rightarrow> string \<Rightarrow> ('r, unit) call" where
  "CompleteBuild P sortf t i st errMsg = atomic (update_step P t i st [] [] errMsg) (\<lambda>res.
     case res of
       Err e \<Rightarrow> Done (Err (ErrRepo e))
     | Panic \<Rightarrow> Done Panic
     | Ret _ \<Rightarrow>
        atomic (on_store (pGet P i)) (\<lambda>got.
          case got of
            Ret b \<Rightarrow>
              if WorkerID b \<noteq> [] then
                atomic (on_sched (MarkWorkerIdle sortf (WorkerID b) [Fingerprint b])) (\<lambda>_. Done (Ret ()))
              else Done (Ret ())
          | Err e \<Rightarrow> Done (Ret ())
          | Panic \<Rightarrow> Done Panic))"

definition CancelBuild :: "'r persister \<Rightarrow> time \<Rightarrow> string \<Rightarrow> ('r, unit) call" where
  "CancelBuild P t i = atomic (on_store (pGet P i)) (\<lambda>got.
     case got of
       Err e \<Rightarrow> Done (Err (ErrRepo e))
     | Panic \<Rightarrow> Done Panic
     | Ret b \<Rightarrow>
        if \<not> (Status b = StatusPending \<or> Status b = StatusBuilding) then Done (Err ErrNotCancellable)
        else atomic (on_que (Remove i)) (\<lambda>_.
          atomic (update_step P t i StatusCancelled [] [] ''cancelled by user'') (\<lambda>res.
            case res of Ret _ \<Rightarrow> Done (Ret ()) | Err e \<Rightarrow> Done (Err (ErrRepo e)) | Panic \<Rightarrow> Done Panic)))"

definition QueueLen :: "'r sys \<Rightarrow> nat" where
  "QueueLen s = Len (que s)"

definition WarmQueue :: "'r persister \<Rightarrow> ('r, nat) call" where
  "WarmQueue P = atomic (on_store (pListPending P)) (\<lambda>res.
     case res of
       Err e \<Rightarrow> Done (Err (ErrListPending e))
     | Panic \<Rightarrow> Done Panic
     | Ret bs \<Rightarrow> refill bs 0 (\<lambda>n. Done (Ret n)))"

definition AppendLog :: "'r persister \<Rightarrow> time \<Rightarrow> string \<Rightarrow> string \<Rightarrow> ('r, unit) call" where
  "AppendLog P t i line = atomic (update_step P t i [] [] line []) (\<lambda>res.
     case res of Ret _ \<Rightarrow> Done (Ret ()) | Err e \<Rightarrow> Done (Err (ErrRepo e)) | Panic \<Rightarrow> Done Panic)"

subsection \<open>WorkerService and Maintenance, on the repository itself\<close>

definition repo_persister :: "(build_row list \<Rightarrow> build_row list) \<Rightarrow> database persister" where
  "repo_persister rsort = \<lparr>pCreate = Create, pGet = Get, pListPending = ListPending rsort, pUpdateStatus = UpdateStatus\<rparr>"

definition reply_call :: "(repo_error, 'a) outcome \<Rightarrow> ('r, 'a) call" where
  "reply_call res = Done (case res of Ret x \<Rightarrow> Ret x | Err e \<Rightarrow> Err (ErrRepo e) | Panic \<Rightarrow> Panic)"

text \<open>\<open>Upsert\<close> stamps the heartbeat on the worker, which the scheduler does not read.\<close>

definition Heartbeat :: "ring_sort \<Rightarrow> time \<Rightarrow> worker \<Rightarrow> (database, unit) call" where
  "Heartbeat sortf t w = atomic (on_store (\<lambda>d. case Upsert t w d of (w', res, d') \<Rightarrow> ((w', res), d'))) (\<lambda>(w', res).
     case res of
       Err e \<Rightarrow> Done (Err (ErrRepo e))
     | Panic \<Rightarrow> Done Panic
     | Ret _ \<Rightarrow> atomic (on_sched (RegisterWorker sortf (wID w') (wStatus w') (wCacheKeys w'))) (\<lambda>_. Done (Ret ())))"

definition PruneStale :: "time \<Rightarrow> int \<Rightarrow> (database, unit) call" where
  "PruneStale t maxAge = atomic (on_store (MarkOffline t maxAge)) reply_call"

definition ReassignStaleBuilds :: "time \<Rightarrow> int \<Rightarrow> int \<Rightarrow> (database, unit) call" where
  "ReassignStaleBuilds t workerTimeout buildTimeout = atomic (on_store (ReassignStale t workerTimeout buildTimeout)) reply_call"

definition GCCompleted :: "int \<Rightarrow> time \<Rightarrow> (database, nat) call" where
  "GCCompleted tz before = atomic (on_store (GC tz before)) reply_call"

subsection \<open>What the service relies on\<close>

lemma refill_run: "run (refill bs n k) s = (case push_while Push bs n (que s) of (m, q) \<Rightarrow> run (k m) (s\<lparr>que := q\<rparr>))"
proof (induction bs arbitrary: n s)
  case (Cons b bs)
  then show ?case by (auto simp: on_que_def split: prod.split)
qed simp

lemma peek_run:
  assumes "queue_ok (que s)" and "peek_step w s = (Some b, s')"
  shows "b \<in># queued (que s) \<and> queued (que s') = queued (que s) - {#b#} \<and> store s' = store s \<and> sched s' = sched s"
  using assms PeekByScore_queued by (fastforce simp: peek_step_def on_que_def split: prod.splits)

lemma peek_None:
  assumes "peek_step w s = (None, s')"
  shows "theap (que s) = [] \<and> s' = s"
proof -
  have "theap (que s) = []"
    using assms PeekByScore_slot [of "que s"] by (cases "theap (que s) = []") (auto simp: peek_step_def on_que_def)
  then show ?thesis using assms by (simp add: peek_step_def on_que_def PeekByScore_empty)
qed

lemma peek_store: "peek_step w s = (x, s') \<Longrightarrow> store s' = store s \<and> sched s' = sched s"
  by (auto simp: peek_step_def on_que_def split: prod.splits)

text \<open>
  \<open>view\<close> is the status of every stored build. An update with an empty status only appends to
  the log, a terminal status leaves a finished build alone, a claim needs a pending build.
\<close>

definition upd_view :: "string \<Rightarrow> status \<Rightarrow> (string \<rightharpoonup> status) \<Rightarrow> (string \<rightharpoonup> status)" where
  "upd_view i st v = (case v i of
       None \<Rightarrow> v
     | Some old \<Rightarrow>
        if st = [] \<or> IsTerminal st \<and> IsTerminal old \<or> st = StatusBuilding \<and> old \<noteq> StatusPending then v
        else v(i \<mapsto> st))"

locale build_persister =
  fixes P :: "'r persister"
    and view :: "'r \<Rightarrow> string \<rightharpoonup> status"
    and inv :: "'r \<Rightarrow> bool"
  assumes create_ret: "inv r \<Longrightarrow> pCreate P t b r = (b', Ret u, r') \<Longrightarrow>
      view r (ID b) = None \<and> view r' = (view r)(ID b \<mapsto> Status b) \<and> b' = b\<lparr>CreatedAt := t, UpdatedAt := t\<rparr> \<and> inv r'"
    and create_err: "inv r \<Longrightarrow> pCreate P t b r = (b', Err x, r') \<Longrightarrow>
      (view r' = view r \<or> view r (ID b) = None \<and> view r' = (view r)(ID b \<mapsto> Status b)) \<and> inv r'"
    and get_any: "inv r \<Longrightarrow> pGet P i r = (g, r') \<Longrightarrow> view r' = view r \<and> inv r' \<and> g \<noteq> Panic"
    and get_ret: "inv r \<Longrightarrow> pGet P i r = (Ret b, r') \<Longrightarrow> ID b = i \<and> view r i = Some (Status b)"
    and list_any: "inv r \<Longrightarrow> pListPending P r = (res, r') \<Longrightarrow> view r' = view r \<and> inv r' \<and> res \<noteq> Panic"
    and list_ret: "inv r \<Longrightarrow> pListPending P r = (Ret bs, r') \<Longrightarrow>
      (\<forall>b \<in> set bs. view r (ID b) = Some StatusPending) \<and> distinct (map ID bs) \<and>
      (bs = [] \<longrightarrow> (\<forall>i. view r i \<noteq> Some StatusPending))"
    and update_ret: "inv r \<Longrightarrow> pUpdateStatus P t i st w l e r = (Ret u, r') \<Longrightarrow>
      view r' = upd_view i st (view r) \<and> (st = StatusBuilding \<longrightarrow> view r i = Some StatusPending) \<and> inv r'"
    and update_err: "inv r \<Longrightarrow> pUpdateStatus P t i st w l e r = (Err x, r') \<Longrightarrow>
      (view r' = view r \<or> view r' = upd_view i st (view r)) \<and> inv r'"
    and no_panic: "inv r \<Longrightarrow> fst (snd (pCreate P t b r)) \<noteq> Panic \<and> fst (pUpdateStatus P t i st w l e r) \<noteq> Panic"
begin

lemma claim_run:
  assumes "inv (store s)" and "run (claim P t w b) s = (Ret r, s')"
  shows "\<exists>c. r = Some c \<and> c = b\<lparr>Status := StatusBuilding, WorkerID := w\<rparr> \<and> view (store s) (ID b) = Some StatusPending \<and>
    view (store s') = (view (store s))(ID b \<mapsto> StatusBuilding) \<and> que s' = que s \<and> sched s' = sched s"
proof -
  obtain res r' where u: "pUpdateStatus P t (ID b) StatusBuilding w [] [] (store s) = (res, r')" by fastforce
  then obtain v where res: "res = Ret v" using assms(2) by (cases res) (auto simp: claim_def update_step_def on_store_def)
  show ?thesis using assms(2) u update_ret [OF assms(1) u [unfolded res]]
    by (auto simp: claim_def update_step_def on_store_def res upd_view_def)
qed

text \<open>An assignment that returns a build claims a build that was pending in the store.\<close>

lemma assign_run:
  assumes "inv (store s)" and "run (AssignBuild_svc P t w) s = (Ret (Some b), s')"
  shows "view (store s) (ID b) = Some StatusPending \<and> view (store s') = (view (store s))(ID b \<mapsto> StatusBuilding) \<and>
    Status b = StatusBuilding \<and> WorkerID b = w"
proof -
  obtain f s1 where p: "peek_step w s = (f, s1)" by fastforce
  note s1 = peek_store [OF p]
  show ?thesis
  proof (cases f)
    case (Some c)
    then have "run (claim P t w c) s1 = (Ret (Some b), s')" using assms(2) p by (simp add: AssignBuild_svc_def)
    then show ?thesis using claim_run [of s1 t w c "Some b" s'] assms(1) s1 by auto
  next
    case None
    obtain l r2 where l: "pListPending P (store s) = (l, r2)" by fastforce
    have r2: "view r2 = view (store s)" "inv r2" using list_any [OF assms(1) l] by auto
    obtain bs where bs: "l = Ret bs" "bs \<noteq> []"
      using assms(2) p None l s1 by (cases l) (auto simp: AssignBuild_svc_def on_store_def split: if_splits)
    let ?s2 = "s1\<lparr>store := r2\<rparr>"
    obtain m q where q: "push_while Push bs 0 (que s1) = (m, q)" by fastforce
    obtain g s3 where g: "peek_step w (?s2\<lparr>que := q\<rparr>) = (g, s3)" by fastforce
    have s3: "store s3 = r2" using peek_store [OF g] by simp
    have "run (claim P t w (case g of Some b \<Rightarrow> b | None \<Rightarrow> hd bs)) s3 = (Ret (Some b), s')"
      using assms(2) p None l s1 bs q g by (simp add: AssignBuild_svc_def on_store_def refill_run)
    then show ?thesis using claim_run [of s3] r2 s3 by fastforce
  qed
qed

text \<open>With nothing queued, an assignment falls back on the pending rows of the store.\<close>

lemma assign_progress:
  assumes "inv (store s)" and "queue_ok (que s)" and "theap (que s) = []" and "view (store s) i = Some StatusPending"
    and l: "pListPending P (store s) = (Ret bs, r2)"
    and ok: "\<And>j. view r2 j = Some StatusPending \<Longrightarrow> \<exists>r'. pUpdateStatus P t j StatusBuilding w [] [] r2 = (Ret (), r')"
  shows "\<exists>b s'. run (AssignBuild_svc P t w) s = (Ret (Some b), s')"
proof -
  have p: "peek_step w s = (None, s)"
    using assms(3) by (simp add: peek_step_def on_que_def PeekByScore_empty)
  have r2: "view r2 = view (store s)" "inv r2" using list_any [OF assms(1) l] by auto
  have ne: "bs \<noteq> []" and pend: "\<And>b. b \<in> set bs \<Longrightarrow> view (store s) (ID b) = Some StatusPending"
    using list_ret [OF assms(1) l] assms(4) by auto
  obtain m q where q: "push_while Push bs 0 (que s) = (m, q)" by fastforce
  obtain g s3 where g: "peek_step w (s\<lparr>store := r2, que := q\<rparr>) = (g, s3)" by fastforce
  have s3: "store s3 = r2" using peek_store [OF g] by simp
  have "queued q = mset (take m bs)"
    using bq.push_while_spec [OF q] assms(3) by (auto simp: queued_def)
  moreover have "queue_ok q" using bq.push_while_invar [OF assms(2), of bs 0] q by simp
  ultimately have "b \<in> set bs" if "g = Some b" for b
    using peek_run [of "s\<lparr>store := r2, que := q\<rparr>" w b s3] g that by (auto dest: in_set_takeD)
  then have "(case g of Some b \<Rightarrow> b | None \<Rightarrow> hd bs) \<in> set bs" (is "?b \<in> _") using ne by (auto split: option.split)
  then obtain r3 where "pUpdateStatus P t (ID ?b) StatusBuilding w [] [] r2 = (Ret (), r3)"
    using ok [of "ID ?b"] pend r2 by auto
  then show ?thesis using p l ne q g s3
    by (simp add: AssignBuild_svc_def on_store_def refill_run claim_def update_step_def)
qed

text \<open>A submission alone: what each outcome says about the store and the queue.\<close>

lemma submit_run:
  assumes "inv (store s)" and "run (SubmitBuild P U uuid ts bid ctx df tag u tmo args) s = (res, s')"
  shows "case res of
      Ret b \<Rightarrow> view (store s) (ID b) = None \<and> view (store s') = (view (store s))(ID b \<mapsto> StatusPending) \<and>
        queued (que s') = add_mset b (queued (que s)) \<and> sched s' = sched s \<and> \<not> Full (que s) \<and>
        ID b = (if bid = [] then uuid else bid) \<and> Status b = StatusPending \<and> Dockerfile b = df \<and>
        Single U \<lparr>iDockerfile = df, iImageTag = tag\<rparr> = Some []
    | Err (ErrCreate e) \<Rightarrow> que s' = que s \<and> sched s' = sched s \<and> \<not> Full (que s) \<and>
        (view (store s') = view (store s) \<or> view (store s) (if bid = [] then uuid else bid) = None \<and>
           view (store s') = (view (store s))((if bid = [] then uuid else bid) \<mapsto> StatusPending))
    | Err ErrQueueFull \<Rightarrow> s' = s \<and> Full (que s)
    | Err e \<Rightarrow> s' = s
    | Panic \<Rightarrow> s' = s"
proof -
  consider "Single U \<lparr>iDockerfile = df, iImageTag = tag\<rparr> = None"
    | v where "Single U \<lparr>iDockerfile = df, iImageTag = tag\<rparr> = Some v" "\<not> Valid v"
    | v where "Single U \<lparr>iDockerfile = df, iImageTag = tag\<rparr> = Some v" "Valid v" "\<forall>fp. FromDockerfile U df \<noteq> Ret fp"
    | v fp where "Single U \<lparr>iDockerfile = df, iImageTag = tag\<rparr> = Some v" "Valid v" "FromDockerfile U df = Ret fp"
    by blast
  then show ?thesis
  proof cases
    case (4 v fp)
    let ?b = "new_build (if bid = [] then uuid else bid) ctx df tag u tmo args fp"
    have b: "ID ?b = (if bid = [] then uuid else bid)" "Status ?b = StatusPending" "Dockerfile ?b = df"
      "Single U \<lparr>iDockerfile = df, iImageTag = tag\<rparr> = Some []" using 4 by (simp_all add: new_build_def Valid_def)
    have sub: "SubmitBuild P U uuid ts bid ctx df tag u tmo args = atomic (\<lambda>s. (Full (que s), s)) (\<lambda>full.
        if full then Done (Err ErrQueueFull) else atomic (create_step P (ts 0) ?b) (\<lambda>(b', res).
          case res of Err e \<Rightarrow> Done (Err (ErrCreate e)) | Panic \<Rightarrow> Done Panic
          | Ret _ \<Rightarrow> push_or_cancel P (ts 1) b'))"
      using 4 by (simp add: SubmitBuild_def Let_def)
    show ?thesis
    proof (cases "Full (que s)")
      case True
      then show ?thesis using assms(2) by (auto simp: sub)
    next
      case False
      obtain b' r d where c: "pCreate P (ts 0) ?b (store s) = (b', r, d)" by (metis prod_cases3)
      obtain q where q: "Push b' (que s) = (True, q)" "queued q = add_mset b' (queued (que s))"
        using Push_room [OF False, of b'] Push_queued [OF False, of b'] by (cases "Push b' (que s)") auto
      show ?thesis
      proof (cases r)
        case (Ret x)
        then show ?thesis using assms(2) create_ret [OF assms(1), of "ts 0" ?b b' x d] c q False b
          by (auto simp: sub create_step_def on_store_def on_que_def push_or_cancel_def)
      next
        case (Err e)
        then show ?thesis using assms(2) create_err [OF assms(1), of "ts 0" ?b b' e d] c False b by (auto simp: sub create_step_def on_store_def)
      next
        case Panic
        then show ?thesis using no_panic [OF assms(1), of "ts 0" ?b] c by simp
      qed
    qed
  qed (use assms(2) in \<open>auto simp: SubmitBuild_def Let_def split: outcome.splits\<close>)
qed

lemma get_run:
  assumes "inv (store s)" and "pGet P i (store s) = (g, r)"
  shows "on_store (pGet P i) s = (g, s\<lparr>store := r\<rparr>) \<and> view r = view (store s) \<and> inv r"
  using get_any [OF assms] assms(2) by (simp add: on_store_def)

lemma cancel_run:
  assumes "inv (store s)" and "queue_ok (que s)" and "run (CancelBuild P t i) s = (Ret (), s')"
  shows "view (store s) i \<in> {Some StatusPending, Some StatusBuilding} \<and> view (store s') = (view (store s))(i \<mapsto> StatusCancelled) \<and>
    queued (que s') \<subseteq># queued (que s) \<and> count (image_mset ID (queued (que s'))) i = count (image_mset ID (queued (que s))) i - 1"
proof -
  obtain g r where g: "pGet P i (store s) = (g, r)" by fastforce
  note gr = get_run [OF assms(1) g]
  obtain b where b: "g = Ret b" "Status b = StatusPending \<or> Status b = StatusBuilding"
    using assms(3) gr by (cases g) (auto simp: CancelBuild_def split: if_splits)
  have v: "view (store s) i = Some (Status b)" using get_ret [OF assms(1) g [unfolded b(1)]] by simp
  obtain x q where q: "Remove i (que s) = (x, q)" by fastforce
  obtain res r2 where u: "pUpdateStatus P t i StatusCancelled [] [] ''cancelled by user'' r = (res, r2)" by fastforce
  then obtain y where res: "res = Ret y" and s': "s' = s\<lparr>store := r2, que := q\<rparr>"
    using assms(3) gr b q by (cases res) (auto simp: CancelBuild_def on_que_def update_step_def on_store_def)
  have "view r2 = upd_view i StatusCancelled (view (store s))"
    using update_ret [of r t i StatusCancelled "[]" "[]" "''cancelled by user''" y r2] u res gr by simp
  then show ?thesis using v b(2) Remove_count [OF assms(2) q] s' by (auto simp: upd_view_def)
qed

lemma cancel_finished:
  assumes "inv (store s)" and "view (store s) i = Some st" and "IsTerminal st"
  shows "\<exists>e s'. run (CancelBuild P t i) s = (Err e, s') \<and> que s' = que s \<and> view (store s') = view (store s)"
proof -
  obtain g r where g: "pGet P i (store s) = (g, r)" by fastforce
  note gr = get_run [OF assms(1) g]
  show ?thesis
  proof (cases g)
    case (Ret b)
    then have "Status b = st" using get_ret [OF assms(1), of i b r] g assms(2) by simp
    then show ?thesis using Ret gr assms(3) by (auto simp: CancelBuild_def)
  qed (use gr get_any [OF assms(1) g] in \<open>auto simp: CancelBuild_def\<close>)
qed

lemma warm_run:
  assumes "inv (store s)" and "run (WarmQueue P) s = (Ret n, s')"
  shows "\<exists>bs r. pListPending P (store s) = (Ret bs, r) \<and>
    (\<forall>b \<in> set bs. view (store s) (ID b) = Some StatusPending) \<and> distinct (map ID bs) \<and> n \<le> length bs \<and>
    queued (que s') = queued (que s) + mset (take n bs) \<and> (n < length bs \<longrightarrow> Full (que s')) \<and> view (store s') = view (store s)"
proof -
  obtain l r where l: "pListPending P (store s) = (l, r)" by fastforce
  obtain bs where bs: "l = Ret bs" using assms(2) l by (cases l) (auto simp: WarmQueue_def on_store_def)
  obtain m q where q: "push_while Push bs 0 (que s) = (m, q)" by fastforce
  have "n = m" "s' = s\<lparr>store := r, que := q\<rparr>"
    using assms(2) l bs q by (auto simp: WarmQueue_def on_store_def refill_run)
  then show ?thesis using list_ret [OF assms(1), of bs r] list_any [OF assms(1) l] l bs bq.push_while_spec [OF q] by auto
qed

end

subsection \<open>The repository keeps the contract\<close>

definition db_view :: "database \<Rightarrow> string \<rightharpoonup> status" where
  "db_view d i = map_option c_status (row_of d i)"

lemma db_view_faults [simp]: "db_view (d\<lparr>faults := fs\<rparr>) = db_view d"
  by (rule ext) (simp add: db_view_def)

lemma db_view_builds: "builds d = builds d' \<Longrightarrow> db_view d = db_view d'"
  by (rule ext) (simp add: db_view_def row_of_def)

lemma db_view_update:
  "db_view (update_rows (update_cond i st) (update_set n st w l e) d) = upd_view i st (db_view d)"
proof
  fix j
  show "db_view (update_rows (update_cond i st) (update_set n st w l e) d) j = upd_view i st (db_view d) j"
    using row_of_id [of d j]
    by (cases "row_of d j"; cases "row_of d i")
      (auto simp: db_view_def row_of_update upd_view_def update_cond_def update_set_def StatusPending_def)
qed

lemma UpdateStatus_view:
  "db_view (snd (UpdateStatus t i st w l e d)) = db_view d \<or> db_view (snd (UpdateStatus t i st w l e d)) = upd_view i st (db_view d)"
  unfolding UpdateStatus_snd update_stmt_snd
  by (cases "\<lambda>d. (Ret () :: (repo_error, unit) outcome, update_rows (update_cond i st) (update_set (secs t) st w l e) d)" d rule: run_stmt_state)
    (simp_all add: db_view_update)

lemma UpdateStatus_view_Ret:
  "UpdateStatus t i st w l e d = (Ret u, d') \<Longrightarrow> db_view d' = upd_view i st (db_view d)"
  by (auto simp: UpdateStatus_def update_stmt_def db_view_update split: prod.splits outcome.splits if_splits elim!: run_stmt_Ret)

lemma db_view_insert:
  assumes "ID b \<notin> c_id ` set (builds d)" and "builds d' = builds d @ [new_row b]"
  shows "db_view d' = (db_view d)(ID b \<mapsto> Status b) \<and> db_view d (ID b) = None"
proof -
  have "row_of d (ID b) = None" using assms(1) by (simp add: row_of_None)
  then show ?thesis using assms(2) by (auto simp: db_view_def row_of_def find_append new_row_def split: option.split)
qed

lemma Create_Ret_view:
  assumes "Create t b d = (b', Ret u, d')"
  shows "db_view d (ID b) = None \<and> db_view d' = (db_view d)(ID b \<mapsto> Status b) \<and> b' = b\<lparr>CreatedAt := t, UpdatedAt := t\<rparr>"
  using assms db_view_insert [of "b\<lparr>CreatedAt := t, UpdatedAt := t\<rparr>" d d']
  by (auto simp: Create_def insertBuild_def Let_def split: if_splits elim!: run_stmt_Ret)

lemma Create_Err_view:
  assumes "Create t b d = (b', r, d')"
  shows "db_view d' = db_view d \<or> db_view d (ID b) = None \<and> db_view d' = (db_view d)(ID b \<mapsto> Status b)"
proof -
  let ?b = "b\<lparr>CreatedAt := t, UpdatedAt := t\<rparr>"
  let ?f = "\<lambda>d :: database. if ID ?b \<in> c_id ` set (builds d) then (Err (Driver ''duplicate key value violates unique constraint''), d)
     else (Ret (), d\<lparr>builds := builds d @ [new_row ?b]\<rparr>)"
  have "d' = snd (run_stmt ?f d)" using assms by (auto simp: Create_def insertBuild_def Let_def)
  then show ?thesis using db_view_insert [of ?b d d']
    by (cases ?f d rule: run_stmt_state) (auto split: if_splits)
qed

lemma run_stmt_no_panic: "(\<And>d. fst (f d) \<noteq> Panic) \<Longrightarrow> fst (run_stmt f d) \<noteq> Panic"
  by (simp add: run_stmt_def split: list.split fault.split)

lemma repo_no_panic:
  "fst (snd (Create t b d)) \<noteq> Panic" "fst (Get i d) \<noteq> Panic" "fst (ListPending rsort d) \<noteq> Panic"
  "fst (UpdateStatus t i st w l e d) \<noteq> Panic"
proof -
  show "fst (snd (Create t b d)) \<noteq> Panic"
    by (simp add: Create_def insertBuild_def Let_def) (rule run_stmt_no_panic, simp)
  show "fst (Get i d) \<noteq> Panic" unfolding Get_def by (rule run_stmt_no_panic) (simp split: option.split)
  show "fst (ListPending rsort d) \<noteq> Panic" unfolding ListPending_eq query_def by (rule run_stmt_no_panic) simp
  have "fst (update_stmt (update_cond i st) (update_set (secs t) st w l e) d) \<noteq> Panic"
    unfolding update_stmt_def by (rule run_stmt_no_panic) simp
  then show "fst (UpdateStatus t i st w l e d) \<noteq> Panic"
    by (auto simp: UpdateStatus_def split: prod.split outcome.split)
qed

locale pending_sorter = sorter pending_key rsort for rsort :: "build_row list \<Rightarrow> build_row list"
begin

lemma pending_rows_mem: "r \<in> set (pending_rows rsort d) \<Longrightarrow> r \<in> set (builds d) \<and> c_status r = StatusPending"
  by (auto simp: pending_rows_def is_pending_def dest: in_set_takeD)

lemma pending_rows_distinct: "ids_ok d \<Longrightarrow> distinct (map c_id (pending_rows rsort d))"
proof -
  assume "ids_ok d"
  then have "distinct (map c_id (filter is_pending (builds d)))" by (simp add: ids_ok_def distinct_map_filter)
  then have "distinct (map c_id (rsort (filter is_pending (builds d))))"
    using sort_mset by (metis mset_eq_imp_distinct_iff mset_map)
  then show ?thesis unfolding pending_rows_def take_map [symmetric] by (rule distinct_take)
qed

lemma pending_rows_empty:
  assumes "ids_ok d" and "pending_rows rsort d = []"
  shows "db_view d i \<noteq> Some StatusPending"
proof
  assume "db_view d i = Some StatusPending"
  then obtain r where "r \<in> set (builds d)" "is_pending r" using row_of_id [of d i] by (auto simp: db_view_def is_pending_def)
  then have "filter is_pending (builds d) \<noteq> []" by (auto simp: filter_empty_conv)
  then show False using assms(2) sort_length [of "filter is_pending (builds d)"] by (simp add: pending_rows_def)
qed

lemma repo_list:
  assumes "ids_ok d" and "ListPending rsort d = (Ret bs, d')"
  shows "(\<forall>b \<in> set bs. db_view d (ID b) = Some StatusPending) \<and> distinct (map ID bs) \<and>
    (bs = [] \<longrightarrow> (\<forall>i. db_view d i \<noteq> Some StatusPending))"
  using ListPending_Ret(1) [OF assms(2)] pending_rows_mem row_of_unique [OF assms(1)]
    pending_rows_distinct [OF assms(1)] pending_rows_empty [OF assms(1)]
  by (auto simp: db_view_def comp_def)

end

sublocale pending_sorter \<subseteq> repo: build_persister "repo_persister rsort" db_view ids_ok
proof
  fix t b d b' u d' assume "ids_ok d" "pCreate (repo_persister rsort) t b d = (b', Ret u, d')"
  then show "db_view d (ID b) = None \<and> db_view d' = (db_view d)(ID b \<mapsto> Status b) \<and>
      b' = b\<lparr>CreatedAt := t, UpdatedAt := t\<rparr> \<and> ids_ok d'"
    using Create_Ret_view [of t b d b' u d'] Create_ids [of d t b] by (simp add: repo_persister_def)
next
  fix d t b b' x d' assume "ids_ok d" "pCreate (repo_persister rsort) t b d = (b', Err x, d')"
  then show "(db_view d' = db_view d \<or> db_view d (ID b) = None \<and> db_view d' = (db_view d)(ID b \<mapsto> Status b)) \<and> ids_ok d'"
    using Create_Err_view [of t b d b' "Err x" d'] Create_ids [of d t b] by (simp add: repo_persister_def)
next
  fix d i g d' assume a: "ids_ok d" "pGet (repo_persister rsort) i d = (g, d')"
  then have d': "d' = snd (Get i d)" "g = fst (Get i d)" by (simp_all add: repo_persister_def)
  then show "db_view d' = db_view d \<and> ids_ok d' \<and> g \<noteq> Panic"
    using read_ids(1) [OF a(1)] repo_no_panic(2) [of i d] by (auto intro: db_view_builds simp: Get_def frame)
next
  fix d i b d' assume "ids_ok d" "pGet (repo_persister rsort) i d = (Ret b, d')"
  then show "ID b = i \<and> db_view d i = Some (Status b)"
    using Get_Ret [of i d b d'] row_of_id [of d i] by (auto simp: repo_persister_def db_view_def)
next
  fix d res d' assume a: "ids_ok d" "pListPending (repo_persister rsort) d = (res, d')"
  then have d': "d' = snd (ListPending rsort d)" "res = fst (ListPending rsort d)" by (simp_all add: repo_persister_def)
  then show "db_view d' = db_view d \<and> ids_ok d' \<and> res \<noteq> Panic"
    using read_ids(2) [OF a(1)] repo_no_panic(3) [of rsort d] by (auto intro: db_view_builds simp: ListPending_eq frame)
next
  fix d bs d' assume "ids_ok d" "pListPending (repo_persister rsort) d = (Ret bs, d')"
  then show "(\<forall>b \<in> set bs. db_view d (ID b) = Some StatusPending) \<and> distinct (map ID bs) \<and>
      (bs = [] \<longrightarrow> (\<forall>i. db_view d i \<noteq> Some StatusPending))"
    using repo_list by (simp add: repo_persister_def)
next
  fix d t i st w l e u d' assume a: "ids_ok d" "pUpdateStatus (repo_persister rsort) t i st w l e d = (Ret u, d')"
  then have u: "UpdateStatus t i st w l e d = (Ret (), d')" by (simp add: repo_persister_def)
  show "db_view d' = upd_view i st (db_view d) \<and> (st = StatusBuilding \<longrightarrow> db_view d i = Some StatusPending) \<and> ids_ok d'"
    using UpdateStatus_view_Ret [OF u] UpdateStatus_ids [OF a(1), of t i st w l e] UpdateStatus_claim [OF a(1)] u
    by (fastforce simp: db_view_def)
next
  fix d t i st w l e x d' assume a: "ids_ok d" "pUpdateStatus (repo_persister rsort) t i st w l e d = (Err x, d')"
  then show "(db_view d' = db_view d \<or> db_view d' = upd_view i st (db_view d)) \<and> ids_ok d'"
    using UpdateStatus_view [of t i st w l e d] UpdateStatus_ids [OF a(1), of t i st w l e] by (simp add: repo_persister_def)
next
  fix d t b i st w l e
  show "fst (snd (pCreate (repo_persister rsort) t b d)) \<noteq> Panic \<and> fst (pUpdateStatus (repo_persister rsort) t i st w l e d) \<noteq> Panic"
    using repo_no_panic(1,4) by (simp add: repo_persister_def)
qed

context pending_sorter
begin

lemma repo_contract: "build_persister (repo_persister rsort) db_view ids_ok"
  by (rule repo.build_persister_axioms)

end

interpretation pending_stable: pending_sorter "sort_key pending_key"
  by unfold_locales

subsection \<open>Properties of the service calls\<close>

text \<open>A system with one pending row and nothing queued, for the concrete instances.\<close>

definition sample_sys :: "database sys" where
  "sample_sys = \<lparr>store = sample_db, que = New 10, sched = New_scheduler\<rparr>"

lemma sample_sys_simps [simp]: "store sample_sys = sample_db" "que sample_sys = New 10" "sched sample_sys = New_scheduler"
  by (simp_all add: sample_sys_def)

lemma sample_view: "db_view sample_db ''b1'' = Some StatusPending"
  by (simp add: db_view_def sample_db_row new_row_def sample_def)

abbreviation repo_std :: "database persister" where
  "repo_std \<equiv> repo_persister (sort_key pending_key)"

lemma pending_std: "pending_sorter (sort_key pending_key)"
  by (rule pending_stable.pending_sorter_axioms)

lemma repo_persister_simps [simp]:
  "pCreate (repo_persister rsort) = Create" "pGet (repo_persister rsort) = Get"
  "pListPending (repo_persister rsort) = ListPending rsort" "pUpdateStatus (repo_persister rsort) = UpdateStatus"
  by (simp_all add: repo_persister_def)

text \<open>The race between the check for a full queue and the push: when other submissions have filled
  the queue in between, a build that was just stored is cancelled in the database, the caller
  gets the queue-full error, and the queue and every other build are as they were.\<close>

lemma SubmitBuild_race:
  assumes "ids_ok (store s)" and "faults (store s) = []" and "Full (que s)" and "db_view (store s) (ID b) = Some StatusPending"
  shows "\<exists>s'. run (push_or_cancel (repo_persister rsort) t b) s = (Err ErrQueueFull, s') \<and>
    db_view (store s') = (db_view (store s))(ID b \<mapsto> StatusCancelled) \<and> que s' = que s \<and> sched s' = sched s"
  using assms Push_full [OF assms(3), of b]
  by (simp add: push_or_cancel_def on_que_def update_step_def on_store_def UpdateStatus_sound db_view_update upd_view_def)

text \<open>(C11) What the result of a submission says. For a call that no other one interrupts: a build that is
  returned was validated, is stored as pending under a fresh identifier (the caller's, or the
  generated one) and is queued exactly once; a queue-full error happens only at a full queue and
  changes nothing, and neither does a failed validation or a panic; an error of the insert leaves
  queue and scheduler alone and the store as it was, or, when only the answer of the database was
  lost, with the new build pending in it. When other submissions fill the queue between the
  first check and the push, at a database that answers, the caller gets the queue-full error too,
  and the build that was just stored is cancelled.\<close>

theorem SubmitBuild_outcomes:
  assumes "pending_sorter rsort" and "ids_ok (store s)"
    and "run (SubmitBuild (repo_persister rsort) U uuid ts bid ctx df tag u tmo args) s = (res, s')"
  shows "(case res of
      Ret b \<Rightarrow> db_view (store s) (ID b) = None \<and> db_view (store s') = (db_view (store s))(ID b \<mapsto> StatusPending) \<and>
        queued (que s') = add_mset b (queued (que s)) \<and> sched s' = sched s \<and> \<not> Full (que s) \<and>
        ID b = (if bid = [] then uuid else bid) \<and> Status b = StatusPending \<and> Dockerfile b = df \<and>
        Single U \<lparr>iDockerfile = df, iImageTag = tag\<rparr> = Some []
    | Err (ErrCreate e) \<Rightarrow> que s' = que s \<and> sched s' = sched s \<and> \<not> Full (que s) \<and>
        (db_view (store s') = db_view (store s) \<or> db_view (store s) (if bid = [] then uuid else bid) = None \<and>
           db_view (store s') = (db_view (store s))((if bid = [] then uuid else bid) \<mapsto> StatusPending))
    | Err ErrQueueFull \<Rightarrow> s' = s \<and> Full (que s)
    | Err e \<Rightarrow> s' = s
    | Panic \<Rightarrow> s' = s) \<and>
    (\<forall>t b c. ids_ok (store c) \<and> faults (store c) = [] \<and> Full (que c) \<and> db_view (store c) (ID b) = Some StatusPending \<longrightarrow>
      (\<exists>c'. run (push_or_cancel (repo_persister rsort) t b) c = (Err ErrQueueFull, c') \<and>
        db_view (store c') = (db_view (store c))(ID b \<mapsto> StatusCancelled) \<and> que c' = que c \<and> sched c' = sched c))"
  using build_persister.submit_run [OF pending_sorter.repo_contract [OF assms(1)] assms(2,3)] SubmitBuild_race by blast

lemma SubmitBuild_accepts:
  assumes "Single U \<lparr>iDockerfile = df, iImageTag = tag\<rparr> = Some []" and "FromDockerfile U df = Ret fp"
    and "\<not> Full (que s)" and "faults (store s) = []" and "(if bid = [] then uuid else bid) \<notin> c_id ` set (builds (store s))"
  shows "\<exists>b s'. run (SubmitBuild (repo_persister rsort) U uuid ts bid ctx df tag u tmo args) s = (Ret b, s')"
proof -
  let ?b = "new_build (if bid = [] then uuid else bid) ctx df tag u tmo args fp"
  have "ID ?b = (if bid = [] then uuid else bid)" by (simp add: new_build_def)
  then have c: "Create (ts 0) ?b (store s) = (?b\<lparr>CreatedAt := ts 0, UpdatedAt := ts 0\<rparr>, Ret (),
      (store s)\<lparr>builds := builds (store s) @ [new_row (?b\<lparr>CreatedAt := ts 0, UpdatedAt := ts 0\<rparr>)]\<rparr>)"
    using assms(4,5) by (simp add: Create_def insertBuild_def Let_def run_stmt_sound split: if_splits)
  obtain q where "Push (?b\<lparr>CreatedAt := ts 0, UpdatedAt := ts 0\<rparr>) (que s) = (True, q)"
    using Push_room [OF assms(3)] by (metis prod.collapse)
  then show ?thesis using assms(1-3) c
    by (simp add: SubmitBuild_def Let_def Valid_def create_step_def on_store_def on_que_def push_or_cancel_def)
qed

lemma plain_accepted:
  "Single id \<lparr>iDockerfile = ''Dockerfile'', iImageTag = ''img''\<rparr> = Some []" "\<exists>fp. FromDockerfile id ''Dockerfile'' = Ret fp"
proof -
  have t: "TrimSpace ''Dockerfile'' = ''Dockerfile''" by (simp add: TrimSpace_plain)
  have up: "ToUpper id ''Dockerfile'' = ''DOCKERFILE''" by (simp add: upper_eval)
  show "Single id \<lparr>iDockerfile = ''Dockerfile'', iImageTag = ''img''\<rparr> = Some []"
    by (simp add: Single_def t up Contains_def validateTag_def Count_char_def)
  show "\<exists>fp. FromDockerfile id ''Dockerfile'' = Ret fp"
    by (simp add: FromDockerfile_eq Let_def trimmed_def t is_from_def up)
qed

lemma sample_accepts:
  assumes "(if bid = [] then u else bid) \<noteq> ''b1''"
  shows "\<exists>b s'. run (SubmitBuild repo_std id u ts bid ctx ''Dockerfile'' ''img'' us tmo args) sample_sys = (Ret b, s')"
proof -
  obtain fp where fp: "FromDockerfile id ''Dockerfile'' = Ret fp" using plain_accepted(2) by blast
  have new: "(if bid = [] then u else bid) \<notin> c_id ` set (builds (store sample_sys))"
    using assms by (simp add: sample_db_eq new_row_def sample_def)
  have room: "\<not> Full (que sample_sys)" "faults (store sample_sys) = []" by (simp_all add: Full_def New_def)
  show ?thesis by (rule SubmitBuild_accepts [OF plain_accepted(1) fp room new])
qed

theorem SubmitBuild_outcomes_witness:
  "\<exists>b s'. run (SubmitBuild repo_std id ''u1'' (\<lambda>_. 7) [] ''k'' ''Dockerfile'' ''img'' ''me'' 60 []) sample_sys = (Ret b, s') \<and>
     ID b = ''u1'' \<and> db_view (store s') ''u1'' = Some StatusPending \<and> queued (que s') = {#b#}"
proof -
  obtain b s' where r: "run (SubmitBuild repo_std id ''u1'' (\<lambda>_. 7) [] ''k'' ''Dockerfile'' ''img'' ''me'' 60 []) sample_sys = (Ret b, s')"
    using sample_accepts [of "[]" "''u1''"] by fastforce
  show ?thesis using SubmitBuild_outcomes [OF pending_std _ r] r by simp
qed

text \<open>An assignment that hands a build to a worker claims a build that was pending in the
  database and records it there as building; the build that is returned names the worker.\<close>

theorem AssignBuild_claims:
  assumes "pending_sorter rsort" and "ids_ok (store s)"
    and "run (AssignBuild_svc (repo_persister rsort) t w) s = (Ret (Some b), s')"
  shows "db_view (store s) (ID b) = Some StatusPending \<and> db_view (store s') = (db_view (store s))(ID b \<mapsto> StatusBuilding) \<and>
    Status b = StatusBuilding \<and> WorkerID b = w"
  by (rule build_persister.assign_run [OF pending_sorter.repo_contract [OF assms(1)] assms(2,3)])

lemma AssignBuild_finds:
  assumes "pending_sorter rsort" and "ids_ok (store s)" and "faults (store s) = []"
    and "theap (que s) = []" and "queue_ok (que s)" and "db_view (store s) i = Some StatusPending"
  shows "\<exists>b s'. run (AssignBuild_svc (repo_persister rsort) t w) s = (Ret (Some b), s')"
proof (rule build_persister.assign_progress [OF pending_sorter.repo_contract [OF assms(1)] assms(2,5,4,6)])
  show "pListPending (repo_persister rsort) (store s) = (Ret (map scan_row (pending_rows rsort (store s))), store s)"
    using assms(3) by (simp add: ListPending_eq query_def run_stmt_sound)
  show "\<exists>r'. pUpdateStatus (repo_persister rsort) t j StatusBuilding w [] [] (store s) = (Ret (), r')"
    if "db_view (store s) j = Some StatusPending" for j
    using that assms(2,3) by (auto simp: UpdateStatus_sound db_view_def)
qed

theorem AssignBuild_claims_witness:
  "\<exists>b s'. run (AssignBuild_svc repo_std 9 ''w'') sample_sys = (Ret (Some b), s') \<and> WorkerID b = ''w'' \<and>
     db_view sample_db (ID b) = Some StatusPending \<and> db_view (store s') (ID b) = Some StatusBuilding"
proof -
  obtain b s' where r: "run (AssignBuild_svc repo_std 9 ''w'') sample_sys = (Ret (Some b), s')"
    using AssignBuild_finds [OF pending_std, of sample_sys "''b1''" 9 "''w''"] sample_view by auto
  then show ?thesis using AssignBuild_claims [OF pending_std _ r] by simp
qed

text \<open>(C13) No pending build is stuck in the database: when nothing is queued and the database
  answers, a worker that asks gets a build as long as there is a pending one.\<close>

theorem AssignBuild_progress:
  assumes "pending_sorter rsort" and "ids_ok (store s)" and "faults (store s) = []"
    and "queue_ok (que s)" and "Len (que s) = 0" and "db_view (store s) i = Some StatusPending"
  shows "\<exists>b s'. run (AssignBuild_svc (repo_persister rsort) t w) s = (Ret (Some b), s')"
  using AssignBuild_finds [OF assms(1-3) _ assms(4,6)] assms(5) by (simp add: Len_def)

theorem AssignBuild_progress_witness:
  "\<exists>b s'. run (AssignBuild_svc repo_std 9 ''w'') sample_sys = (Ret (Some b), s')"
  by (rule AssignBuild_progress [where i = "''b1''"]) (simp_all add: pending_std sample_view Len_def)

text \<open>(C25) A cancellation that reports success found the build pending or building, leaves it
  cancelled and takes it out of the queue; a build that had finished stays as it is and the
  cancellation fails.\<close>

theorem CancelBuild_effect:
  assumes "pending_sorter rsort" and "ids_ok (store s)" and "queue_ok (que s)"
    and "run (CancelBuild (repo_persister rsort) t i) s = (res, s')"
  shows "(res = Ret () \<longrightarrow> db_view (store s) i \<in> {Some StatusPending, Some StatusBuilding} \<and>
       db_view (store s') = (db_view (store s))(i \<mapsto> StatusCancelled) \<and>
       queued (que s') \<subseteq># queued (que s) \<and>
       count (image_mset ID (queued (que s'))) i = count (image_mset ID (queued (que s))) i - 1) \<and>
    (\<forall>st. db_view (store s) i = Some st \<longrightarrow> IsTerminal st \<longrightarrow>
       res \<noteq> Ret () \<and> db_view (store s') = db_view (store s) \<and> que s' = que s)"
proof -
  note contract = pending_sorter.repo_contract [OF assms(1)]
  show ?thesis
    using build_persister.cancel_run [OF contract assms(2,3), of t i s']
      build_persister.cancel_finished [OF contract assms(2), of i _ t] assms(4) by fastforce
qed

theorem CancelBuild_effect_witness:
  "\<exists>s'. run (CancelBuild repo_std 9 ''b1'') sample_sys = (Ret (), s') \<and> db_view (store s') ''b1'' = Some StatusCancelled"
proof -
  obtain x q where "Remove ''b1'' (New 10) = (x, q)" by fastforce
  then obtain s' where r: "run (CancelBuild repo_std 9 ''b1'') sample_sys = (Ret (), s')"
    by (simp add: CancelBuild_def on_store_def Get_def run_stmt_sound sample_db_row update_step_def on_que_def
        UpdateStatus_sound new_row_def sample_def)
  then show ?thesis using CancelBuild_effect [OF pending_std _ _ r] by simp
qed

text \<open>Warming the queue pushes pending builds of the database in their order until the queue
  refuses one, and reports how many: at most one hundred, and fewer than the listing only if the
  queue is full.\<close>

theorem WarmQueue_effect:
  assumes "pending_sorter rsort" and "ids_ok (store s)" and "run (WarmQueue (repo_persister rsort)) s = (Ret n, s')"
  shows "let bs = map scan_row (pending_rows rsort (store s)) in
    n \<le> length bs \<and> length bs \<le> 100 \<and> distinct (map ID bs) \<and> (\<forall>b \<in> set bs. db_view (store s) (ID b) = Some StatusPending) \<and>
    queued (que s') = queued (que s) + mset (take n bs) \<and> (n < length bs \<longrightarrow> Full (que s')) \<and>
    db_view (store s') = db_view (store s)"
proof -
  obtain bs d where bs: "ListPending rsort (store s) = (Ret bs, d)"
    "(\<forall>b \<in> set bs. db_view (store s) (ID b) = Some StatusPending) \<and> distinct (map ID bs) \<and> n \<le> length bs \<and>
      queued (que s') = queued (que s) + mset (take n bs) \<and> (n < length bs \<longrightarrow> Full (que s')) \<and> db_view (store s') = db_view (store s)"
    using build_persister.warm_run [OF pending_sorter.repo_contract [OF assms(1)] assms(2,3)] by (simp; blast)
  then show ?thesis using ListPending_Ret(1) [OF bs(1)] by (simp add: pending_rows_def)
qed

theorem WarmQueue_effect_witness: "\<exists>s'. run (WarmQueue repo_std) sample_sys = (Ret 1, s') \<and> size (queued (que s')) = 1"
proof -
  let ?bs = "map scan_row (pending_rows (sort_key pending_key) sample_db)"
  obtain m q where q: "push_while Push ?bs 0 (New 10) = (m, q)" by fastforce
  then have r: "run (WarmQueue repo_std) sample_sys = (Ret m, sample_sys\<lparr>que := q\<rparr>)"
    by (simp add: WarmQueue_def on_store_def ListPending_eq query_def run_stmt_sound refill_run sample_sys_def)
  have len: "length ?bs = 1" by (simp add: pending_rows_def sample_db_eq is_pending_def new_row_def sample_def)
  have eff: "m \<le> 1" "queued q = mset (take m ?bs)" "m < 1 \<Longrightarrow> Full q"
    using WarmQueue_effect [OF pending_std _ r] len by (auto simp: Let_def)
  have "maxLen q = 10" using q push_while_maxLen [of ?bs 0 "New 10"] by simp
  then have "\<not> Full q" if "m < 1" using eff(2) that by (simp add: Full_def queued_empty_iff)
  then have "m = 1" using eff(1,3) by fastforce
  moreover from this have "size (queued q) = 1" using eff(2) len by (simp del: size_queued)
  ultimately show ?thesis using r by simp
qed

lemma CompleteBuild_sound:
  fixes t :: time and e :: string
  assumes "faults (store s) = []" and "ids_ok (store s)" and "st \<noteq> StatusBuilding" and "row_of (store s) i = Some r"
  defines "r' \<equiv> (if update_cond i st r then update_set (secs t) st [] [] e r else r)"
  shows "run (CompleteBuild (repo_persister rsort) sortf t i st e) s =
    (Ret (), s\<lparr>store := update_rows (update_cond i st) (update_set (secs t) st [] [] e) (store s),
       sched := (if c_worker_id r' \<noteq> [] then MarkWorkerIdle sortf (c_worker_id r') [c_fingerprint r'] (sched s) else sched s)\<rparr>)"
proof -
  let ?d = "update_rows (update_cond i st) (update_set (secs t) st [] [] e) (store s)"
  have "row_of ?d i = Some r'" using assms(4) by (simp add: row_of_update r'_def)
  then show ?thesis using assms(1-3)
    by (simp add: CompleteBuild_def update_step_def on_store_def UpdateStatus_sound Get_def run_stmt_sound on_sched_def)
qed

text \<open>(C24) A worker's report of a finished build, on a database that answers: a live build gets the
  reported status, its error and its completion time and keeps its worker, a finished build keeps
  its verdict, no other build changes, and the worker becomes idle on the ring.\<close>

theorem CompleteBuild_effect:
  assumes "faults (store s) = []" and "ids_ok (store s)" and "IsTerminal st" and "row_of (store s) i = Some r"
  shows "\<exists>s' r'. run (CompleteBuild (repo_persister rsort) sortf t i st e) s = (Ret (), s') \<and> row_of (store s') i = Some r' \<and>
    (if IsTerminal (c_status r) then r' = r
     else c_status r' = st \<and> c_error r' = e \<and> c_completed_at r' = Some (secs t) \<and> c_worker_id r' = c_worker_id r) \<and>
    (\<forall>j. j \<noteq> i \<longrightarrow> row_of (store s') j = row_of (store s) j) \<and> que s' = que s \<and>
    (c_worker_id r \<noteq> [] \<longrightarrow> (\<exists>ws. sworkers (sched s') (c_worker_id r) = Some ws \<and> wsStatus ws = ''idle''))"
proof -
  let ?d = "update_rows (update_cond i st) (update_set (secs t) st [] [] e) (store s)"
  let ?r = "if update_cond i st r then update_set (secs t) st [] [] e r else r"
  have st: "st \<noteq> StatusBuilding" using assms(3) by auto
  have row: "row_of ?d i = Some ?r" using assms(4) by (simp add: row_of_update)
  have "row_of ?d j = row_of (store s) j" if "j \<noteq> i" for j
    using that row_of_id [of "store s" j] by (cases "row_of (store s) j") (auto simp: row_of_update update_cond_def)
  moreover have "c_worker_id ?r = c_worker_id r" using assms(3) by (simp add: update_set_def)
  ultimately show ?thesis
    using CompleteBuild_sound [OF assms(1,2) st assms(4), of rsort sortf t e] row row_of_id [OF assms(4)] assms(3)
    by (auto simp: update_cond_def update_set_def MarkWorkerIdle_def Let_def)
qed

theorem CompleteBuild_effect_witness:
  "\<exists>s' r'. run (CompleteBuild repo_std (sort_key rhash) 3000000000 ''b1'' StatusFailed ''exit 1'') sample_sys = (Ret (), s') \<and>
     row_of (store s') ''b1'' = Some r' \<and> c_status r' = StatusFailed \<and> c_completed_at r' = Some 3"
  using CompleteBuild_effect [of sample_sys StatusFailed "''b1''" _ "sort_key pending_key" "sort_key rhash" 3000000000 "''exit 1''"]
  by (fastforce simp: sample_db_row new_row_def sample_def secs_def)

text \<open>Completing a build forgets the worker's cache: the scheduler replaces its cache keys, which
  are instruction texts, by the fingerprint of the build. Every build whose instructions contain a
  space, as each RUN, COPY and ADD line does, then scores zero on that worker, whatever the worker
  had cached, until its next heartbeat.\<close>

theorem CompleteBuild_drops_affinity:
  assumes "faults (store s) = []" and "ids_ok (store s)" and "IsTerminal st" and "row_of (store s) i = Some r"
    and "c_worker_id r \<noteq> []" and "c_fingerprint r = hex bs" and "\<forall>x \<in> set xs. CHR '' '' \<in> set x"
  shows "\<exists>s'. run (CompleteBuild (repo_persister rsort) sortf t i st e) s = (Ret (), s') \<and>
    ScoreBuildForWorker xs (c_worker_id r) (sched s') = 0"
proof -
  let ?r = "if update_cond i st r then update_set (secs t) st [] [] e r else r"
  have st: "st \<noteq> StatusBuilding" using assms(3) by auto
  have r: "c_worker_id ?r = c_worker_id r" "c_fingerprint ?r = hex bs" using assms(3,6) by (simp_all add: update_set_def)
  have "hex bs \<notin> set xs" using assms(7) hex_no_space [of bs] by blast
  then have "ScoreBuildForWorker xs (c_worker_id r) (MarkWorkerIdle sortf (c_worker_id r) [hex bs] (sched s)) = 0"
    using score_disjoint [of "MarkWorkerIdle sortf (c_worker_id r) [hex bs] (sched s)" "c_worker_id r" _ xs]
    by (auto simp: MarkWorkerIdle_def Let_def)
  then show ?thesis using CompleteBuild_sound [OF assms(1,2) st assms(4), of rsort sortf t e] r assms(5) by simp
qed

theorem CompleteBuild_drops_affinity_witness:
  "\<exists>s'. run (CompleteBuild repo_std (sort_key rhash) 9 ''b1'' StatusSucceeded [])
       (sample_sys\<lparr>store := snd (UpdateStatus 1700001800000000000 ''b1'' StatusBuilding ''w1'' [] [] sample_db)\<rparr>) = (Ret (), s') \<and>
     ScoreBuildForWorker [''RUN make''] ''w1'' (sched s') = 0"
proof -
  let ?d = "snd (UpdateStatus 1700001800000000000 ''b1'' StatusBuilding ''w1'' [] [] sample_db)"
  let ?r = "update_set 1700001800 StatusBuilding ''w1'' [] [] (new_row (sample\<lparr>CreatedAt := 1700000000500000000, UpdatedAt := 1700000000500000000\<rparr>))"
  have d: "faults ?d = []" "ids_ok ?d" "row_of ?d ''b1'' = Some ?r"
    by (simp_all add: UpdateStatus_ids)
      (simp_all add: UpdateStatus_sound row_of_update sample_db_row update_cond_def new_row_def sample_def secs_def StatusPending_def)
  show ?thesis
    using CompleteBuild_drops_affinity [of "sample_sys\<lparr>store := ?d\<rparr>" StatusSucceeded "''b1''" ?r "[171, 205]" "[''RUN make'']"] d
    by (simp add: update_set_def new_row_def sample_def)
qed

text \<open>(C38) The reported status is not checked: a report of status pending for a finished build brings
  it back to the pending builds, without its worker and with its completion time still set.\<close>

theorem CompleteBuild_revives:
  assumes "faults (store s) = []" and "ids_ok (store s)" and "row_of (store s) i = Some r"
  shows "\<exists>s' r'. run (CompleteBuild (repo_persister rsort) sortf t i StatusPending e) s = (Ret (), s') \<and>
    row_of (store s') i = Some r' \<and> c_status r' = StatusPending \<and> c_worker_id r' = [] \<and>
    c_completed_at r' = c_completed_at r"
proof -
  have st: "StatusPending \<noteq> StatusBuilding" by simp
  show ?thesis using CompleteBuild_sound [OF assms(1,2) st assms(3), of rsort sortf t e] row_of_id [OF assms(3)] assms(3)
    by (simp add: row_of_update update_cond_def update_set_def)
qed

theorem CompleteBuild_revives_witness:
  "\<exists>s' r'. run (CompleteBuild repo_std (sort_key rhash) 9 ''b1'' StatusPending []) 
       (sample_sys\<lparr>store := snd (UpdateStatus 1700001800000000000 ''b1'' StatusFailed [] [] ''e'' sample_db)\<rparr>) = (Ret (), s') \<and>
     row_of (store s') ''b1'' = Some r' \<and> c_status r' = StatusPending \<and> c_completed_at r' = Some 1700001800"
proof -
  let ?d = "snd (UpdateStatus 1700001800000000000 ''b1'' StatusFailed [] [] ''e'' sample_db)"
  let ?r = "update_set 1700001800 StatusFailed [] [] ''e'' (new_row (sample\<lparr>CreatedAt := 1700000000500000000, UpdatedAt := 1700000000500000000\<rparr>))"
  have d: "faults ?d = []" "ids_ok ?d" "row_of ?d ''b1'' = Some ?r"
    by (simp_all add: UpdateStatus_ids)
      (simp_all add: UpdateStatus_sound row_of_update sample_db_row update_cond_def new_row_def sample_def secs_def)
  show ?thesis using CompleteBuild_revives [of "sample_sys\<lparr>store := ?d\<rparr>" "''b1''" ?r "sort_key pending_key" "sort_key rhash" 9 "[]"] d
    by (auto simp: update_set_def)
qed

end
