(* ===== verification/System.thy ===== *)
theory System
  imports Service
begin

text \<open>
  The whole server as a pool of concurrent calls. A \<open>request\<close> is one call of the service
  layer with its arguments (what the HTTP handlers and the maintenance loop invoke),
  \<open>serve\<close> is its program of atomic steps, and a pool of requests runs by \<open>pool_step\<close> in
  any interleaving. The locale \<open>guarded\<close> collects the atomic steps from which the calls
  are built: a relation that each of them respects is respected by every call.
\<close>

subsection \<open>Requests\<close>

datatype request =
    Submit string "nat \<Rightarrow> time" string string string string string int "(string \<times> string) list"
  | Assign time string
  | Complete time string status string
  | Cancel time string
  | Warm
  | Log time string string
  | Beat time worker
  | Prune time int
  | Reassign time int int
  | Collect int time

datatype response = Submitted build | Assigned "build option" | Counted nat | Acked | Failed svc_error | Panicked

fun answer :: "('a \<Rightarrow> response) \<Rightarrow> (svc_error, 'a) outcome \<Rightarrow> response" where
  "answer f (Ret x) = f x"
| "answer f (Err e) = Failed e"
| "answer f Panic = Panicked"

fun serve :: "(nat \<Rightarrow> nat) \<Rightarrow> (build_row list \<Rightarrow> build_row list) \<Rightarrow> ring_sort \<Rightarrow> request \<Rightarrow> (database sys, response) prog" where
  "serve U rsort sortf (Submit uuid ts bid ctx df tag u tmo args) =
     map_prog (answer Submitted) (SubmitBuild (repo_persister rsort) U uuid ts bid ctx df tag u tmo args)"
| "serve U rsort sortf (Assign t w) = map_prog (answer Assigned) (AssignBuild_svc (repo_persister rsort) t w)"
| "serve U rsort sortf (Complete t i st e) = map_prog (answer (\<lambda>_. Acked)) (CompleteBuild (repo_persister rsort) sortf t i st e)"
| "serve U rsort sortf (Cancel t i) = map_prog (answer (\<lambda>_. Acked)) (CancelBuild (repo_persister rsort) t i)"
| "serve U rsort sortf Warm = map_prog (answer Counted) (WarmQueue (repo_persister rsort))"
| "serve U rsort sortf (Log t i line) = map_prog (answer (\<lambda>_. Acked)) (AppendLog (repo_persister rsort) t i line)"
| "serve U rsort sortf (Beat t w) = map_prog (answer (\<lambda>_. Acked)) (Heartbeat sortf t w)"
| "serve U rsort sortf (Prune t age) = map_prog (answer (\<lambda>_. Acked)) (PruneStale t age)"
| "serve U rsort sortf (Reassign t wt bt) = map_prog (answer (\<lambda>_. Acked)) (ReassignStaleBuilds t wt bt)"
| "serve U rsort sortf (Collect tz before) = map_prog (answer Counted) (GCCompleted tz before)"

text \<open>The statuses that completion reports may carry, here those with \<open>L\<close>: the handler passes on any
  status (\<open>Service.CompleteBuild_revives\<close> shows what a report of \<open>pending\<close> does). \<open>legal_status\<close> holds of
  the final ones, of \<open>building\<close> and of the empty one; workers report \<open>succeeded\<close> or \<open>failed\<close>.\<close>

fun reports :: "(status \<Rightarrow> bool) \<Rightarrow> request \<Rightarrow> bool" where
  "reports L (Complete t i st e) \<longleftrightarrow> L st"
| "reports L _ \<longleftrightarrow> True"

fun deletes :: "request \<Rightarrow> bool" where
  "deletes (Collect tz before) \<longleftrightarrow> True"
| "deletes _ \<longleftrightarrow> False"

fun requeues :: "request \<Rightarrow> bool" where
  "requeues (Reassign t wt bt) \<longleftrightarrow> True"
| "requeues _ \<longleftrightarrow> False"

subsection \<open>From atomic steps to calls\<close>

locale guarded =
  fixes P :: "'r persister" and sortf :: ring_sort and R :: "'r sys \<Rightarrow> 'r sys \<Rightarrow> bool" and L :: "status \<Rightarrow> bool"
  assumes g_legal: "legal_status st \<Longrightarrow> L st"
    and g_refl: "R s s"
    and g_create: "Status b = StatusPending \<Longrightarrow> R s (snd (create_step P t b s))"
    and g_update: "L st \<Longrightarrow> R s (snd (update_step P t i st w l e s))"
    and g_get: "R s (snd (on_store (pGet P i) s))"
    and g_list: "R s (snd (on_store (pListPending P) s))"
    and g_push: "R s (snd (on_que (Push b) s))"
    and g_remove: "R s (snd (on_que (Remove i) s))"
    and g_peek: "R s (snd (peek_step w s))"
    and g_idle: "R s (snd (on_sched (MarkWorkerIdle sortf w ks) s))"
begin

lemma legal_simps: "L StatusBuilding" "L StatusCancelled" "L []"
  by (rule g_legal, simp add: legal_status_def)+

lemma g_full: "R s (snd (Full (que s), s))"
  using g_refl by simp

lemmas g_steps = g_full g_create g_update g_get g_list g_push g_remove g_peek g_idle

lemma g_refill: "(\<And>n. all_steps R (k n)) \<Longrightarrow> all_steps R (refill bs n k)"
  by (induction bs arbitrary: n) (auto intro!: all_steps_atomic g_push)

lemma g_push_or_cancel: "all_steps R (push_or_cancel P t b)"
  unfolding push_or_cancel_def by (auto intro!: all_steps_atomic g_steps legal_simps)

lemma g_Submit: "all_steps R (SubmitBuild P U uuid ts bid ctx df tag u tmo args)"
proof -
  have "Status (new_build i ctx df tag u tmo args fp) = StatusPending" for i fp by (simp add: new_build_def)
  then show ?thesis unfolding SubmitBuild_def Let_def
    by (auto split: option.split outcome.split intro!: all_steps_atomic g_steps g_push_or_cancel)
qed

lemma g_claim: "all_steps R (claim P t w b)"
  unfolding claim_def by (auto split: outcome.split intro!: all_steps_atomic g_steps legal_simps)

lemma g_Assign: "all_steps R (AssignBuild_svc P t w)"
  unfolding AssignBuild_svc_def
  by (auto split: option.split outcome.split intro!: all_steps_atomic g_steps g_refill g_claim)

lemma g_Complete: "L st \<Longrightarrow> all_steps R (CompleteBuild P sortf t i st e)"
  unfolding CompleteBuild_def by (auto split: outcome.split intro!: all_steps_atomic g_steps legal_simps)

lemma g_Cancel: "all_steps R (CancelBuild P t i)"
  unfolding CancelBuild_def by (auto split: outcome.split intro!: all_steps_atomic g_steps legal_simps)

lemma g_Warm: "all_steps R (WarmQueue P)"
  unfolding WarmQueue_def by (auto split: outcome.split intro!: all_steps_atomic g_steps g_refill)

lemma g_Log: "all_steps R (AppendLog P t i line)"
  unfolding AppendLog_def by (auto split: outcome.split intro!: all_steps_atomic g_steps legal_simps)

end

text \<open>The calls that go to the repository itself.\<close>

locale guarded_db = guarded "repo_persister rsort" sortf R L
  for rsort :: "build_row list \<Rightarrow> build_row list" and sortf and R and L +
  assumes g_upsert: "R s (snd (on_store (\<lambda>d. case Upsert t x d of (w', res, d') \<Rightarrow> ((w', res), d')) s))"
    and g_register: "R s (snd (on_sched (RegisterWorker sortf w st ks) s))"
    and g_offline: "R s (snd (on_store (MarkOffline t age) s))"
begin

lemma reply_steps: "all_steps R (reply_call res)"
  by (simp add: reply_call_def)

lemma g_Beat: "all_steps R (Heartbeat sortf t w)"
  unfolding Heartbeat_def by (auto split: outcome.split intro!: all_steps_atomic g_upsert g_register)

lemma g_Prune: "all_steps R (PruneStale t age)"
  unfolding PruneStale_def by (intro all_steps_atomic g_offline reply_steps)

lemma g_serve:
  assumes "reports L q" and "\<And>tz t s. deletes q \<Longrightarrow> R s (snd (on_store (GC tz t) s))"
    and "\<And>t wt bt s. requeues q \<Longrightarrow> R s (snd (on_store (ReassignStale t wt bt) s))"
  shows "all_steps R (serve U rsort sortf q)"
proof (cases q)
  case (Reassign t wt bt)
  have "all_steps R (ReassignStaleBuilds t wt bt)"
    unfolding ReassignStaleBuilds_def using assms(3) Reassign by (intro all_steps_atomic reply_steps) simp
  then show ?thesis using Reassign by (simp add: all_steps_map)
next
  case (Collect tz t)
  have "all_steps R (GCCompleted tz t)"
    unfolding GCCompleted_def using assms(2) Collect by (intro all_steps_atomic reply_steps) simp
  then show ?thesis using Collect by (simp add: all_steps_map)
qed (use assms in \<open>simp_all add: all_steps_map g_Submit g_Assign g_Complete g_Cancel g_Warm g_Log g_Beat g_Prune\<close>)

end

subsection \<open>Safety of every interleaving\<close>

definition safe_step :: "database sys \<Rightarrow> database sys \<Rightarrow> bool" where
  "safe_step s s' \<longleftrightarrow> db_evolves (store s) (store s') \<and> (ids_ok (store s) \<longrightarrow> ids_ok (store s')) \<and>
     (rows_ok (store s) \<longrightarrow> rows_ok (store s')) \<and> (queue_ok (que s) \<longrightarrow> queue_ok (que s')) \<and> maxLen (que s') = maxLen (que s) \<and>
     (sched_ok (sched s) \<longrightarrow> sched_ok (sched s'))"

lemma safe_step_preorder: "reflp safe_step" "transp safe_step"
  by (auto simp: safe_step_def reflp_def transp_def intro: db_evolves_trans)

lemma safe_on_store:
  "db_evolves (store s) (snd (f (store s))) \<Longrightarrow> (ids_ok (store s) \<Longrightarrow> ids_ok (snd (f (store s)))) \<Longrightarrow>
   (rows_ok (store s) \<Longrightarrow> rows_ok (snd (f (store s)))) \<Longrightarrow> safe_step s (snd (on_store f s))"
  by (auto simp: safe_step_def on_store_def split: prod.split)

lemma safe_on_que:
  "(queue_ok (que s) \<Longrightarrow> queue_ok (snd (f (que s)))) \<Longrightarrow> maxLen (snd (f (que s))) = maxLen (que s) \<Longrightarrow> safe_step s (snd (on_que f s))"
  by (auto simp: safe_step_def on_que_def split: prod.split)

lemma safe_on_sched: "(sched_ok (sched s) \<Longrightarrow> sched_ok (f (sched s))) \<Longrightarrow> safe_step s (snd (on_sched f s))"
  by (simp add: safe_step_def on_sched_def)

lemma snd_reassoc: "snd (case x of (a, b, c) \<Rightarrow> ((a, b), c)) = snd (snd x)"
  by (simp split: prod.split)

lemma Upsert_builds: "builds (snd (snd (Upsert t w d))) = builds d"
  unfolding Upsert_def Let_def snd_conv
  by (cases "\<lambda>d. (Ret () :: (repo_error, unit) outcome, if wID (w\<lparr>wLastHeartbeat := t\<rparr>) \<in> w_id ` set (workers d)
        then d\<lparr>workers := map (\<lambda>r. if w_id r = wID (w\<lparr>wLastHeartbeat := t\<rparr>) then new_worker_row (w\<lparr>wLastHeartbeat := t\<rparr>) else r) (workers d)\<rparr>
        else d\<lparr>workers := workers d @ [new_worker_row (w\<lparr>wLastHeartbeat := t\<rparr>)]\<rparr> :: database)" d rule: run_stmt_state) auto

lemma MarkOffline_builds: "builds (snd (MarkOffline t age d)) = builds d"
  unfolding MarkOffline_def Let_def by (simp add: run_stmt_def split: list.split fault.split)

locale service_env = pend: pending_sorter rsort + rng: ring_sorter sortf
  for rsort :: "build_row list \<Rightarrow> build_row list" and sortf :: ring_sort

sublocale service_env \<subseteq> safe: guarded_db rsort sortf safe_step legal_status
proof
  show "safe_step s s" for s by (simp add: safe_step_def)
  show "safe_step s (snd (create_step (repo_persister rsort) t b s))" if "Status b = StatusPending" for s t b
    unfolding create_step_def using that by (intro safe_on_store) (simp_all add: snd_reassoc Create_evolves Create_ids Create_rows)
  show "safe_step s (snd (update_step (repo_persister rsort) t i st w l e s))" if "legal_status st" for s t i st w l e
    unfolding update_step_def using that by (intro safe_on_store) (simp_all add: UpdateStatus_evolves UpdateStatus_ids UpdateStatus_rows)
  show "safe_step s (snd (on_store (pGet (repo_persister rsort) i) s))" for s i
    by (rule safe_on_store) (simp_all add: read_ids read_rows)
  show "safe_step s (snd (on_store (pListPending (repo_persister rsort)) s))" for s
    by (rule safe_on_store) (simp_all add: read_ids read_rows)
  show "safe_step s (snd (on_que (Push b) s))" for s b by (rule safe_on_que) (simp_all add: Push_ok)
  show "safe_step s (snd (on_que (Remove i) s))" for s i by (rule safe_on_que) (simp_all add: Remove_ok)
  show "safe_step s (snd (peek_step w s))" for s w
    unfolding peek_step_def by (rule safe_on_que) (simp_all add: PeekByScore_ok)
  show "safe_step s (snd (on_sched (MarkWorkerIdle sortf w ks) s))" for s w ks
    unfolding MarkWorkerIdle_Register by (rule safe_on_sched) (rule rng.RegisterWorker_ok)
  show "safe_step s (snd (on_store (\<lambda>d. case Upsert t x d of (w', res, d') \<Rightarrow> ((w', res), d')) s))" for s t x
    by (rule safe_on_store) (simp_all add: snd_reassoc Upsert_ids db_evolves_same rows_ok_same [OF Upsert_builds] Upsert_builds)
  show "safe_step s (snd (on_sched (RegisterWorker sortf w st ks) s))" for s w st ks
    by (rule safe_on_sched) (rule rng.RegisterWorker_ok)
  show "safe_step s (snd (on_store (MarkOffline t age) s))" for s t age
    by (rule safe_on_store) (simp_all add: MarkOffline_ids db_evolves_same rows_ok_same [OF MarkOffline_builds] MarkOffline_builds)
qed

context service_env
begin

lemma serve_safe:
  assumes "reports legal_status q" and "\<not> deletes q"
  shows "all_steps safe_step (serve U rsort sortf q)"
proof (rule safe.g_serve [OF assms(1)])
  show "safe_step s (snd (on_store (GC tz t) s))" if "deletes q" for s tz t using assms(2) that by blast
  show "safe_step s (snd (on_store (ReassignStale t wt bt) s))" for s t wt bt
    by (rule safe_on_store) (simp_all add: ReassignStale_evolves ReassignStale_ids ReassignStale_rows_ok)
qed

lemma pool_safe:
  assumes "\<forall>q \<in> set qs. reports legal_status q \<and> \<not> deletes q" and "pool_steps (s, map (serve U rsort sortf) qs) (s', ps')"
  shows "safe_step s s'"
  using pool_steps_respects [OF safe_step_preorder assms(2)] serve_safe assms(1) by auto

end

text \<open>What needs no condition on the reports and survives deletions; the rows need legal reports.\<close>

definition sound_step :: "database sys \<Rightarrow> database sys \<Rightarrow> bool" where
  "sound_step s s' \<longleftrightarrow> (ids_ok (store s) \<longrightarrow> ids_ok (store s')) \<and> (queue_ok (que s) \<longrightarrow> queue_ok (que s')) \<and>
     maxLen (que s') = maxLen (que s) \<and> (sched_ok (sched s) \<longrightarrow> sched_ok (sched s'))"

definition rows_step :: "database sys \<Rightarrow> database sys \<Rightarrow> bool" where
  "rows_step s s' \<longleftrightarrow> (rows_ok (store s) \<longrightarrow> rows_ok (store s'))"

lemma sound_step_preorder: "reflp sound_step" "transp sound_step"
  by (auto simp: sound_step_def reflp_def transp_def)

lemma rows_step_preorder: "reflp rows_step" "transp rows_step"
  by (auto simp: rows_step_def reflp_def transp_def)

lemma safe_sound: "safe_step s s' \<Longrightarrow> sound_step s s'" "safe_step s s' \<Longrightarrow> rows_step s s'"
  by (simp_all add: safe_step_def sound_step_def rows_step_def)

lemma sound_on_store: "(ids_ok (store s) \<Longrightarrow> ids_ok (snd (f (store s)))) \<Longrightarrow> sound_step s (snd (on_store f s))"
  by (auto simp: sound_step_def on_store_def split: prod.split)

lemma rows_on_store: "(rows_ok (store s) \<Longrightarrow> rows_ok (snd (f (store s)))) \<Longrightarrow> rows_step s (snd (on_store f s))"
  by (auto simp: rows_step_def on_store_def split: prod.split)

sublocale service_env \<subseteq> sound: guarded_db rsort sortf sound_step "\<lambda>_. True"
proof
  show "sound_step s (snd (update_step (repo_persister rsort) t i st w l e s))" for s t i st w l e
    unfolding update_step_def by (rule sound_on_store) (simp add: UpdateStatus_ids)
qed (auto intro: safe_sound(1) safe.g_refl safe.g_steps safe.g_get [simplified] safe.g_list [simplified]
    safe.g_upsert safe.g_register safe.g_offline)

sublocale service_env \<subseteq> rows: guarded_db rsort sortf rows_step legal_status
  by unfold_locales (auto intro: safe_sound(2) safe.g_refl safe.g_steps safe.g_get [simplified] safe.g_list [simplified]
    safe.g_upsert safe.g_register safe.g_offline)

context service_env
begin

lemma serve_sound: "all_steps sound_step (serve U rsort sortf q)"
proof (rule sound.g_serve)
  show "reports (\<lambda>_. True) q" by (cases q) simp_all
  show "sound_step s (snd (on_store (GC tz t) s))" for s tz t by (rule sound_on_store) (rule GC_ids)
  show "sound_step s (snd (on_store (ReassignStale t wt bt) s))" for s t wt bt by (rule sound_on_store) (rule ReassignStale_ids)
qed

lemma serve_rows: "reports legal_status q \<Longrightarrow> all_steps rows_step (serve U rsort sortf q)"
  by (rule rows.g_serve) (auto intro: rows_on_store GC_rows_ok ReassignStale_rows_ok)

lemma pool_sound:
  assumes "pool_steps (s, map (serve U rsort sortf) qs) (s', ps')"
  shows "sound_step s s'"
  using pool_steps_respects [OF sound_step_preorder assms] serve_sound by auto

lemma pool_rows:
  assumes "\<forall>q \<in> set qs. reports legal_status q" and "pool_steps (s, map (serve U rsort sortf) qs) (s', ps')"
  shows "rows_step s s'"
  using pool_steps_respects [OF rows_step_preorder assms(2)] serve_rows assms(1) by auto

end

interpretation std_env: service_env "sort_key pending_key" "sort_key rhash"
  by (intro service_env.intro pending_stable.pending_sorter_axioms ring_stable.ring_sorter_axioms)

subsection \<open>Exclusive assignment\<close>

text \<open>No step puts a build that left the pending builds back among them; only the reassignment of
  stale builds and the deletion of old ones do.\<close>

definition keeps_claims :: "database sys \<Rightarrow> database sys \<Rightarrow> bool" where
  "keeps_claims s s' \<longleftrightarrow> (ids_ok (store s) \<longrightarrow> ids_ok (store s') \<and>
     (\<forall>i st. db_view (store s) i = Some st \<longrightarrow> st \<noteq> StatusPending \<longrightarrow>
        (\<exists>st'. db_view (store s') i = Some st' \<and> st' \<noteq> StatusPending)))"

lemma keeps_claims_preorder: "reflp keeps_claims" "transp keeps_claims"
  by (auto simp: keeps_claims_def reflp_def transp_def) meson

lemma keeps_same_store: "store s' = store s \<Longrightarrow> keeps_claims s s'"
  by (simp add: keeps_claims_def)

lemma keeps_same_view:
  "(ids_ok (store s) \<Longrightarrow> ids_ok (store s')) \<Longrightarrow> db_view (store s') = db_view (store s) \<Longrightarrow> keeps_claims s s'"
  by (simp add: keeps_claims_def)

lemma upd_view_keeps:
  "legal_status st \<Longrightarrow> v i = Some x \<Longrightarrow> x \<noteq> StatusPending \<Longrightarrow> \<exists>y. upd_view j st v i = Some y \<and> y \<noteq> StatusPending"
  by (auto simp: upd_view_def legal_status_def split: option.split)

lemma on_store_store: "store (snd (on_store f s)) = snd (f (store s))"
  by (simp add: on_store_def split: prod.split)

lemma on_que_store: "store (snd (on_que f s)) = store s"
  by (simp add: on_que_def split: prod.split)

lemma on_sched_store: "store (snd (on_sched f s)) = store s"
  by (simp add: on_sched_def)

lemma read_view: "db_view (snd (Get i d)) = db_view d" "db_view (snd (ListPending rsort d)) = db_view d"
  by (rule db_view_builds, simp add: Get_def ListPending_eq frame)+

lemma update_keeps:
  assumes "legal_status st"
  shows "keeps_claims s (snd (update_step (repo_persister rsort) t i st w l e s))"
  unfolding keeps_claims_def update_step_def on_store_store
  using UpdateStatus_view [of t i st w l e "store s"] upd_view_keeps [OF assms]
  by (auto simp: UpdateStatus_ids)

lemma create_keeps: "keeps_claims s (snd (create_step (repo_persister rsort) t b s))"
proof -
  obtain b' r d where c: "Create t b (store s) = (b', r, d)" by (metis prod_cases3)
  then show ?thesis unfolding keeps_claims_def create_step_def on_store_store
    using Create_Err_view [OF c] Create_ids [of "store s" t b] by auto
qed

sublocale service_env \<subseteq> keeps: guarded_db rsort sortf keeps_claims legal_status
proof
  show "keeps_claims s s" for s by (simp add: keeps_claims_def)
  show "keeps_claims s (snd (create_step (repo_persister rsort) t b s))" for s t b by (rule create_keeps)
  show "keeps_claims s (snd (update_step (repo_persister rsort) t i st w l e s))" if "legal_status st" for s t i st w l e
    using that by (rule update_keeps)
  show "keeps_claims s (snd (on_store (pGet (repo_persister rsort) i) s))" for s i
    by (rule keeps_same_view) (simp_all add: on_store_store read_ids read_view)
  show "keeps_claims s (snd (on_store (pListPending (repo_persister rsort)) s))" for s
    by (rule keeps_same_view) (simp_all add: on_store_store read_ids read_view)
  show "keeps_claims s (snd (on_que (Push b) s))" for s b by (rule keeps_same_store) (rule on_que_store)
  show "keeps_claims s (snd (on_que (Remove i) s))" for s i by (rule keeps_same_store) (rule on_que_store)
  show "keeps_claims s (snd (peek_step w s))" for s w
    by (rule keeps_same_store) (simp add: peek_step_def on_que_store)
  show "keeps_claims s (snd (on_sched (MarkWorkerIdle sortf w ks) s))" for s w ks
    by (rule keeps_same_store) (rule on_sched_store)
  show "keeps_claims s (snd (on_store (\<lambda>d. case Upsert t x d of (w', res, d') \<Rightarrow> ((w', res), d')) s))" for s t x
    by (rule keeps_same_view) (simp_all add: on_store_store snd_reassoc Upsert_ids db_view_builds [OF Upsert_builds])
  show "keeps_claims s (snd (on_sched (RegisterWorker sortf w st ks) s))" for s w st ks
    by (rule keeps_same_store) (rule on_sched_store)
  show "keeps_claims s (snd (on_store (MarkOffline t age) s))" for s t age
    by (rule keeps_same_view) (simp_all add: on_store_store MarkOffline_ids db_view_builds [OF MarkOffline_builds])
qed

text \<open>A step that answers an assignment with a build took it from the pending ones.\<close>

definition claim_move :: "database sys \<Rightarrow> database sys \<Rightarrow> (database sys, response) prog \<Rightarrow> bool" where
  "claim_move s s' p \<longleftrightarrow> keeps_claims s s' \<and>
     (ids_ok (store s) \<longrightarrow> (\<forall>b. p = Done (Assigned (Some b)) \<longrightarrow> db_view (store s) (ID b) = Some StatusPending \<and>
        (\<exists>st. db_view (store s') (ID b) = Some st \<and> st \<noteq> StatusPending)))"

lemma claim_move_other:
  assumes "keeps_claims s s'" and "\<And>a b. g a \<noteq> Assigned (Some b)"
  shows "claim_move s s' (map_prog g p)"
  using assms by (cases p) (auto simp: claim_move_def)

definition claimed :: "(database sys, response) prog list \<Rightarrow> string \<Rightarrow> nat set" where
  "claimed ps i = {k. k < length ps \<and> (\<exists>b. ps ! k = Done (Assigned (Some b)) \<and> ID b = i)}"

definition claims_ok :: "database sys \<times> (database sys, response) prog list \<Rightarrow> bool" where
  "claims_ok c \<longleftrightarrow> ids_ok (store (fst c)) \<and> (\<forall>p \<in> set (snd c). all_moves claim_move p) \<and>
     (\<forall>i j k. j \<in> claimed (snd c) i \<longrightarrow> k \<in> claimed (snd c) i \<longrightarrow> j = k) \<and>
     (\<forall>i. claimed (snd c) i \<noteq> {} \<longrightarrow> (\<exists>st. db_view (store (fst c)) i = Some st \<and> st \<noteq> StatusPending))"

lemma claims_ok_step:
  assumes "pool_step (s, ps) (s', ps')" and "claims_ok (s, ps)"
  shows "claims_ok (s', ps')"
proof -
  obtain k f p where k: "k < length ps" "ps ! k = Step f" "f s = (s', p)" "ps' = ps[k := p]"
    using assms(1) by (auto elim: pool_stepE)
  have ids: "ids_ok (store s)" and am: "all_moves claim_move (Step f)"
    using assms(2) k(1,2) nth_mem [OF k(1)] by (auto simp: claims_ok_def)
  have mv: "claim_move s s' p" and ap: "all_moves claim_move p"
    using am k(3) by (simp_all add: all_moves_Step) (metis fst_conv snd_conv, metis snd_conv)
  have keep: "keeps_claims s s'" using mv by (simp add: claim_move_def)
  have out: "k \<notin> claimed ps i" for i using k(2) by (simp add: claimed_def)
  have claimed': "claimed ps' i = claimed ps i \<union> (if \<exists>b. p = Done (Assigned (Some b)) \<and> ID b = i then {k} else {})" for i
    using k(1,2,4) out [of i] by (auto simp: claimed_def nth_list_update split: if_splits)
  have fresh: "claimed ps i = {}" if "p = Done (Assigned (Some b))" "ID b = i" for b i
  proof (rule ccontr)
    assume "claimed ps i \<noteq> {}"
    then obtain st where "db_view (store s) i = Some st" "st \<noteq> StatusPending"
      using assms(2) unfolding claims_ok_def fst_conv snd_conv by blast
    moreover have "db_view (store s) i = Some StatusPending"
      using mv ids that unfolding claim_move_def by blast
    ultimately show False by simp
  qed
  have "\<forall>q \<in> set ps'. all_moves claim_move q"
    using assms(2) ap k(4) set_update_subset_insert [of ps k p] by (auto simp: claims_ok_def)
  moreover have "\<forall>i j l. j \<in> claimed ps' i \<longrightarrow> l \<in> claimed ps' i \<longrightarrow> j = l"
    using assms(2) fresh unfolding claimed' claims_ok_def by (auto split: if_splits)
  moreover have "\<exists>st. db_view (store s') i = Some st \<and> st \<noteq> StatusPending" if "claimed ps' i \<noteq> {}" for i
  proof (cases "claimed ps i = {}")
    case True
    then show ?thesis using that mv ids unfolding claimed' by (auto simp: claim_move_def split: if_splits)
  next
    case False
    then show ?thesis using assms(2) keep ids by (auto simp: claims_ok_def keeps_claims_def)
  qed
  moreover have "ids_ok (store s')" using keep ids by (simp add: keeps_claims_def)
  ultimately show ?thesis by (simp add: claims_ok_def)
qed

lemma claims_ok_steps: "pool_steps (s, ps) (s', ps') \<Longrightarrow> claims_ok (s, ps) \<Longrightarrow> claims_ok (s', ps')"
  by (induction rule: rtranclp_induct2) (auto intro: claims_ok_step)

context service_env
begin

lemma claim_moves: "all_moves claim_move (map_prog (answer Assigned) (claim (repo_persister rsort) t w b))"
proof -
  have "claim_move s s' (map_prog (answer Assigned) (case res of Err e \<Rightarrow> Done (Err (ErrRepo e)) | Panic \<Rightarrow> Done Panic
      | Ret _ \<Rightarrow> Done (Ret (Some (b\<lparr>Status := StatusBuilding, WorkerID := w\<rparr>)))))"
    if u: "update_step (repo_persister rsort) t (ID b) StatusBuilding w [] [] s = (res, s')" for s s' res
  proof -
    have keep: "keeps_claims s s'"
      using update_keeps [of StatusBuilding s rsort t "ID b" w "[]" "[]"] u by (simp add: legal_status_def)
    show ?thesis
    proof (cases res)
      case (Ret x)
      then have "UpdateStatus t (ID b) StatusBuilding w [] [] (store s) = (Ret (), store s')"
        using u by (auto simp: update_step_def on_store_def split: prod.splits)
      then show ?thesis using keep Ret pend.repo.update_ret [of "store s" t "ID b" StatusBuilding w "[]" "[]" "()" "store s'"]
        by (auto simp: claim_move_def upd_view_def)
    qed (use keep in \<open>simp_all add: claim_move_def\<close>)
  qed
  then show ?thesis unfolding claim_def
    by (simp add: atomic_def all_moves_Step split: prod.split) (auto split: outcome.split)
qed

lemma plain_move: "keeps_claims s s' \<Longrightarrow> (\<And>b. p \<noteq> Done (Assigned (Some b))) \<Longrightarrow> claim_move s s' p"
  by (simp add: claim_move_def)

lemma claim_not_Done: "map_prog (answer Assigned) (claim P t w b) \<noteq> Done a"
  by (simp add: claim_def map_atomic)

lemma refill_moves:
  assumes "\<And>n. all_moves claim_move (k n)" and "\<And>n a. k n \<noteq> Done a"
  shows "all_moves claim_move (refill bs n k) \<and> (\<forall>a. refill bs n k \<noteq> Done a)"
proof (induction bs arbitrary: n)
  case (Cons b bs)
  show ?case
    using Cons.IH assms keeps.g_push by (auto intro!: all_moves_atomic plain_move split: if_splits)
qed (use assms in simp)

lemma map_refill: "map_prog g (refill bs n k) = refill bs n (\<lambda>m. map_prog g (k m))"
  by (induction bs arbitrary: n) (auto simp: map_atomic intro!: arg_cong [where f = "atomic _"])

lemma assign_moves: "all_moves claim_move (serve U rsort sortf (Assign t w))"
proof -
  let ?c = "\<lambda>b. map_prog (answer Assigned) (claim (repo_persister rsort) t w b)"
  have peek2: "all_moves claim_move (atomic (peek_step w) (\<lambda>found. ?c (case found of Some b \<Rightarrow> b | None \<Rightarrow> d)))" for d
    by (intro all_moves_atomic plain_move keeps.g_peek claim_not_Done claim_moves)
  have list: "all_moves claim_move (atomic (on_store (ListPending rsort)) (\<lambda>res. map_prog (answer Assigned) (case res of
      Ret bs \<Rightarrow> if bs = [] then Done (Ret None) else refill bs 0 (\<lambda>_. atomic (peek_step w) (\<lambda>found.
        claim (repo_persister rsort) t w (case found of Some b \<Rightarrow> b | None \<Rightarrow> hd bs))) | _ \<Rightarrow> Done (Ret None))))"
    using keeps.g_list peek2 refill_moves
    by (intro all_moves_atomic plain_move) (auto simp: map_refill map_atomic split: outcome.split)
  show ?thesis
    unfolding serve.simps AssignBuild_svc_def map_atomic
  proof (rule all_moves_atomic)
    show "all_moves claim_move (map_prog (answer Assigned) (case found of Some b \<Rightarrow> claim (repo_persister rsort) t w b
        | None \<Rightarrow> atomic (on_store (pListPending (repo_persister rsort))) (\<lambda>res. case res of
            Ret bs \<Rightarrow> if bs = [] then Done (Ret None) else refill bs 0 (\<lambda>_. atomic (peek_step w) (\<lambda>found.
              claim (repo_persister rsort) t w (case found of Some b \<Rightarrow> b | None \<Rightarrow> hd bs)))
          | _ \<Rightarrow> Done (Ret None))))" for found
      using list claim_moves by (simp add: map_atomic split: option.split)
  qed (rule plain_move [OF keeps.g_peek], simp add: claim_not_Done map_atomic split: option.split)
qed

lemma serve_moves:
  assumes "reports legal_status q" and "\<not> deletes q" and "\<not> requeues q"
  shows "all_moves claim_move (serve U rsort sortf q)"
proof -
  have a: "answer f x \<noteq> Assigned (Some b)" if "\<And>y. f y \<noteq> Assigned (Some b)" for f :: "'x \<Rightarrow> response" and x b
    using that by (cases x) auto
  have other: "all_moves claim_move (map_prog (answer f) p)"
    if "all_steps keeps_claims p" "\<And>y b. f y \<noteq> Assigned (Some b)" for f :: "'x \<Rightarrow> response" and p
    using that(1) by (rule all_steps_moves [where R = keeps_claims, rotated]) (rule claim_move_other, simp_all add: a that(2))
  show ?thesis
  proof (cases q)
    case (Assign t w)
    then show ?thesis using assign_moves by blast
  qed (use assms in \<open>simp_all add: other keeps.g_Submit keeps.g_Complete keeps.g_Cancel keeps.g_Warm keeps.g_Log keeps.g_Beat keeps.g_Prune\<close>)
qed

end

subsection \<open>Properties of the concurrent server\<close>

lemma std_service_env: "service_env (sort_key pending_key) (sort_key rhash)"
  by (rule std_env.service_env_axioms)

text \<open>(C2) Finished builds stay finished. Among calls of which none deletes builds (no garbage collection)
  and none reports a status other than a final one, \<open>building\<close> or the empty one, in whatever
  interleaving and with whatever database faults, a stored build keeps its identity (Dockerfile,
  context, arguments, owner, priority, creation time), its log only grows, its status moves along
  the life cycle, and once it is final its status, worker, error and completion time never change
  again. Both conditions are needed: a report of \<open>pending\<close> brings a finished build back
  (\<open>Service.CompleteBuild_revives\<close>), and a deleted build is no longer stored.\<close>

theorem concurrent_life_cycle:
  assumes "service_env rsort sortf" and "\<forall>q \<in> set qs. reports legal_status q \<and> \<not> deletes q"
    and "pool_steps (s, map (serve U rsort sortf) qs) (s', ps')" and "row_of (store s) i = Some r"
  shows "\<exists>r'. row_of (store s') i = Some r' \<and> fixed_cols r' = fixed_cols r \<and> (\<exists>l. c_logs r' = c_logs r @ l) \<and>
    life (c_status r) (c_status r') \<and>
    (IsTerminal (c_status r) \<longrightarrow> c_status r' = c_status r \<and> c_worker_id r' = c_worker_id r \<and>
       c_error r' = c_error r \<and> c_completed_at r' = c_completed_at r)"
proof -
  have "db_evolves (store s) (store s')"
    using service_env.pool_safe [OF assms(1-3)] by (simp add: safe_step_def)
  then obtain r' where "row_of (store s') i = Some r'" "evolves r r'" using assms(4) by (auto simp: db_evolves_def)
  then show ?thesis by (intro exI [of _ r']) (simp add: evolves_def verdict_def)
qed

text \<open>Two workers asking at once, on the sample database.\<close>

lemma run_serve_pool: "run p s = (a, s') \<Longrightarrow> pool_steps (s, [p]) (s', [Done a])"
  using run_pool [of 0 "[p]" p s a s'] by simp

theorem concurrent_life_cycle_witness:
  "\<exists>s' ps' r'. pool_steps (sample_sys, map (serve id (sort_key pending_key) (sort_key rhash)) [Log 5 ''b1'' ''hello'']) (s', ps') \<and>
     row_of (store s') ''b1'' = Some r' \<and> c_dockerfile r' = Dockerfile sample"
proof -
  obtain a s' where r: "run (serve id (sort_key pending_key) (sort_key rhash) (Log 5 ''b1'' ''hello'')) sample_sys = (a, s')" by fastforce
  then have p: "pool_steps (sample_sys, map (serve id (sort_key pending_key) (sort_key rhash)) [Log 5 ''b1'' ''hello'']) (s', [Done a])"
    using run_serve_pool by simp
  show ?thesis
    using concurrent_life_cycle [OF std_service_env _ p, of "''b1''"] p
    by (fastforce simp: sample_db_row fixed_cols_def new_row_def sample_def)
qed

text \<open>(C3) The invariants of the server hold in every interleaving of any calls, garbage collections,
  reassignments and reports of any status included, and with any database faults: identifiers are
  unique, the queue is a heap within its bound, and the ring is sorted and consistent with the
  registered workers. When no completion report carries a status other than a final one,
  \<open>building\<close> or the empty one, moreover every stored build has one of the six statuses and a
  completion time exactly when it is final.\<close>

theorem concurrent_invariants:
  assumes "service_env rsort sortf"
    and "pool_steps (\<lparr>store = empty_db\<lparr>faults := fs\<rparr>, que = New n, sched = New_scheduler\<rparr>, map (serve U rsort sortf) qs) (s', ps')"
  shows "ids_ok (store s') \<and> queue_ok (que s') \<and> (0 < n \<longrightarrow> int (Len (que s')) \<le> n) \<and> sched_ok (sched s') \<and>
    ((\<forall>q \<in> set qs. reports legal_status q) \<longrightarrow>
      (\<forall>r \<in> set (builds (store s')). (c_status r = StatusPending \<or> c_status r = StatusBuilding \<or> IsTerminal (c_status r)) \<and>
         (c_completed_at r \<noteq> None \<longleftrightarrow> IsTerminal (c_status r))))"
proof (intro conjI impI)
  have "sound_step \<lparr>store = empty_db\<lparr>faults := fs\<rparr>, que = New n, sched = New_scheduler\<rparr> s'"
    by (rule service_env.pool_sound [OF assms])
  then have ok: "ids_ok (store s')" "queue_ok (que s')" "maxLen (que s') = n" "sched_ok (sched s')"
    by (simp_all add: sound_step_def sched_ok_New empty_db_def) (simp add: ids_ok_def)
  then show "ids_ok (store s')" "queue_ok (que s')" "sched_ok (sched s')" by blast+
  show "int (Len (que s')) \<le> n" if "0 < n" using ok(2,3) that by (auto simp: queue_ok_def Len_def)
  assume "\<forall>q \<in> set qs. reports legal_status q"
  then have "rows_ok (store s')" using service_env.pool_rows [OF assms(1) _ assms(2)] by (simp add: rows_step_def rows_ok_def empty_db_def)
  then show "\<forall>r \<in> set (builds (store s')). (c_status r = StatusPending \<or> c_status r = StatusBuilding \<or> IsTerminal (c_status r)) \<and>
      (c_completed_at r \<noteq> None \<longleftrightarrow> IsTerminal (c_status r))" by (auto simp: rows_ok_def row_ok_def)
qed

theorem concurrent_invariants_witness:
  "\<exists>s' ps'. pool_steps (\<lparr>store = empty_db\<lparr>faults := [Unacked ''timeout'']\<rparr>, que = New 1, sched = New_scheduler\<rparr>,
      map (serve id (sort_key pending_key) (sort_key rhash)) [Submit ''u'' (\<lambda>_. 5) [] ''k'' ''Dockerfile'' ''img'' ''me'' 60 []]) (s', ps') \<and>
    ids_ok (store s') \<and> int (Len (que s')) \<le> 1"
proof -
  let ?q = "Submit ''u'' (\<lambda>_. 5) [] ''k'' ''Dockerfile'' ''img'' ''me'' 60 []"
  let ?s = "\<lparr>store = empty_db\<lparr>faults := [Unacked ''timeout'']\<rparr>, que = New 1, sched = New_scheduler\<rparr>"
  obtain a s' where "run (serve id (sort_key pending_key) (sort_key rhash) ?q) ?s = (a, s')" by fastforce
  then have p: "pool_steps (?s, map (serve id (sort_key pending_key) (sort_key rhash)) [?q]) (s', [Done a])"
    using run_serve_pool by simp
  then show ?thesis using concurrent_invariants [OF std_service_env p] by auto
qed

text \<open>(C1) No build is handed out twice. Among calls that run concurrently, in any interleaving and with
  any database faults, no two assignments return the same build, as long as none of the calls
  brings a build back: no reassignment of stale builds, no garbage collection (after which an
  identifier may be submitted again), and no completion report of a status other than a final one,
  \<open>building\<close> or the empty one.\<close>

theorem concurrent_exclusive_assignment:
  assumes "service_env rsort sortf" and "\<forall>q \<in> set qs. reports legal_status q \<and> \<not> deletes q \<and> \<not> requeues q"
    and "ids_ok (store s)" and "pool_steps (s, map (serve U rsort sortf) qs) (s', ps')"
    and "j < length ps'" and "k < length ps'" and "ps' ! j = Done (Assigned (Some b))" and "ps' ! k = Done (Assigned (Some c))"
    and "ID b = ID c"
  shows "j = k"
proof -
  let ?ps = "map (serve U rsort sortf) qs"
  have "claimed ?ps i = {}" for i
  proof -
    have "serve U rsort sortf q \<noteq> Done (Assigned (Some b))" for q b
    proof (cases q)
      case (Submit uuid ts bid ctx df tag u tmo args)
      then show ?thesis by (auto simp: SubmitBuild_def Let_def map_atomic split: option.split outcome.split)
    qed (simp_all add: AssignBuild_svc_def CompleteBuild_def CancelBuild_def WarmQueue_def AppendLog_def
          Heartbeat_def PruneStale_def ReassignStaleBuilds_def GCCompleted_def map_atomic)
    then show ?thesis by (auto simp: claimed_def)
  qed
  then have "claims_ok (s, ?ps)"
    using assms(2,3) service_env.serve_moves [OF assms(1)] by (auto simp: claims_ok_def)
  then have "claims_ok (s', ps')" using claims_ok_steps [OF assms(4)] by blast
  then show ?thesis using assms(5-9) by (auto simp: claims_ok_def claimed_def)
qed

theorem concurrent_exclusive_assignment_witness:
  "\<exists>s' b r. pool_steps (sample_sys, map (serve id (sort_key pending_key) (sort_key rhash)) [Assign 9 ''w1'', Assign 9 ''w2''])
       (s', [Done (Assigned (Some b)), Done r]) \<and> \<not> (\<exists>c. r = Assigned (Some c) \<and> ID c = ID b)"
proof -
  let ?serve = "serve id (sort_key pending_key) (sort_key rhash)"
  let ?ps = "map ?serve [Assign 9 ''w1'', Assign 9 ''w2'']"
  obtain b s1 where "run (AssignBuild_svc repo_std 9 ''w1'') sample_sys = (Ret (Some b), s1)"
    using AssignBuild_finds [OF pending_std, of sample_sys "''b1''" 9 "''w1''"] sample_view by auto
  then have "run (?ps ! 0) sample_sys = (Assigned (Some b), s1)" by (simp add: run_map)
  then have 1: "pool_steps (sample_sys, ?ps) (s1, ?ps[0 := Done (Assigned (Some b))])" by (intro run_pool) simp_all
  obtain r s2 where "run (?serve (Assign 9 ''w2'')) s1 = (r, s2)" by fastforce
  then have "pool_steps (s1, ?ps[0 := Done (Assigned (Some b))]) (s2, ?ps[0 := Done (Assigned (Some b)), 1 := Done r])"
    by (intro run_pool) simp_all
  with 1 have p: "pool_steps (sample_sys, ?ps) (s2, [Done (Assigned (Some b)), Done r])" by simp
  have "ID c \<noteq> ID b" if "r = Assigned (Some c)" for c
    using concurrent_exclusive_assignment [OF std_service_env _ _ p, of 0 1 b c] that by auto
  then show ?thesis using p by blast
qed

subsection \<open>How long calls take\<close>













end
