(* ===== verification/Log_Broker.thy ===== *)
theory Log_Broker
  imports Go_Strings
begin

text \<open>
  The log broker of \<open>src/server/internal/api/logbroker.go\<close>: the subscribers of the build
  logs, each with a channel of 64 slots and a closed flag, the operations \<open>subscribe\<close>,
  \<open>unsubscribe\<close> and \<open>publish\<close>, and the server-sent events that \<open>streamSSE\<close> writes.

  A \<open>*subscriber\<close> is an address into a store; addresses are handed out in order. Ranging
  over \<open>map[*subscriber]struct{}\<close> has no fixed order in Go: the order is the parameter
  \<open>ord\<close>. The first half of the theory has the operations as functions, the second half the
  same operations cut at their synchronisation points, as the steps of concurrent threads.
  Sending on a closed channel and closing a closed channel panic in Go; there they are the
  state \<open>Crashed\<close> of the thread.
\<close>

subsection \<open>State\<close>

record subscriber =
  ch :: "string list"
  ch_closed :: bool
  closed_flag :: bool

record logBroker =
  subs :: "string \<rightharpoonup> nat set"
  heap_subs :: "nat \<rightharpoonup> subscriber"
  next_addr :: nat

definition newLogBroker :: logBroker where
  "newLogBroker = \<lparr>subs = Map.empty, heap_subs = Map.empty, next_addr = 0\<rparr>"

definition chan_cap :: nat where
  "chan_cap = 64"

definition subs_of :: "logBroker \<Rightarrow> string \<Rightarrow> nat set" where
  "subs_of B b = (case subs B b of None \<Rightarrow> {} | Some S \<Rightarrow> S)"

definition upd_sub :: "nat \<Rightarrow> (subscriber \<Rightarrow> subscriber) \<Rightarrow> logBroker \<Rightarrow> logBroker" where
  "upd_sub p f B = B\<lparr>heap_subs := (heap_subs B)(p := map_option f (heap_subs B p))\<rparr>"

subsection \<open>Operations\<close>

definition subscribe :: "string \<Rightarrow> logBroker \<Rightarrow> nat \<times> logBroker" where
  "subscribe b B =
     (let p = next_addr B in
      (p, B\<lparr>subs := (subs B)(b \<mapsto> insert p (subs_of B b)),
            heap_subs := (heap_subs B)(p \<mapsto> \<lparr>ch = [], ch_closed = False, closed_flag = False\<rparr>),
            next_addr := Suc p\<rparr>))"

text \<open>The three parts of \<open>unsubscribe\<close>: the flag, the section under the lock, the close.\<close>

definition flag_sub :: "nat \<Rightarrow> logBroker \<Rightarrow> logBroker" where
  "flag_sub p = upd_sub p (closed_flag_update (\<lambda>_. True))"

definition delete_sub :: "string \<Rightarrow> nat \<Rightarrow> logBroker \<Rightarrow> logBroker" where
  "delete_sub b p B =
     (case subs B b of
        None \<Rightarrow> B
      | Some S \<Rightarrow> B\<lparr>subs := (subs B)(b := (if S - {p} = {} then None else Some (S - {p})))\<rparr>)"

definition is_closed :: "logBroker \<Rightarrow> nat \<Rightarrow> bool" where
  "is_closed B p = (case heap_subs B p of None \<Rightarrow> False | Some s \<Rightarrow> ch_closed s)"

text \<open>\<open>close\<close>; \<open>None\<close> is the panic of closing a closed channel.\<close>

definition close_sub :: "nat \<Rightarrow> logBroker \<Rightarrow> logBroker option" where
  "close_sub p B =
     (if is_closed B p then None else Some (upd_sub p (ch_closed_update (\<lambda>_. True)) B))"

definition unsubscribe :: "string \<Rightarrow> nat \<Rightarrow> logBroker \<Rightarrow> logBroker option" where
  "unsubscribe b p B = close_sub p (delete_sub b p (flag_sub p B))"

definition flagged :: "logBroker \<Rightarrow> nat \<Rightarrow> bool" where
  "flagged B p = (case heap_subs B p of None \<Rightarrow> False | Some s \<Rightarrow> closed_flag s)"

text \<open>
  The \<open>select\<close> with a \<open>default\<close>: a closed channel panics (\<open>None\<close>), a full one drops the
  line, any other one takes it at its end.
\<close>

definition offer :: "string \<Rightarrow> subscriber \<Rightarrow> subscriber" where
  "offer l s = (if length (ch s) < chan_cap then s\<lparr>ch := ch s @ [l]\<rparr> else s)"

definition select_send :: "string \<Rightarrow> nat \<Rightarrow> logBroker \<Rightarrow> logBroker option" where
  "select_send l p B = (if is_closed B p then None else Some (upd_sub p (offer l) B))"

fun publish_loop :: "string \<Rightarrow> nat list \<Rightarrow> logBroker \<Rightarrow> logBroker option" where
  "publish_loop l [] B = Some B"
| "publish_loop l (p # ps) B =
     (if flagged B p then publish_loop l ps B
      else case select_send l p B of None \<Rightarrow> None | Some B' \<Rightarrow> publish_loop l ps B')"

definition publish :: "(nat set \<Rightarrow> nat list) \<Rightarrow> string \<Rightarrow> string \<Rightarrow> logBroker \<Rightarrow> logBroker option" where
  "publish ord b l B = publish_loop l (ord (subs_of B b)) B"

text \<open>A receive on the channel: \<open>None\<close> when it would block.\<close>

definition receive :: "nat \<Rightarrow> logBroker \<Rightarrow> (string \<times> logBroker) option" where
  "receive p B =
     (case heap_subs B p of
        None \<Rightarrow> None
      | Some s \<Rightarrow> (case ch s of [] \<Rightarrow> None | l # ls \<Rightarrow> Some (l, upd_sub p (ch_update (\<lambda>_. ls)) B)))"

subsection \<open>Server-sent events\<close>

definition sse_event :: "string \<Rightarrow> string" where
  "sse_event l = ''data: '' @ l @ [CHR 0x0A, CHR 0x0A]"

definition sse_existing :: "string \<Rightarrow> string" where
  "sse_existing logs =
     (if logs = [] then [] else concat (map sse_event (Split (CHR 0x0A) logs)))"

definition sse_live :: "string \<Rightarrow> string" where
  "sse_live l = sse_event (TrimRight l (CHR 0x0A))"

text \<open>
  The decoding that the event-stream format prescribes for a client: lines end in a line
  feed, a carriage return or both, the \<open>data\<close> fields since the last blank line are joined by line
  feeds, other fields are ignored, one space after the colon is skipped, and a blank line
  dispatches the event unless no \<open>data\<close> field came.
\<close>

definition sse_field :: "string \<Rightarrow> string option" where
  "sse_field l =
     (if HasPrefix l ''data: '' then Some (drop 6 l)
      else if HasPrefix l ''data:'' then Some (drop 5 l)
      else if l = ''data'' then Some []
      else None)"

fun sse_decode :: "string list \<Rightarrow> string list \<Rightarrow> string list" where
  "sse_decode acc [] = []"
| "sse_decode acc (l # ls) =
     (if l = [] then (if acc = [] then sse_decode [] ls
                      else Join [CHR 0x0A] (rev acc) # sse_decode [] ls)
      else case sse_field l of None \<Rightarrow> sse_decode acc ls | Some d \<Rightarrow> sse_decode (d # acc) ls)"

fun sse_newlines :: "string \<Rightarrow> string" where
  "sse_newlines [] = []"
| "sse_newlines (c # s) =
     (if c = CHR 0x0D then
        CHR 0x0A # (case s of [] \<Rightarrow> [] | d # t \<Rightarrow> if d = CHR 0x0A then sse_newlines t else sse_newlines s)
      else c # sse_newlines s)"

definition sse_client :: "string \<Rightarrow> string list" where
  "sse_client text = sse_decode [] (Split (CHR 0x0A) (sse_newlines text))"

subsection \<open>Threads\<close>

text \<open>
  Where a thread stands. A publisher holds the read lock from \<open>PubRange\<close> on, a stream
  takes the write lock in its \<open>subscribe\<close> and in the deletion of \<open>unsubscribe\<close>; a write
  section touches nothing but the map and is one step, possible only while no publisher
  holds the read lock. A stream carries the text that it has written.
\<close>

datatype pc =
    PubStart string string
  | PubRange "nat list" string string
  | PubSend nat "nat list" string string
  | PubDone
  | StrStart string string
  | StrLive string nat string
  | StrFlagged string nat string
  | StrDeleted string nat string
  | StrDone string
  | Crashed

fun reading :: "pc \<Rightarrow> bool" where
  "reading (PubRange _ _ _) = True"
| "reading (PubSend _ _ _ _) = True"
| "reading _ = False"

type_synonym broker_state = "logBroker \<times> (nat \<Rightarrow> pc)"

definition free_to_write :: "(nat \<Rightarrow> pc) \<Rightarrow> bool" where
  "free_to_write ts \<longleftrightarrow> (\<forall>i. \<not> reading (ts i))"

inductive broker_step :: "broker_state \<Rightarrow> broker_state \<Rightarrow> bool" where
  rlock: "ts i = PubStart b l \<Longrightarrow> set ps = subs_of B b \<Longrightarrow> distinct ps \<Longrightarrow>
     broker_step (B, ts) (B, ts(i := PubRange ps b l))"
| skip_closed: "ts i = PubRange (p # ps) b l \<Longrightarrow> flagged B p \<Longrightarrow>
     broker_step (B, ts) (B, ts(i := PubRange ps b l))"
| see_open: "ts i = PubRange (p # ps) b l \<Longrightarrow> \<not> flagged B p \<Longrightarrow>
     broker_step (B, ts) (B, ts(i := PubSend p ps b l))"
| send: "ts i = PubSend p ps b l \<Longrightarrow> select_send l p B = Some B' \<Longrightarrow>
     broker_step (B, ts) (B', ts(i := PubRange ps b l))"
| send_panic: "ts i = PubSend p ps b l \<Longrightarrow> select_send l p B = None \<Longrightarrow>
     broker_step (B, ts) (B, ts(i := Crashed))"
| runlock: "ts i = PubRange [] b l \<Longrightarrow>
     broker_step (B, ts) (B, ts(i := PubDone))"
| subscribes: "ts i = StrStart b logs \<Longrightarrow> free_to_write ts \<Longrightarrow> subscribe b B = (p, B') \<Longrightarrow>
     broker_step (B, ts) (B', ts(i := StrLive b p (sse_existing logs)))"
| receives: "ts i = StrLive b p out \<Longrightarrow> receive p B = Some (l, B') \<Longrightarrow>
     broker_step (B, ts) (B', ts(i := StrLive b p (out @ sse_live l)))"
| disconnects: "ts i = StrLive b p out \<Longrightarrow>
     broker_step (B, ts) (flag_sub p B, ts(i := StrFlagged b p out))"
| deletes: "ts i = StrFlagged b p out \<Longrightarrow> free_to_write ts \<Longrightarrow>
     broker_step (B, ts) (delete_sub b p B, ts(i := StrDeleted b p out))"
| closes: "ts i = StrDeleted b p out \<Longrightarrow> close_sub p B = Some B' \<Longrightarrow>
     broker_step (B, ts) (B', ts(i := StrDone out))"
| close_panic: "ts i = StrDeleted b p out \<Longrightarrow> close_sub p B = None \<Longrightarrow>
     broker_step (B, ts) (B, ts(i := Crashed))"

fun initial_pc :: "pc \<Rightarrow> bool" where
  "initial_pc (PubStart _ _) = True"
| "initial_pc (StrStart _ _) = True"
| "initial_pc PubDone = True"
| "initial_pc _ = False"

inductive broker_reach :: "broker_state \<Rightarrow> bool" where
  start: "(\<And>i. initial_pc (ts i)) \<Longrightarrow> broker_reach (newLogBroker, ts)"
| more: "broker_reach s \<Longrightarrow> broker_step s s' \<Longrightarrow> broker_reach s'"

subsection \<open>The store of subscribers\<close>

lemma upd_sub_simps [simp]:
  "subs (upd_sub p f B) = subs B"
  "subs_of (upd_sub p f B) = subs_of B"
  "next_addr (upd_sub p f B) = next_addr B"
  "heap_subs (upd_sub p f B) q = (if q = p then map_option f (heap_subs B p) else heap_subs B q)"
  by (auto simp: upd_sub_def subs_of_def fun_eq_iff)

lemma is_closed_upd [simp]:
  "is_closed (upd_sub p f B) q =
     (if q = p then (case heap_subs B p of None \<Rightarrow> False | Some s \<Rightarrow> ch_closed (f s)) else is_closed B q)"
  by (simp add: is_closed_def split: option.split)

lemma offer_simps [simp]:
  "ch_closed (offer l s) = ch_closed s" "closed_flag (offer l s) = closed_flag s"
  "length (ch s) \<le> chan_cap \<Longrightarrow> length (ch (offer l s)) \<le> chan_cap"
  by (auto simp: offer_def)

lemma offer_eq: "length (ch s) \<le> chan_cap \<Longrightarrow> ch (offer l s) = take chan_cap (ch s @ [l])"
  by (simp add: offer_def)

lemma delete_sub_simps [simp]:
  "heap_subs (delete_sub b p B) = heap_subs B"
  "next_addr (delete_sub b p B) = next_addr B"
  "subs_of (delete_sub b p B) c = (if c = b then subs_of B b - {p} else subs_of B c)"
  "is_closed (delete_sub b p B) = is_closed B"
  by (auto simp: delete_sub_def subs_of_def is_closed_def fun_eq_iff split: option.split)

lemma delete_sub_nonempty:
  "(\<And>c. subs B c \<noteq> Some {}) \<Longrightarrow> subs (delete_sub b p B) c \<noteq> Some {}"
  by (auto simp: delete_sub_def split: option.split)

lemma subscribe_simps:
  assumes "subscribe b B = (p, B')"
  shows "p = next_addr B" "next_addr B' = Suc p"
    "subs_of B' c = (if c = b then insert p (subs_of B b) else subs_of B c)"
    "heap_subs B' q = (if q = p then Some \<lparr>ch = [], ch_closed = False, closed_flag = False\<rparr>
                       else heap_subs B q)"
    "subs B' c = (if c = b then Some (insert p (subs_of B b)) else subs B c)"
  using assms by (auto simp: subscribe_def Let_def subs_of_def)

subsection \<open>No thread panics\<close>

fun owned :: "pc \<Rightarrow> nat option" where
  "owned (StrLive _ p _) = Some p"
| "owned (StrFlagged _ p _) = Some p"
| "owned (StrDeleted _ p _) = Some p"
| "owned _ = None"

fun listed :: "pc \<Rightarrow> (string \<times> nat) option" where
  "listed (StrLive b p _) = Some (b, p)"
| "listed (StrFlagged b p _) = Some (b, p)"
| "listed _ = None"

fun held :: "pc \<Rightarrow> (string \<times> nat) set" where
  "held (PubRange ps b _) = {b} \<times> set ps"
| "held (PubSend p ps b _) = {b} \<times> insert p (set ps)"
| "held _ = {}"

text \<open>
  Every stream owns an open channel of its own, the map lists exactly the subscribers of
  the streams that have not left it, and what a publisher still has to visit is listed.
\<close>

definition streams_ok :: "broker_state \<Rightarrow> bool" where
  "streams_ok s \<longleftrightarrow>
     (\<forall>i p. owned (snd s i) = Some p \<longrightarrow> (\<exists>u. heap_subs (fst s) p = Some u \<and> \<not> ch_closed u)) \<and>
     (\<forall>i j p. owned (snd s i) = Some p \<and> owned (snd s j) = Some p \<longrightarrow> i = j)"

definition map_ok :: "broker_state \<Rightarrow> bool" where
  "map_ok s \<longleftrightarrow>
     (\<forall>b p. p \<in> subs_of (fst s) b \<longleftrightarrow> (\<exists>i. listed (snd s i) = Some (b, p))) \<and>
     (\<forall>i b p. (b, p) \<in> held (snd s i) \<longrightarrow> p \<in> subs_of (fst s) b)"

definition store_ok :: "logBroker \<Rightarrow> bool" where
  "store_ok B \<longleftrightarrow>
     (\<forall>b. subs B b \<noteq> Some {}) \<and> (\<forall>p. next_addr B \<le> p \<longrightarrow> heap_subs B p = None) \<and>
     (\<forall>p s. heap_subs B p = Some s \<longrightarrow> length (ch s) \<le> chan_cap)"

definition broker_inv :: "broker_state \<Rightarrow> bool" where
  "broker_inv s \<longleftrightarrow> streams_ok s \<and> map_ok s \<and> store_ok (fst s) \<and> (\<forall>i. snd s i \<noteq> Crashed)"

lemma listed_owned: "listed t = Some (b, p) \<Longrightarrow> owned t = Some p"
  by (cases t) auto

lemma held_reading: "x \<in> held t \<Longrightarrow> reading t"
  by (cases t) auto

lemma held_open:
  assumes "streams_ok s" "map_ok s" "(b, p) \<in> held (snd s i)"
  shows "\<not> is_closed (fst s) p"
proof -
  obtain j where "listed (snd s j) = Some (b, p)" using assms(2,3) unfolding map_ok_def by blast
  then obtain u where "heap_subs (fst s) p = Some u" "\<not> ch_closed u"
    using listed_owned assms(1) unfolding streams_ok_def by blast
  then show ?thesis by (simp add: is_closed_def)
qed

lemma owned_open:
  "streams_ok s \<Longrightarrow> owned (snd s i) = Some p \<Longrightarrow> \<not> is_closed (fst s) p"
  unfolding streams_ok_def is_closed_def by fastforce

definition open_at :: "logBroker \<Rightarrow> nat \<Rightarrow> bool" where
  "open_at B p \<longleftrightarrow> (\<exists>u. heap_subs B p = Some u \<and> \<not> ch_closed u)"

lemma open_at_upd [simp]:
  "(\<And>u. ch_closed (f u) = ch_closed u) \<Longrightarrow> open_at (upd_sub q f B) p = open_at B p"
  "q \<noteq> p \<Longrightarrow> open_at (upd_sub q f B) p = open_at B p"
  by (auto simp: open_at_def)

lemma open_at_delete [simp]: "open_at (delete_sub b q B) p = open_at B p"
  by (simp add: open_at_def)

lemma streams_okI:
  assumes "\<And>i p. owned (ts i) = Some p \<Longrightarrow> open_at B p"
    and "\<And>i j p. owned (ts i) = Some p \<Longrightarrow> owned (ts j) = Some p \<Longrightarrow> i = j"
  shows "streams_ok (B, ts)"
  using assms unfolding streams_ok_def open_at_def fst_conv snd_conv by blast

lemma streams_okD:
  assumes "streams_ok (B, ts)" "owned (ts i) = Some p"
  shows "open_at B p" "owned (ts j) = Some p \<Longrightarrow> i = j"
  using assms unfolding streams_ok_def open_at_def fst_conv snd_conv by blast+

lemma map_okI:
  assumes "\<And>b p. p \<in> subs_of B b \<Longrightarrow> \<exists>i. listed (ts i) = Some (b, p)"
    and "\<And>i b p. listed (ts i) = Some (b, p) \<Longrightarrow> p \<in> subs_of B b"
    and "\<And>i b p. (b, p) \<in> held (ts i) \<Longrightarrow> p \<in> subs_of B b"
  shows "map_ok (B, ts)"
  using assms unfolding map_ok_def fst_conv snd_conv by blast

lemma map_okD:
  assumes "map_ok (B, ts)"
  shows "p \<in> subs_of B b \<Longrightarrow> \<exists>i. listed (ts i) = Some (b, p)"
    "listed (ts i) = Some (b, p) \<Longrightarrow> p \<in> subs_of B b"
    "(b, p) \<in> held (ts i) \<Longrightarrow> p \<in> subs_of B b"
  using assms unfolding map_ok_def fst_conv snd_conv by blast+

lemma streams_ok_frame:
  assumes "streams_ok (B, ts)" "owned t = None \<or> owned t = owned (ts i)"
    and "\<And>j p. owned ((ts(i := t)) j) = Some p \<Longrightarrow> open_at B p \<Longrightarrow> open_at B' p"
  shows "streams_ok (B', ts(i := t))"
proof (rule streams_okI)
  have mono: "owned ((ts(i := t)) j) = Some p \<Longrightarrow> owned (ts j) = Some p" for j p
    using assms(2) by (auto split: if_splits)
  show "open_at B' p" if own: "owned ((ts(i := t)) j) = Some p" for j p
    using assms(3) [OF own] streams_okD(1) [OF assms(1) mono [OF own]] by blast
  show "j = k" if "owned ((ts(i := t)) j) = Some p" "owned ((ts(i := t)) k) = Some p" for j k p
    using streams_okD(2) [OF assms(1) mono mono] that by blast
qed

lemma map_ok_frame:
  assumes "map_ok (B, ts)" "subs_of B' = subs_of B" "listed t = listed (ts i)"
    and "\<And>b p. (b, p) \<in> held t \<Longrightarrow> (b, p) \<in> held (ts i) \<or> p \<in> subs_of B b"
  shows "map_ok (B', ts(i := t))"
proof (rule map_okI)
  have same: "listed ((ts(i := t)) j) = listed (ts j)" for j using assms(3) by simp
  show "\<exists>j. listed ((ts(i := t)) j) = Some (b, p)" if "p \<in> subs_of B' b" for b p
    using map_okD(1) [OF assms(1)] that unfolding same assms(2) by blast
  show "p \<in> subs_of B' b" if "listed ((ts(i := t)) j) = Some (b, p)" for j b p
    using map_okD(2) [OF assms(1)] that unfolding same assms(2) by blast
  show "p \<in> subs_of B' b" if "(b, p) \<in> held ((ts(i := t)) j)" for j b p
    using map_okD(3) [OF assms(1)] assms(4) that unfolding assms(2)
    by (cases "j = i") (simp, blast, fastforce)
qed

lemma step_simps:
  "select_send l p B = Some B' \<longleftrightarrow> \<not> is_closed B p \<and> B' = upd_sub p (offer l) B"
  "close_sub p B = Some B' \<longleftrightarrow> \<not> is_closed B p \<and> B' = upd_sub p (ch_closed_update (\<lambda>_. True)) B"
  "receive p B = Some (l, B') \<longleftrightarrow>
     (\<exists>u ls. heap_subs B p = Some u \<and> ch u = l # ls \<and> B' = upd_sub p (ch_update (\<lambda>_. ls)) B)"
  by (auto simp: select_send_def close_sub_def receive_def split: option.split list.split)

lemma streams_ok_step: "broker_step s s' \<Longrightarrow> broker_inv s \<Longrightarrow> streams_ok s'"
proof (induction rule: broker_step.induct)
  case (subscribes ts i b logs B p B')
  note sub = subscribe_simps [OF subscribes(3)]
  have new: "heap_subs B p = None" using subscribes sub(1) by (simp add: broker_inv_def store_ok_def)
  have ok: "streams_ok (B, ts)" using subscribes by (simp add: broker_inv_def)
  have fresh: "owned (ts j) \<noteq> Some p" for j
    using streams_okD(1) [OF ok, of j p] new by (auto simp: open_at_def)
  have "open_at B q \<Longrightarrow> open_at B' q" for q using new sub(4) by (auto simp: open_at_def)
  moreover have "open_at B' p" using sub(4) [of p] by (simp add: open_at_def)
  ultimately show ?case using streams_okD [OF ok] fresh
    by (intro streams_okI) (auto split: if_splits)
next
  case (closes ts i b p out B B')
  have ok: "streams_ok (B, ts)" using closes by (simp add: broker_inv_def)
  then have "owned ((ts(i := StrDone out)) j) = Some q \<Longrightarrow> p \<noteq> q" for j q
    using streams_okD(2) [OF ok, of i p j] closes(1) by (auto split: if_splits)
  then show ?case using closes by (intro streams_ok_frame [OF ok]) (auto simp: step_simps)
qed (auto simp: broker_inv_def step_simps flag_sub_def intro!: streams_ok_frame)

lemma no_readers: "free_to_write ts \<Longrightarrow> held (ts j) = {}"
  using held_reading unfolding free_to_write_def by blast

lemma map_ok_subscribe:
  assumes "map_ok (B, ts)" "listed (ts i) = None" "free_to_write ts" "subscribe b B = (p, B')"
  shows "map_ok (B', ts(i := StrLive b p out))"
proof (rule map_okI)
  note sub = subscribe_simps(3) [OF assms(4)]
  show "\<exists>j. listed ((ts(i := StrLive b p out)) j) = Some (c, q)" if q: "q \<in> subs_of B' c" for c q
  proof (cases "c = b \<and> q = p")
    case False
    then obtain j where "listed (ts j) = Some (c, q)"
      using q map_okD(1) [OF assms(1), of q c] unfolding sub by (auto split: if_splits)
    then show ?thesis using assms(2) by (intro exI [of _ j]) auto
  qed (intro exI [of _ i], simp)
  show "q \<in> subs_of B' c" if "listed ((ts(i := StrLive b p out)) j) = Some (c, q)" for j c q
    using that map_okD(2) [OF assms(1), of j c q] unfolding sub by (auto split: if_splits)
  show "q \<in> subs_of B' c" if "(c, q) \<in> held ((ts(i := StrLive b p out)) j)" for j c q
    using that no_readers [OF assms(3), of j] by (auto split: if_splits)
qed

lemma map_ok_delete:
  assumes "map_ok (B, ts)" "streams_ok (B, ts)" "ts i = StrFlagged b p out" "free_to_write ts"
  shows "map_ok (delete_sub b p B, ts(i := StrDeleted b p out))"
proof (rule map_okI)
  let ?B = "delete_sub b p B" and ?ts = "ts(i := StrDeleted b p out)"
  have own: "owned (ts i) = Some p" "listed (ts i) = Some (b, p)" using assms(3) by auto
  have uniq: "listed (ts j) = Some (c, p) \<Longrightarrow> i = j" for j c
    using streams_okD(2) [OF assms(2) own(1)] listed_owned by blast
  show "\<exists>j. listed (?ts j) = Some (c, q)" if q: "q \<in> subs_of ?B c" for c q
  proof -
    obtain j where "listed (ts j) = Some (c, q)" "\<not> (c = b \<and> q = p)"
      using q map_okD(1) [OF assms(1), of q c] by (auto split: if_splits)
    then show ?thesis using own(2) by (intro exI [of _ j]) auto
  qed
  show "q \<in> subs_of ?B c" if "listed (?ts j) = Some (c, q)" for j c q
    using that map_okD(2) [OF assms(1), of j c q] uniq [of j c] by (auto split: if_splits)
  show "q \<in> subs_of ?B c" if "(c, q) \<in> held (?ts j)" for j c q
    using that no_readers [OF assms(4), of j] by (auto split: if_splits)
qed

lemma map_ok_step: "broker_step s s' \<Longrightarrow> broker_inv s \<Longrightarrow> map_ok s'"
proof (induction rule: broker_step.induct)
  case (subscribes ts i b logs B p B')
  then show ?case by (intro map_ok_subscribe) (auto simp: broker_inv_def)
next
  case (deletes ts i b p out B)
  then show ?case by (intro map_ok_delete) (auto simp: broker_inv_def)
qed (auto simp: broker_inv_def step_simps flag_sub_def intro!: map_ok_frame dest: map_okD(3))

lemma store_ok_step: "broker_step s s' \<Longrightarrow> broker_inv s \<Longrightarrow> store_ok (fst s')"
proof (induction rule: broker_step.induct)
  case (subscribes ts i b logs B p B')
  then show ?case using subscribe_simps [OF subscribes(3)]
    by (auto simp: broker_inv_def store_ok_def chan_cap_def)
next
  case (deletes ts i b p out B)
  then show ?case using delete_sub_nonempty [of B b p] by (auto simp: broker_inv_def store_ok_def)
qed (fastforce simp: broker_inv_def store_ok_def select_send_def close_sub_def receive_def flag_sub_def
       split: if_splits option.splits list.splits)+

lemma no_crash_step: "broker_step s s' \<Longrightarrow> broker_inv s \<Longrightarrow> snd s' j \<noteq> Crashed"
proof (induction rule: broker_step.induct)
  case (send_panic ts i p ps b l B)
  then have "\<not> is_closed B p" using held_open [of "(B, ts)" b p i] by (auto simp: broker_inv_def)
  then show ?case using send_panic by (simp add: select_send_def)
next
  case (close_panic ts i b p out B)
  then have "\<not> is_closed B p" using owned_open [of "(B, ts)" i p] by (auto simp: broker_inv_def)
  then show ?case using close_panic by (simp add: close_sub_def)
qed (auto simp: broker_inv_def)

lemma broker_inv_step: "broker_step s s' \<Longrightarrow> broker_inv s \<Longrightarrow> broker_inv s'"
  using streams_ok_step map_ok_step store_ok_step no_crash_step unfolding broker_inv_def [of s'] by blast

lemma initial_pc_simps:
  assumes "initial_pc t" shows "owned t = None" "listed t = None" "held t = {}" "t \<noteq> Crashed"
  using assms by (cases t; simp)+

lemma broker_reach_inv: "broker_reach s \<Longrightarrow> broker_inv s"
proof (induction rule: broker_reach.induct)
  case (start ts)
  then show ?case
    by (auto simp: broker_inv_def streams_ok_def map_ok_def store_ok_def newLogBroker_def
        subs_of_def initial_pc_simps)
qed (rule broker_inv_step)

subsection \<open>Delivery\<close>

text \<open>What one pass of the publishing loop does to one subscriber.\<close>

definition deliver :: "string \<Rightarrow> subscriber \<Rightarrow> subscriber" where
  "deliver l s = (if closed_flag s then s else offer l s)"

lemma publish_loop_effect:
  assumes "distinct ps" "\<And>p. p \<in> set ps \<Longrightarrow> flagged B p \<or> \<not> is_closed B p"
  shows "\<exists>B'. publish_loop l ps B = Some B' \<and> subs B' = subs B \<and> next_addr B' = next_addr B \<and>
           (\<forall>q. heap_subs B' q =
              (if q \<in> set ps then map_option (deliver l) (heap_subs B q) else heap_subs B q))"
  using assms
proof (induction ps arbitrary: B)
  case (Cons p ps)
  show ?case
  proof (cases "flagged B p")
    case True
    then have "map_option (deliver l) (heap_subs B p) = heap_subs B p"
      by (auto simp: flagged_def deliver_def split: option.splits)
    moreover have "\<And>q. q \<in> set ps \<Longrightarrow> flagged B q \<or> \<not> is_closed B q" using Cons.prems(2) by simp
    ultimately show ?thesis using Cons.IH [of B] Cons.prems(1) True by auto
  next
    case False
    let ?B = "upd_sub p (offer l) B"
    have open': "\<not> is_closed B p" using Cons.prems False by auto
    have "flagged ?B q \<or> \<not> is_closed ?B q" if "q \<in> set ps" for q
      using Cons.prems that by (auto simp: flagged_def split: if_splits)
    moreover have "map_option (offer l) (heap_subs B p) = map_option (deliver l) (heap_subs B p)"
      using False by (auto simp: flagged_def deliver_def split: option.splits)
    ultimately show ?thesis
      using Cons.IH [of ?B] Cons.prems(1) False open' by (auto simp: select_send_def)
  qed
qed auto

lemma subs_of_subs: "subs B' = subs B \<Longrightarrow> subs_of B' = subs_of B"
  by (simp add: subs_of_def fun_eq_iff)

lemma publish_effect:
  assumes "\<And>p. p \<in> subs_of B b \<Longrightarrow> flagged B p \<or> \<not> is_closed B p"
    and "set (ord (subs_of B b)) = subs_of B b" "distinct (ord (subs_of B b))"
  shows "\<exists>B'. publish ord b l B = Some B' \<and> subs B' = subs B \<and> next_addr B' = next_addr B \<and>
           (\<forall>q. heap_subs B' q =
              (if q \<in> subs_of B b then map_option (deliver l) (heap_subs B q) else heap_subs B q))"
  using publish_loop_effect [of "ord (subs_of B b)" B l] assms by (simp add: publish_def)

text \<open>A sequence of lines published with no receive in between.\<close>

fun publish_all :: "(nat set \<Rightarrow> nat list) \<Rightarrow> string \<Rightarrow> string list \<Rightarrow> logBroker \<Rightarrow> logBroker option" where
  "publish_all ord b [] B = Some B"
| "publish_all ord b (l # ls) B =
     (case publish ord b l B of None \<Rightarrow> None | Some B' \<Rightarrow> publish_all ord b ls B')"

lemma take_snoc_step: "take n (take n (xs @ [y]) @ zs) = take n (xs @ y # zs)"
  by (cases "n \<le> length xs") (auto simp: take_append)

lemma publish_all_effect:
  assumes "\<And>p. p \<in> subs_of B b \<Longrightarrow>
             \<exists>s. heap_subs B p = Some s \<and> \<not> ch_closed s \<and> \<not> closed_flag s \<and> length (ch s) \<le> chan_cap"
    and "set (ord (subs_of B b)) = subs_of B b" "distinct (ord (subs_of B b))"
  shows "\<exists>B'. publish_all ord b ls B = Some B' \<and> subs B' = subs B \<and>
           (\<forall>q. heap_subs B' q =
              (if q \<in> subs_of B b
               then map_option (\<lambda>s. s\<lparr>ch := take chan_cap (ch s @ ls)\<rparr>) (heap_subs B q)
               else heap_subs B q))"
  using assms
proof (induction ls arbitrary: B)
  case Nil
  have "map_option (\<lambda>s. s\<lparr>ch := take chan_cap (ch s)\<rparr>) (heap_subs B q) = heap_subs B q"
    if "q \<in> subs_of B b" for q using Nil.prems(1) [OF that] by auto
  then show ?case by auto
next
  case (Cons l ls)
  have "flagged B p \<or> \<not> is_closed B p" if "p \<in> subs_of B b" for p
    using Cons.prems(1) [OF that] by (auto simp: is_closed_def)
  then obtain B1 where B1: "publish ord b l B = Some B1" "subs B1 = subs B"
    "\<And>q. heap_subs B1 q =
       (if q \<in> subs_of B b then map_option (deliver l) (heap_subs B q) else heap_subs B q)"
    using publish_effect [of B b ord l] Cons.prems(2,3) by auto
  have same: "subs_of B1 = subs_of B" using B1(2) by (rule subs_of_subs)
  have dl: "deliver l s = s\<lparr>ch := take chan_cap (ch s @ [l])\<rparr>"
    if "\<not> closed_flag s" "length (ch s) \<le> chan_cap" for s
    using that by (auto simp: deliver_def offer_def)
  have "\<exists>s. heap_subs B1 p = Some s \<and> \<not> ch_closed s \<and> \<not> closed_flag s \<and> length (ch s) \<le> chan_cap"
    if "p \<in> subs_of B1 b" for p
    using Cons.prems(1) [of p] that same B1(3) [of p] dl by auto
  then obtain B2 where B2: "publish_all ord b ls B1 = Some B2" "subs B2 = subs B1"
    "\<And>q. heap_subs B2 q = (if q \<in> subs_of B1 b
        then map_option (\<lambda>s. s\<lparr>ch := take chan_cap (ch s @ ls)\<rparr>) (heap_subs B1 q) else heap_subs B1 q)"
    using Cons.IH [of B1] Cons.prems(2,3) same by auto
  have "heap_subs B2 q = (if q \<in> subs_of B b
      then map_option (\<lambda>s. s\<lparr>ch := take chan_cap (ch s @ l # ls)\<rparr>) (heap_subs B q) else heap_subs B q)" for q
  proof (cases "q \<in> subs_of B b")
    case True
    then obtain s where "heap_subs B q = Some s" "\<not> closed_flag s" "length (ch s) \<le> chan_cap"
      using Cons.prems(1) by blast
    then show ?thesis using True B1(3) B2(3) same dl
      by (simp add: take_snoc_step del: take_append)
  qed (use B1(3) B2(3) same in auto)
  then show ?case using B1 B2 by auto
qed

subsection \<open>What a client reads\<close>

lemma sse_newlines_id: "CHR 0x0D \<notin> set s \<Longrightarrow> sse_newlines s = s"
  by (induction s rule: sse_newlines.induct) auto

lemma Split_app: "d \<notin> set w \<Longrightarrow> Split d (w @ d # t) = w # Split d t"
  by (induction w) auto

lemma sse_decode_event:
  assumes "CHR 0x0A \<notin> set l"
  shows "sse_decode [] (Split (CHR 0x0A) (sse_event l @ t)) = l # sse_decode [] (Split (CHR 0x0A) t)"
proof -
  have "Split (CHR 0x0A) (sse_event l @ t) = (''data: '' @ l) # [] # Split (CHR 0x0A) t"
    using Split_app [of "CHR 0x0A" "''data: '' @ l" "CHR 0x0A # t"] assms by (simp add: sse_event_def)
  then show ?thesis by (simp add: sse_field_def)
qed

lemma sse_decode_events:
  "(\<And>l. l \<in> set ls \<Longrightarrow> CHR 0x0A \<notin> set l) \<Longrightarrow>
   sse_decode [] (Split (CHR 0x0A) (concat (map sse_event ls))) = ls"
  by (induction ls) (auto simp: sse_decode_event)

lemma sse_client_events:
  assumes "\<And>l. l \<in> set ls \<Longrightarrow> CHR 0x0A \<notin> set l \<and> CHR 0x0D \<notin> set l"
  shows "sse_client (concat (map sse_event ls)) = ls"
proof -
  have "CHR 0x0D \<notin> set (concat (map sse_event ls))" using assms by (auto simp: sse_event_def)
  then show ?thesis using assms by (simp add: sse_client_def sse_newlines_id sse_decode_events)
qed

lemma sse_live_events: "concat (map sse_live ls) = concat (map sse_event (map (\<lambda>l. TrimRight l (CHR 0x0A)) ls))"
  by (induction ls) (auto simp: sse_live_def)

lemma TrimRight_set: "set (TrimRight s c) \<subseteq> set s"
  using set_dropWhileD by (fastforce simp: TrimRight_def)

subsection \<open>Properties\<close>

text \<open>(C14) In every interleaving of publishers and streams no thread sends on a closed
  channel or closes a channel twice; every channel holds at most 64 lines, no build keeps an
  empty set of subscribers, and every stream that has not left is registered with a channel
  of its own that is still open.\<close>

theorem broker_never_panics:
  assumes "broker_reach (B, ts)"
  shows "ts i \<noteq> Crashed \<and> subs B b \<noteq> Some {} \<and>
    (\<forall>p s. heap_subs B p = Some s \<longrightarrow> length (ch s) \<le> 64) \<and>
    (\<forall>p out. ts i = StrLive b p out \<longrightarrow>
       p \<in> subs_of B b \<and> \<not> is_closed B p \<and> (\<forall>j b' out'. ts j = StrLive b' p out' \<longrightarrow> i = j))"
proof -
  have inv: "streams_ok (B, ts)" "map_ok (B, ts)" "store_ok B" "ts i \<noteq> Crashed"
    using broker_reach_inv [OF assms] by (auto simp: broker_inv_def)
  have "p \<in> subs_of B b \<and> \<not> is_closed B p" if "ts i = StrLive b p out" for p out
    using that map_okD(2) [OF inv(2), of i b p] owned_open [OF inv(1), of i p] by simp
  moreover have "i = j" if "ts i = StrLive b p out" "ts j = StrLive b' p out'" for p out j b' out'
    using that streams_okD(2) [OF inv(1), of i p j] by simp
  ultimately show ?thesis using inv(3,4) by (auto simp: store_ok_def chan_cap_def)
qed

text \<open>A stream subscribes while a publisher waits, and the publisher takes the read lock.\<close>

definition sample_ts :: "nat \<Rightarrow> pc" where
  "sample_ts = (\<lambda>_. PubDone)(0 := StrStart ''b1'' ''old'', 1 := PubStart ''b1'' ''new'')"

lemma sample_reach:
  "broker_reach (snd (subscribe ''b1'' newLogBroker),
     sample_ts(0 := StrLive ''b1'' 0 (sse_existing ''old''), 1 := PubRange [0] ''b1'' ''new''))"
proof -
  let ?B = "snd (subscribe ''b1'' newLogBroker)"
  have "broker_reach (newLogBroker, sample_ts)" by (rule broker_reach.start) (simp add: sample_ts_def)
  moreover have "broker_step (newLogBroker, sample_ts)
      (?B, sample_ts(0 := StrLive ''b1'' 0 (sse_existing ''old'')))"
    by (rule broker_step.subscribes)
      (auto simp: sample_ts_def free_to_write_def subscribe_def newLogBroker_def Let_def)
  moreover have "broker_step (?B, sample_ts(0 := StrLive ''b1'' 0 (sse_existing ''old'')))
      (?B, sample_ts(0 := StrLive ''b1'' 0 (sse_existing ''old''), 1 := PubRange [0] ''b1'' ''new''))"
    by (rule broker_step.rlock)
      (auto simp: sample_ts_def subscribe_def newLogBroker_def Let_def subs_of_def)
  ultimately show ?thesis by (meson broker_reach.more)
qed

theorem broker_never_panics_witness:
  "(0::nat) \<in> subs_of (snd (subscribe ''b1'' newLogBroker)) ''b1'' \<and>
   \<not> is_closed (snd (subscribe ''b1'' newLogBroker)) 0"
  using broker_never_panics [OF sample_reach, of 0 "''b1''"] by simp

text \<open>Publishing lines reaches every subscriber of the build and no other: each
  channel then holds its old content followed by the new lines in order, cut after 64
  lines, whatever order the subscribers are visited in.\<close>

theorem publish_delivers:
  assumes "\<And>p. p \<in> subs_of B b \<Longrightarrow>
             \<exists>s. heap_subs B p = Some s \<and> \<not> ch_closed s \<and> \<not> closed_flag s \<and> length (ch s) \<le> 64"
    and "set (ord (subs_of B b)) = subs_of B b" "distinct (ord (subs_of B b))"
  shows "\<exists>B'. publish_all ord b ls B = Some B' \<and> subs B' = subs B \<and>
           (\<forall>q. heap_subs B' q =
              (if q \<in> subs_of B b then map_option (\<lambda>s. s\<lparr>ch := take 64 (ch s @ ls)\<rparr>) (heap_subs B q)
               else heap_subs B q))"
  using publish_all_effect [of B b ord ls, unfolded chan_cap_def, OF assms] by blast

theorem publish_delivers_witness:
  "\<exists>B'. publish_all sorted_list_of_set ''b1'' [''x'', ''y''] (snd (subscribe ''b1'' newLogBroker)) = Some B' \<and>
        map_option ch (heap_subs B' 0) = Some [''x'', ''y'']"
proof -
  let ?B = "snd (subscribe ''b1'' newLogBroker)"
  have s: "subs_of ?B ''b1'' = {0}" "heap_subs ?B 0 = Some \<lparr>ch = [], ch_closed = False, closed_flag = False\<rparr>"
    by (auto simp: subscribe_def newLogBroker_def Let_def subs_of_def)
  obtain B' where "publish_all sorted_list_of_set ''b1'' [''x'', ''y''] ?B = Some B'"
    "heap_subs B' 0 = map_option (\<lambda>s. s\<lparr>ch := take 64 (ch s @ [''x'', ''y''])\<rparr>) (heap_subs ?B 0)"
    using publish_delivers [of ?B "''b1''" sorted_list_of_set "[''x'', ''y'']"] s by auto
  then show ?thesis using s(2) by simp
qed

text \<open>(C32) A log stream can be decoded, under two conditions: the stored log and the lines that the
  subscriber receives have no carriage return, and no received line has a line feed inside (before
  its final ones). Then a client that decodes the events gets exactly the lines of the stored log and
  after them the received lines without their final line feeds, one event each. Lines that were
  dropped at a full channel are not among the received ones; \<open>sse_multiline_lost\<close> shows
  what a line feed inside costs.\<close>

theorem sse_roundtrip:
  assumes "CHR 0x0D \<notin> set logs"
    and "\<And>l. l \<in> set ls \<Longrightarrow> CHR 0x0D \<notin> set l \<and> CHR 0x0A \<notin> set (TrimRight l (CHR 0x0A))"
  shows "sse_client (sse_existing logs @ concat (map sse_live ls)) =
           (if logs = [] then [] else Split (CHR 0x0A) logs) @ map (\<lambda>l. TrimRight l (CHR 0x0A)) ls"
proof -
  let ?ws = "(if logs = [] then [] else Split (CHR 0x0A) logs) @ map (\<lambda>l. TrimRight l (CHR 0x0A)) ls"
  have "sse_existing logs @ concat (map sse_live ls) = concat (map sse_event ?ws)"
    by (simp add: sse_existing_def sse_live_events)
  moreover have "CHR 0x0A \<notin> set w \<and> CHR 0x0D \<notin> set w" if "w \<in> set ?ws" for w
    using that assms Split_no_sep [of w "CHR 0x0A" logs] Split_set [of w "CHR 0x0A" logs]
      TrimRight_set [of _ "CHR 0x0A"] by (auto split: if_splits)
  ultimately show ?thesis using sse_client_events [of ?ws] by simp
qed

theorem sse_roundtrip_witness:
  "sse_client (sse_existing (''a'' @ CHR 0x0A # ''b'') @ concat (map sse_live [''c'' @ [CHR 0x0A]])) =
     [''a'', ''b'', ''c'']"
  using sse_roundtrip [of "''a'' @ CHR 0x0A # ''b''" "[''c'' @ [CHR 0x0A]]"] by (simp add: TrimRight_def)

text \<open>A published text with a line feed inside loses what follows it: the rest is a
  line of its own without the field name, which a client ignores.\<close>

theorem sse_multiline_lost:
  assumes "CHR 0x0A \<notin> set a" "CHR 0x0D \<notin> set a" "CHR 0x0A \<notin> set c" "CHR 0x0D \<notin> set c"
    and "c \<noteq> []" "sse_field c = None"
  shows "sse_client (sse_live (a @ CHR 0x0A # c)) = [a]"
proof -
  have "TrimRight (a @ CHR 0x0A # c) (CHR 0x0A) = a @ CHR 0x0A # c"
    using assms(3,5) by (cases c rule: rev_cases) (auto simp: TrimRight_def)
  then have "sse_newlines (sse_live (a @ CHR 0x0A # c)) = (''data: '' @ a) @ CHR 0x0A # c @ CHR 0x0A # [CHR 0x0A]"
    using assms by (subst sse_newlines_id) (auto simp: sse_live_def sse_event_def)
  then show ?thesis
    using assms Split_app [of "CHR 0x0A" "''data: '' @ a"] Split_app [of "CHR 0x0A" c]
    by (simp add: sse_client_def sse_field_def)
qed

theorem sse_multiline_lost_witness:
  "sse_client (sse_live (''step 1'' @ CHR 0x0A # ''step 2'')) = [''step 1'']"
  using sse_multiline_lost [of "''step 1''" "''step 2''"] by (simp add: sse_field_def)

end
