(* ===== verification/Go_Path.thy ===== *)
theory Go_Path
  imports Go_Strings
begin

text \<open>
  The functions of Go's \<open>path/filepath\<close> that the program calls, for Unix paths, and the
  way an operating system without symbolic links walks a path from a working directory.
  The main facts: \<open>Clean\<close> does not change what a path denotes, and joining a base with a
  path of plain names denotes those names below the base.
\<close>

subsection \<open>Definitions\<close>

abbreviation sep :: char where
  "sep \<equiv> CHR ''/''"

definition rooted :: "string \<Rightarrow> bool" where
  "rooted p \<longleftrightarrow> HasPrefix p ''/''"

text \<open>One element of a path, against the elements kept so far (the last one first).\<close>

definition clean_step :: "bool \<Rightarrow> string \<Rightarrow> string list \<Rightarrow> string list" where
  "clean_step r c out =
     (if c = [] \<or> c = ''.'' then out
      else if c = ''..'' then
        (case out of
           [] \<Rightarrow> if r then [] else [''..'']
         | x # xs \<Rightarrow> if x = ''..'' then ''..'' # out else xs)
      else c # out)"

definition clean_comps :: "string \<Rightarrow> string list" where
  "clean_comps p = rev (fold (clean_step (rooted p)) (Split sep p) [])"

definition Clean :: "string \<Rightarrow> string" where
  "Clean p =
     (if rooted p then sep # Join [sep] (clean_comps p)
      else if clean_comps p = [] then ''.'' else Join [sep] (clean_comps p))"

definition path_join :: "string \<Rightarrow> string \<Rightarrow> string" where
  "path_join a b =
     (if a \<noteq> [] then Clean (a @ sep # b) else if b \<noteq> [] then Clean b else [])"

definition path_dir :: "string \<Rightarrow> string" where
  "path_dir p = Clean (rev (dropWhile (\<lambda>c. c \<noteq> sep) (rev p)))"

text \<open>The directory or file that a path denotes, as the names from the root.\<close>

definition walk :: "string list \<Rightarrow> string \<Rightarrow> string list" where
  "walk cwd p = rev (fold (clean_step True) (Split sep p) (if rooted p then [] else rev cwd))"

subsection \<open>Substrings and splitting\<close>

lemma Contains_iff: "Contains s sub \<longleftrightarrow> (\<exists>a b. s = a @ sub @ b)"
proof (induction s)
  case (Cons c s)
  have "(\<exists>a b. c # s = a @ sub @ b) \<longleftrightarrow> HasPrefix (c # s) sub \<or> (\<exists>a b. s = a @ sub @ b)"
    unfolding HasPrefix_append by (metis append_Cons append_Nil neq_Nil_conv list.inject)
  then show ?case using Cons by (auto simp: Contains_def)
qed (auto simp: Contains_def)

lemma Split_append: "Split d (a @ d # b) = Split d a @ Split d b"
proof (induction a)
  case (Cons c a)
  then show ?case by (cases "Split d a") auto
qed simp

lemma Join_mem: "w \<in> set ws \<Longrightarrow> \<exists>a b. Join s ws = a @ w @ b"
proof (induction ws)
  case (Cons v ws)
  show ?case
  proof (cases "w \<in> set ws")
    case True
    then obtain a b where ab: "Join s ws = a @ w @ b" using Cons.IH by blast
    have "Join s (v # ws) = (v @ s @ a) @ w @ b" using True ab by (subst Join_Cons) auto
    then show ?thesis by blast
  next
    case False
    then have "w = v" using Cons.prems by simp
    then show ?thesis by (cases ws) (auto intro: exI [of _ "[]"])
  qed
qed simp

subsection \<open>Cleaned paths\<close>

definition plain :: "string \<Rightarrow> bool" where
  "plain c \<longleftrightarrow> c \<noteq> [] \<and> c \<noteq> ''.'' \<and> c \<noteq> ''..'' \<and> sep \<notin> set c"

lemma clean_step_plain: "plain c \<Longrightarrow> clean_step r c out = c # out"
  by (simp add: clean_step_def plain_def)

lemma fold_plain: "(\<And>c. c \<in> set cs \<Longrightarrow> plain c) \<Longrightarrow> fold (clean_step r) cs out = rev cs @ out"
  by (induction cs arbitrary: out) (auto simp: clean_step_plain)

text \<open>What the kept elements of a path look like: none is empty or a dot, none has a
  separator, and the elements of a rooted path never go up.\<close>

definition kept :: "bool \<Rightarrow> string \<Rightarrow> bool" where
  "kept r c \<longleftrightarrow> c \<noteq> [] \<and> c \<noteq> ''.'' \<and> sep \<notin> set c \<and> (r \<longrightarrow> c \<noteq> ''..'')"

lemma kept_step:
  assumes "\<forall>x\<in>set out. kept r x" "sep \<notin> set c"
  shows "\<forall>x\<in>set (clean_step r c out). kept r x"
proof (cases out)
  case (Cons x xs)
  then show ?thesis using assms unfolding clean_step_def kept_def by auto
qed (use assms in \<open>auto simp: clean_step_def kept_def\<close>)

lemma kept_fold:
  "\<forall>x\<in>set out. kept r x \<Longrightarrow> (\<And>c. c \<in> set cs \<Longrightarrow> sep \<notin> set c) \<Longrightarrow>
   \<forall>x\<in>set (fold (clean_step r) cs out). kept r x"
proof (induction cs arbitrary: out)
  case (Cons c cs)
  have "\<forall>x\<in>set (clean_step r c out). kept r x" using kept_step [OF Cons.prems(1), of c] Cons.prems by simp
  then show ?case using Cons by simp
qed simp

lemma kept_comps: "c \<in> set (clean_comps p) \<Longrightarrow> kept (rooted p) c"
  using kept_fold [of "[]" "rooted p" "Split sep p"] Split_no_sep by (auto simp: clean_comps_def)

lemma Split_Join_kept:
  assumes "\<And>c. c \<in> set cs \<Longrightarrow> sep \<notin> set c" "cs \<noteq> []"
  shows "Split sep (Join [sep] cs) = cs"
  using Split_Join [of cs sep] assms by blast

lemma Join_rooted:
  assumes "cs \<noteq> []" "\<And>c. c \<in> set cs \<Longrightarrow> kept r c"
  shows "\<not> rooted (Join [sep] cs)"
proof -
  obtain c cs' where cs: "cs = c # cs'" using assms(1) by (cases cs) auto
  then have "c \<noteq> []" "sep \<notin> set c" using assms(2) [of c] by (auto simp: kept_def)
  then show ?thesis using cs by (cases c; cases cs') (auto simp: rooted_def)
qed

subsection \<open>Cleaning keeps the meaning\<close>

text \<open>Walking the elements that cleaning kept ends where walking all of them ends.\<close>

lemma walk_step:
  assumes "\<forall>x\<in>set out. kept r x" "r \<longrightarrow> o' = []" "sep \<notin> set c"
  shows "fold (clean_step True) (rev (clean_step r c out)) o' =
         clean_step True c (fold (clean_step True) (rev out) o')"
proof -
  consider "c = [] \<or> c = ''.''" | "c = ''..''" "out = []" | "c = ''..''" "out \<noteq> []" "hd out = ''..''"
    | "c = ''..''" "out \<noteq> []" "hd out \<noteq> ''..''" | "plain c" using assms(3) by (auto simp: plain_def)
  then show ?thesis
  proof cases
    case 4
    then obtain x xs where "out = x # xs" "plain x" using assms(1) by (cases out) (auto simp: plain_def kept_def)
    then show ?thesis using 4 by (auto simp: clean_step_plain) (auto simp: clean_step_def plain_def)
  qed (use assms in \<open>auto simp: clean_step_def plain_def split: list.split\<close>)
qed

lemma walk_fold:
  assumes "\<forall>x\<in>set out. kept r x" "r \<longrightarrow> o' = []" "\<And>c. c \<in> set cs \<Longrightarrow> sep \<notin> set c"
  shows "fold (clean_step True) (rev (fold (clean_step r) cs out)) o' =
         fold (clean_step True) cs (fold (clean_step True) (rev out) o')"
  using assms
proof (induction cs arbitrary: out)
  case (Cons c cs)
  have "\<forall>x\<in>set (clean_step r c out). kept r x" using kept_step [OF Cons.prems(1), of c] Cons.prems by simp
  then show ?case using Cons walk_step [OF Cons.prems(1,2), of c] by simp
qed simp

lemma walk_Clean: "walk cwd (Clean p) = walk cwd p"
proof -
  let ?o = "if rooted p then [] else rev cwd" and ?cs = "clean_comps p"
  have same: "fold (clean_step True) ?cs ?o = fold (clean_step True) (Split sep p) ?o"
    using walk_fold [of "[]" "rooted p" ?o "Split sep p"] Split_no_sep by (auto simp: clean_comps_def)
  have nosep: "\<And>c. c \<in> set ?cs \<Longrightarrow> sep \<notin> set c" using kept_comps by (auto simp: kept_def)
  consider "rooted p" "?cs = []" | "rooted p" "?cs \<noteq> []" | "\<not> rooted p" "?cs = []"
    | "\<not> rooted p" "?cs \<noteq> []" by blast
  then show ?thesis
  proof cases
    case 1
    then show ?thesis using same by (simp add: walk_def Clean_def rooted_def clean_step_def)
  next
    case 2
    then have "Split sep (Clean p) = [] # ?cs" using Split_Join_kept [OF nosep] by (simp add: Clean_def)
    moreover have "rooted (Clean p)" using 2 by (simp add: Clean_def rooted_def)
    ultimately show ?thesis using 2 same by (simp add: walk_def clean_step_def)
  next
    case 3
    then show ?thesis using same by (simp add: walk_def Clean_def rooted_def clean_step_def)
  next
    case 4
    then have "Split sep (Clean p) = ?cs" using Split_Join_kept [OF nosep] by (simp add: Clean_def)
    moreover have "\<not> rooted (Clean p)" using 4 Join_rooted [of ?cs] kept_comps by (auto simp: Clean_def)
    ultimately show ?thesis using 4 same by (simp add: walk_def)
  qed
qed

lemma rooted_append: "a \<noteq> [] \<Longrightarrow> rooted (a @ b) = rooted a"
  by (cases a) (auto simp: rooted_def)

text \<open>Joining a base with plain names, or with the path of a dot, goes below the base.\<close>

lemma walk_join_plain:
  assumes "\<And>c. c \<in> set (Split sep q) \<Longrightarrow> plain c" "\<not> rooted q"
  shows "walk cwd (path_join b q) = walk cwd b @ Split sep q"
proof (cases "b = []")
  case True
  have "q \<noteq> []" using assms(1) [of "[]"] by (auto simp: plain_def)
  then have "walk cwd (path_join b q) = walk cwd q" using True walk_Clean by (simp add: path_join_def)
  then show ?thesis using True assms fold_plain [of "Split sep q" True "rev cwd"]
    by (simp add: walk_def rooted_def clean_step_def)
next
  case False
  then have "walk cwd (path_join b q) = walk cwd (b @ sep # q)" using walk_Clean by (simp add: path_join_def)
  then show ?thesis using False fold_plain [OF assms(1)] rooted_append [of b "sep # q"]
    by (simp add: walk_def Split_append)
qed

lemma walk_join_dot: "walk cwd (path_join b ''.'') = walk cwd b"
proof (cases "b = []")
  case True
  then show ?thesis using walk_Clean [of cwd "''.''"]
    by (simp add: path_join_def walk_def rooted_def clean_step_def)
next
  case False
  then have "walk cwd (path_join b ''.'') = walk cwd (b @ sep # ''.'')"
    using walk_Clean by (simp add: path_join_def)
  then show ?thesis using False rooted_append [of b "sep # ''.''"]
    by (simp add: walk_def Split_append clean_step_def)
qed

end
