(* ===== verification/Blob_Store.thy ===== *)
theory Blob_Store
  imports Go_Path "HOL-Library.AList"
begin

text \<open>
  The blob stores of \<open>src/server/internal/oss/oss.go\<close>, which hold uploaded build contexts,
  and the download handler \<open>serveBlob\<close> of \<open>src/server/internal/api/server.go\<close>.

  A file system is an association list from the names of a path to files and directories,
  without symbolic links; the root always exists. System calls fail on what they find
  there, and also whenever the environment \<open>flt\<close> says so: \<open>flt n = Some k\<close> makes the
  n-th call of an operation fail, a copy after \<open>k\<close> bytes. The MinIO client is third-party
  code: it is a record of functions over a state of its own.

  The interface \<open>BlobStore\<close> is the locale \<open>blob_store\<close>; the local store interprets it on
  the keys that \<open>serveBlob\<close> accepts.
\<close>

subsection \<open>File systems\<close>

datatype node = File string | Directory

type_synonym fs = "(string list \<times> node) list"
type_synonym faults = "nat \<Rightarrow> nat option"

definition no_faults :: faults where
  "no_faults = (\<lambda>_. None)"

definition node_at :: "fs \<Rightarrow> string list \<Rightarrow> node option" where
  "node_at f p = (if p = [] then Some Directory else map_of f p)"

fun mkdir_all :: "string list \<Rightarrow> string list \<Rightarrow> fs \<Rightarrow> bool \<times> fs" where
  "mkdir_all dir [] f = (True, f)"
| "mkdir_all dir (n # ns) f =
     (case node_at f (dir @ [n]) of
        Some (File _) \<Rightarrow> (False, f)
      | Some Directory \<Rightarrow> mkdir_all (dir @ [n]) ns f
      | None \<Rightarrow> mkdir_all (dir @ [n]) ns (AList.update (dir @ [n]) Directory f))"

definition os_create :: "string list \<Rightarrow> fs \<Rightarrow> fs option" where
  "os_create p f =
     (if node_at f p = Some Directory \<or> node_at f (butlast p) \<noteq> Some Directory then None
      else Some (AList.update p (File []) f))"

definition os_remove :: "string list \<Rightarrow> fs \<Rightarrow> fs option" where
  "os_remove p f =
     (case map_of f p of
        None \<Rightarrow> None
      | Some (File _) \<Rightarrow> Some (AList.delete p f)
      | Some Directory \<Rightarrow>
          if list_ex (\<lambda>(q, _). take (length p) q = p \<and> q \<noteq> p) f then None else Some (AList.delete p f))"

subsection \<open>The local store\<close>

record LocalStore =
  basePath :: string

definition NewLocalStore :: "string list \<Rightarrow> faults \<Rightarrow> string \<Rightarrow> fs \<Rightarrow> LocalStore option \<times> fs" where
  "NewLocalStore cwd flt base f =
     (if flt 0 \<noteq> None then (None, f)
      else case mkdir_all [] (walk cwd base) f of
        (ok, f') \<Rightarrow> (if ok then Some \<lparr>basePath = base\<rparr> else None, f'))"

definition resolveKey :: "LocalStore \<Rightarrow> string \<Rightarrow> string" where
  "resolveKey s key = path_join (basePath s) (Clean key)"

text \<open>\<open>Put\<close> returns the number of bytes copied and whether it succeeded.\<close>

definition Put_local ::
    "string list \<Rightarrow> LocalStore \<Rightarrow> faults \<Rightarrow> string \<Rightarrow> string \<Rightarrow> fs \<Rightarrow> (nat \<times> bool) \<times> fs" where
  "Put_local cwd s flt key data f =
     (let p = resolveKey s key in
      if flt 0 \<noteq> None then ((0, False), f)
      else case mkdir_all [] (walk cwd (path_dir p)) f of
        (ok, f1) \<Rightarrow>
          if \<not> ok \<or> flt 1 \<noteq> None then ((0, False), f1)
          else case os_create (walk cwd p) f1 of
            None \<Rightarrow> ((0, False), f1)
          | Some f2 \<Rightarrow>
             (case flt 2 of
                None \<Rightarrow> ((length data, True), AList.update (walk cwd p) (File data) f2)
              | Some k \<Rightarrow>
                  ((length (take k data), False), AList.update (walk cwd p) (File (take k data)) f2)))"

text \<open>\<open>Get\<close> returns the bytes written to the writer and whether it succeeded; reading a
  directory is an error.\<close>

definition Get_local :: "string list \<Rightarrow> LocalStore \<Rightarrow> faults \<Rightarrow> string \<Rightarrow> fs \<Rightarrow> string \<times> bool" where
  "Get_local cwd s flt key f =
     (if flt 0 \<noteq> None then ([], False)
      else case node_at f (walk cwd (resolveKey s key)) of
        Some (File d) \<Rightarrow> (case flt 1 of None \<Rightarrow> (d, True) | Some k \<Rightarrow> (take k d, False))
      | _ \<Rightarrow> ([], False))"

definition Delete_local :: "string list \<Rightarrow> LocalStore \<Rightarrow> faults \<Rightarrow> string \<Rightarrow> fs \<Rightarrow> bool \<times> fs" where
  "Delete_local cwd s flt key f =
     (if flt 0 \<noteq> None then (False, f)
      else case os_remove (walk cwd (resolveKey s key)) f of
        None \<Rightarrow> (False, f) | Some f' \<Rightarrow> (True, f'))"

subsection \<open>The S3 store\<close>

text \<open>What the program calls of the MinIO client. \<open>GetObject\<close> yields the bytes that its
  reader delivers and whether the reader ends without an error.\<close>

record 's minio_client =
  BucketExists :: "string \<Rightarrow> 's \<Rightarrow> bool option"
  MakeBucket :: "string \<Rightarrow> 's \<Rightarrow> bool \<times> 's"
  PutObject :: "string \<Rightarrow> string \<Rightarrow> string \<Rightarrow> 's \<Rightarrow> nat option \<times> 's"
  GetObject :: "string \<Rightarrow> string \<Rightarrow> 's \<Rightarrow> (string \<times> bool) option"
  RemoveObject :: "string \<Rightarrow> string \<Rightarrow> 's \<Rightarrow> bool \<times> 's"

record 's S3Store =
  client :: "'s minio_client"
  bucket :: string

record S3Config =
  Endpoint :: string
  AccessKey :: string
  SecretKey :: string
  Bucket :: string
  UseSSL :: bool

definition NewS3Store ::
    "(S3Config \<Rightarrow> 's minio_client option) \<Rightarrow> S3Config \<Rightarrow> 's \<Rightarrow> 's S3Store option \<times> 's" where
  "NewS3Store minio_New cfg s =
     (case minio_New cfg of
        None \<Rightarrow> (None, s)
      | Some c \<Rightarrow>
         (case BucketExists c (Bucket cfg) s of
            None \<Rightarrow> (None, s)
          | Some True \<Rightarrow> (Some \<lparr>client = c, bucket = Bucket cfg\<rparr>, s)
          | Some False \<Rightarrow>
             (case MakeBucket c (Bucket cfg) s of
                (ok, s') \<Rightarrow> (if ok then Some \<lparr>client = c, bucket = Bucket cfg\<rparr> else None, s'))))"

text \<open>The reader of \<open>Put\<close> delivers \<open>data\<close> and then fails when \<open>rd\<close> is false.\<close>

definition Put_s3 :: "'s S3Store \<Rightarrow> bool \<Rightarrow> string \<Rightarrow> string \<Rightarrow> 's \<Rightarrow> (nat \<times> bool) \<times> 's" where
  "Put_s3 st rd key data s =
     (if \<not> rd then ((0, False), s)
      else case PutObject (client st) (bucket st) key data s of
        (None, s') \<Rightarrow> ((0, False), s')
      | (Some sz, s') \<Rightarrow> ((sz, True), s'))"

definition Get_s3 :: "'s S3Store \<Rightarrow> string \<Rightarrow> 's \<Rightarrow> string \<times> bool" where
  "Get_s3 st key s =
     (case GetObject (client st) (bucket st) key s of None \<Rightarrow> ([], False) | Some r \<Rightarrow> r)"

definition Delete_s3 :: "'s S3Store \<Rightarrow> string \<Rightarrow> 's \<Rightarrow> bool \<times> 's" where
  "Delete_s3 st key s = RemoveObject (client st) (bucket st) key s"

subsection \<open>Choosing the store\<close>

definition env_or :: "(string \<Rightarrow> string) \<Rightarrow> string \<Rightarrow> string \<Rightarrow> string" where
  "env_or getenv name dflt = (if getenv name = [] then dflt else getenv name)"

definition s3_config :: "(nat \<Rightarrow> nat) \<Rightarrow> (string \<Rightarrow> string) \<Rightarrow> S3Config" where
  "s3_config L getenv =
     \<lparr>Endpoint = getenv ''S3_ENDPOINT'',
      AccessKey = env_or getenv ''S3_ACCESS_KEY'' ''admin'',
      SecretKey = env_or getenv ''S3_SECRET_KEY'' ''password'',
      Bucket = env_or getenv ''S3_BUCKET'' ''dtbuildkit'',
      UseSSL = (ToLower L (getenv ''S3_USE_SSL'') = ''true'')\<rparr>"

datatype 's BlobStore = Local LocalStore | S3 "'s S3Store"

definition NewStoreFromEnv ::
    "(nat \<Rightarrow> nat) \<Rightarrow> (string \<Rightarrow> string) \<Rightarrow> string list \<Rightarrow> faults \<Rightarrow> (S3Config \<Rightarrow> 's minio_client option) \<Rightarrow>
     string \<Rightarrow> fs \<times> 's \<Rightarrow> 's BlobStore option \<times> (fs \<times> 's)" where
  "NewStoreFromEnv L getenv cwd flt minio_New base w =
     (if getenv ''S3_ENDPOINT'' = [] then
        (case NewLocalStore cwd flt base (fst w) of
           (st, f) \<Rightarrow> (map_option Local st, (f, snd w)))
      else
        (case NewS3Store minio_New (s3_config L getenv) (snd w) of
           (st, s) \<Rightarrow> (map_option S3 st, (fst w, s))))"

subsection \<open>The download handler\<close>

definition key_rejected :: "string \<Rightarrow> bool" where
  "key_rejected key \<longleftrightarrow>
     key = [] \<or> Contains key ''..'' \<or> HasPrefix key ''/'' \<or> Contains key [CHR 0x00] \<or>
     Clean key \<noteq> key \<or> HasPrefix (Clean key) ''/'' \<or> HasPrefix (Clean key) ''..''"

text \<open>
  The response is its status and body. An error after the first byte can no longer change
  the status, so the text of the error lands behind the bytes already sent.
\<close>

definition serveBlob :: "(string \<Rightarrow> string \<times> bool) \<Rightarrow> string \<Rightarrow> nat \<times> string" where
  "serveBlob get path =
     (let key = TrimPrefix path ''/api/v1/blobs/'' in
      if key_rejected key then (400, ''invalid key'' @ [CHR 0x0A])
      else case get (Clean key) of
        (w, ok) \<Rightarrow> (if ok \<or> w \<noteq> [] then 200 else 404, w @ (if ok then [] else ''not found'' @ [CHR 0x0A])))"

subsection \<open>Accepted keys\<close>

lemma Clean_relative:
  assumes "\<not> rooted k" "Clean k = k" "k \<noteq> ''.''"
  shows "Split sep k = clean_comps k"
proof -
  have "clean_comps k \<noteq> []" "k = Join [sep] (clean_comps k)" using assms by (auto simp: Clean_def split: if_splits)
  moreover have "\<And>c. c \<in> set (clean_comps k) \<Longrightarrow> sep \<notin> set c" using kept_comps by (auto simp: kept_def)
  ultimately show ?thesis using Split_Join_kept by metis
qed

lemma accepted_key:
  assumes "\<not> key_rejected k"
  shows "Clean k = k" "\<not> rooted k" "k \<noteq> ''.'' \<Longrightarrow> c \<in> set (Split sep k) \<Longrightarrow> plain c"
proof -
  show k: "Clean k = k" "\<not> rooted k" using assms by (auto simp: key_rejected_def rooted_def)
  assume dot: "k \<noteq> ''.''" and c: "c \<in> set (Split sep k)"
  then have "kept (rooted k) c" using Clean_relative [OF k(2,1)] kept_comps by simp
  moreover have "c \<noteq> ''..''"
  proof
    assume "c = ''..''"
    then have "Contains k ''..''" using Join_mem [OF c, of "[sep]"] unfolding Join_Split Contains_iff by blast
    then show False using assms by (simp add: key_rejected_def)
  qed
  ultimately show "plain c" by (simp add: plain_def kept_def)
qed

definition key_names :: "string \<Rightarrow> string list" where
  "key_names k = (if k = ''.'' then [] else Split sep k)"

lemma walk_key:
  assumes "\<not> key_rejected k"
  shows "walk cwd (resolveKey s k) = walk cwd (basePath s) @ key_names k"
  using accepted_key [OF assms] walk_join_plain [of k cwd "basePath s"] walk_join_dot
  by (auto simp: resolveKey_def key_names_def)

lemma key_names_inj: "key_names k = key_names k' \<Longrightarrow> k = k'"
  unfolding key_names_def by (metis Join_Split Split_nonempty)

subsection \<open>File system lemmas\<close>

definition file_at :: "fs \<Rightarrow> string list \<Rightarrow> string option" where
  "file_at f p = (case node_at f p of Some (File d) \<Rightarrow> Some d | _ \<Rightarrow> None)"

lemma file_at_Some: "file_at f p = Some d \<longleftrightarrow> p \<noteq> [] \<and> map_of f p = Some (File d)"
  by (auto simp: file_at_def node_at_def split: option.splits node.splits)

lemma file_at_new_dir: "node_at f q = None \<Longrightarrow> file_at (AList.update q Directory f) p = file_at f p"
  by (auto simp: file_at_def node_at_def update_conv' split: option.split node.split if_splits)

lemma file_at_mkdir [simp]: "file_at (snd (mkdir_all dir ns f)) p = file_at f p"
proof (induction ns arbitrary: dir f)
  case (Cons n ns)
  then show ?case using file_at_new_dir [of f "dir @ [n]" p] by (auto split: option.split node.split)
qed simp

lemma file_at_update: "q \<noteq> [] \<Longrightarrow> file_at (AList.update q (File d) f) p = (if p = q then Some d else file_at f p)"
  by (auto simp: file_at_def node_at_def update_conv' split: option.split node.split)

lemma file_at_delete: "file_at (AList.delete q f) p = (if p = q then None else file_at f p)"
  by (auto simp: file_at_def node_at_def delete_conv' split: option.split node.split)

lemma os_create_Some: "os_create p f = Some f' \<longleftrightarrow>
    node_at f p \<noteq> Some Directory \<and> node_at f (butlast p) = Some Directory \<and> f' = AList.update p (File []) f"
  by (auto simp: os_create_def)

lemma os_create_file: "os_create p f = Some f' \<Longrightarrow> p \<noteq> []"
  by (auto simp: os_create_Some node_at_def)

lemma Get_file: "Get_local cwd s flt k f =
    (if flt 0 \<noteq> None then ([], False)
     else case file_at f (walk cwd (resolveKey s k)) of
       None \<Rightarrow> ([], False)
     | Some d \<Rightarrow> (case flt 1 of None \<Rightarrow> (d, True) | Some n \<Rightarrow> (take n d, False)))"
  by (auto simp: Get_local_def file_at_def split: option.split node.split)

text \<open>A \<open>Put\<close> changes no file but its own; when it succeeds that file has the data.\<close>

lemma Put_files:
  assumes "Put_local cwd s flt k d f = ((n, ok), f')"
  shows "p \<noteq> walk cwd (resolveKey s k) \<Longrightarrow> file_at f' p = file_at f p"
    and "ok \<Longrightarrow> n = length d \<and> file_at f' (walk cwd (resolveKey s k)) = Some d"
proof -
  let ?q = "walk cwd (resolveKey s k)"
  obtain ok1 f1 where mk: "mkdir_all [] (walk cwd (path_dir (resolveKey s k))) f = (ok1, f1)" by fastforce
  have f1: "file_at f1 = file_at f" using file_at_mkdir mk by (metis snd_conv ext)
  have upd: "file_at (AList.update ?q (File x) (AList.update ?q (File []) f1)) = (file_at f)(?q \<mapsto> x)"
    if "node_at f1 ?q \<noteq> Some Directory" for x
  proof -
    have "?q \<noteq> []" using that by (auto simp: node_at_def)
    then show ?thesis using f1 by (simp add: file_at_update fun_eq_iff)
  qed
  have "file_at f' = file_at f \<and> \<not> ok \<or>
      (\<exists>d'. file_at f' = (file_at f)(?q \<mapsto> d') \<and> (ok \<longrightarrow> d' = d \<and> n = length d))"
    using assms mk f1 upd
    by (auto simp: Put_local_def Let_def os_create_Some split: if_splits option.splits)
  then show "p \<noteq> ?q \<Longrightarrow> file_at f' p = file_at f p" "ok \<Longrightarrow> n = length d \<and> file_at f' ?q = Some d"
    by auto
qed

lemma Delete_files:
  assumes "Delete_local cwd s flt k f = (ok, f')"
  shows "file_at f' p = (if ok \<and> p = walk cwd (resolveKey s k) then None else file_at f p)"
  using assms file_at_delete
  by (auto simp: Delete_local_def os_remove_def split: if_splits option.splits node.splits)

text \<open>When a \<open>Put\<close> cannot fail: no file stands where a directory is needed, no directory
  where the file goes.\<close>

lemma mkdir_all_deeper:
  "length dir + length ns < length p \<Longrightarrow> node_at (snd (mkdir_all dir ns f)) p = node_at f p"
proof (induction ns arbitrary: dir f)
  case (Cons n ns)
  then have "p \<noteq> dir @ [n]" by auto
  then have "node_at (AList.update (dir @ [n]) Directory f) p = node_at f p"
    by (simp add: node_at_def update_conv')
  then show ?case using Cons by (auto split: option.split node.split)
qed simp

lemma mkdir_all_ok:
  assumes "node_at f dir = Some Directory"
    and "\<And>i. i \<le> length ns \<Longrightarrow> file_at f (dir @ take i ns) = None"
  shows "fst (mkdir_all dir ns f) \<and> node_at (snd (mkdir_all dir ns f)) (dir @ ns) = Some Directory"
  using assms
proof (induction ns arbitrary: dir f)
  case (Cons n ns)
  let ?d = "dir @ [n]"
  have sub: "file_at f (?d @ take i ns) = None" if "i \<le> length ns" for i
    using Cons.prems(2) [of "Suc i"] that by simp
  show ?case
  proof (cases "node_at f ?d")
    case None
    let ?f = "AList.update ?d Directory f"
    have "file_at ?f (?d @ take i ns) = None" if "i \<le> length ns" for i
      using sub [OF that] file_at_new_dir [OF None] by simp
    moreover have "node_at ?f ?d = Some Directory" by (simp add: node_at_def update_conv')
    ultimately show ?thesis using Cons.IH [of ?f ?d] None by simp
  next
    case (Some x)
    then have "x = Directory" using sub [of 0] by (cases x) (auto simp: file_at_def)
    then show ?thesis using Cons.IH [of f ?d] sub Some by simp
  qed
qed simp

lemma walk_dir:
  assumes "p = a @ sep # c \<or> p = c \<and> a = []" "plain c"
  shows "walk cwd (path_dir p) = butlast (walk cwd p)"
proof -
  have c: "sep \<notin> set c" "c \<noteq> []" using assms(2) by (auto simp: plain_def)
  have one: "Split sep c = [c]" using c(1) by (induction c) auto
  show ?thesis
  proof (cases "p = a @ sep # c")
    case True
    have "dropWhile (\<lambda>x. x \<noteq> sep) (rev p) = sep # rev a"
      using True c(1) by (simp add: dropWhile_append)
    then have "walk cwd (path_dir p) = walk cwd (a @ [sep])" by (simp add: path_dir_def walk_Clean)
    moreover have "rooted (a @ [sep]) = rooted p" using True by (cases a) (auto simp: rooted_def)
    ultimately show ?thesis using True one Split_append [of sep a "[]"] Split_append [of sep a c]
      clean_step_plain [OF assms(2)] by (simp add: walk_def clean_step_def)
  next
    case False
    then have p: "p = c" using assms(1) by blast
    then have "dropWhile (\<lambda>x. x \<noteq> sep) (rev p) = []" using c(1) by (auto simp: dropWhile_eq_Nil_conv)
    then have "walk cwd (path_dir p) = walk cwd []" by (simp only: path_dir_def walk_Clean rev.simps)
    moreover have "\<not> rooted p" using p c by (cases c) (auto simp: rooted_def)
    ultimately show ?thesis using p one clean_step_plain [OF assms(2)]
      by (simp add: walk_def rooted_def clean_step_def)
  qed
qed

lemma Join_snoc: "Join d (cs @ [c]) = (if cs = [] then c else Join d cs @ d @ c)"
  by (induction cs) (auto simp: Join_Cons)

lemma Clean_last:
  assumes "clean_comps q = cs @ [c]"
  shows "\<exists>a. Clean q = a @ sep # c \<or> Clean q = c \<and> a = []"
  using assms by (auto simp: Clean_def Join_snoc)

lemma resolve_last:
  assumes "\<not> key_rejected k" "k \<noteq> ''.''"
  shows "\<exists>a. resolveKey s k = a @ sep # last (Split sep k) \<or> resolveKey s k = last (Split sep k) \<and> a = []"
proof -
  note acc = accepted_key [OF assms(1)]
  let ?q = "if basePath s = [] then k else basePath s @ sep # k"
  have "k \<noteq> []" using assms(1) by (auto simp: key_rejected_def)
  then have q: "resolveKey s k = Clean ?q" using acc by (simp add: resolveKey_def path_join_def)
  have "\<exists>cs. clean_comps ?q = cs @ Split sep k"
    using fold_plain [of "Split sep k"] acc(3) [OF assms(2)]
    by (auto simp: clean_comps_def Split_append)
  moreover have "Split sep k = butlast (Split sep k) @ [last (Split sep k)]" by simp
  ultimately obtain cs where "clean_comps ?q = cs @ [last (Split sep k)]" by (metis append_assoc)
  then show ?thesis using Clean_last q by metis
qed

lemma Put_ok:
  assumes "\<not> key_rejected k" "k \<noteq> ''.''" "flt 0 = None" "flt 1 = None" "flt 2 = None"
    and q: "q = walk cwd (resolveKey s k)"
    and dirs: "\<And>i. i < length q \<Longrightarrow> file_at f (take i q) = None" and "node_at f q \<noteq> Some Directory"
  shows "fst (Put_local cwd s flt k d f) = (length d, True)"
proof -
  have ne: "q \<noteq> []" using walk_key [OF assms(1), of cwd s] assms(2) by (simp add: q key_names_def)
  have "plain (last (Split sep k))" using accepted_key(3) [OF assms(1,2)] by simp
  then have dir: "walk cwd (path_dir (resolveKey s k)) = butlast q"
    using resolve_last [OF assms(1,2), of s] walk_dir unfolding q by blast
  have "file_at f ([] @ take i (butlast q)) = None" if "i \<le> length (butlast q)" for i
  proof -
    have "i < length q" using that ne by (simp add: Suc_le_eq [symmetric]) (metis One_nat_def Suc_pred length_greater_0_conv not_less_eq_eq)
    moreover have "take i (butlast q) = take i q" using that by (simp add: butlast_conv_take)
    ultimately show ?thesis using dirs [of i] by simp
  qed
  then have "fst (mkdir_all [] (butlast q) f) \<and> node_at (snd (mkdir_all [] (butlast q) f)) (butlast q) = Some Directory"
    using mkdir_all_ok [of f "[]" "butlast q"] by (simp add: node_at_def)
  moreover have "node_at (snd (mkdir_all [] (butlast q) f)) q = node_at f q"
    using mkdir_all_deeper [of "[]" "butlast q" q f] ne by (cases q) auto
  ultimately show ?thesis using assms(3-5,8) dir
    by (auto simp: Put_local_def Let_def os_create_def q split: prod.split)
qed

subsection \<open>The interface of a blob store\<close>

datatype 'f blob_op = BPut 'f string string | BDelete 'f string

fun op_key :: "'f blob_op \<Rightarrow> string" where
  "op_key (BPut _ k _) = k"
| "op_key (BDelete _ k) = k"

fun blob_run ::
    "('f \<Rightarrow> string \<Rightarrow> string \<Rightarrow> 's \<Rightarrow> (nat \<times> bool) \<times> 's) \<Rightarrow> ('f \<Rightarrow> string \<Rightarrow> 's \<Rightarrow> bool \<times> 's) \<Rightarrow>
     'f blob_op list \<Rightarrow> 's \<Rightarrow> 's" where
  "blob_run put del [] s = s"
| "blob_run put del (BPut e k d # ops) s = blob_run put del ops (snd (put e k d s))"
| "blob_run put del (BDelete e k # ops) s = blob_run put del ops (snd (del e k s))"

locale blob_store =
  fixes good :: "string \<Rightarrow> bool"
    and put :: "'f \<Rightarrow> string \<Rightarrow> string \<Rightarrow> 's \<Rightarrow> (nat \<times> bool) \<times> 's"
    and get :: "'f \<Rightarrow> string \<Rightarrow> 's \<Rightarrow> string \<times> bool"
    and del :: "'f \<Rightarrow> string \<Rightarrow> 's \<Rightarrow> bool \<times> 's"
    and quiet :: 'f
  assumes put_get: "good k \<Longrightarrow> put e k d s = ((n, True), s') \<Longrightarrow> n = length d \<and> get quiet k s' = (d, True)"
    and put_other: "good k \<Longrightarrow> good k' \<Longrightarrow> k' \<noteq> k \<Longrightarrow> get e' k' (snd (put e k d s)) = get e' k' s"
    and del_get: "good k \<Longrightarrow> del e k s = (True, s') \<Longrightarrow> \<not> snd (get e' k s')"
    and del_fail: "good k \<Longrightarrow> del e k s = (False, s') \<Longrightarrow> good k' \<Longrightarrow> get e' k' s' = get e' k' s"
    and del_other: "good k \<Longrightarrow> good k' \<Longrightarrow> k' \<noteq> k \<Longrightarrow> get e' k' (snd (del e k s)) = get e' k' s"
    and get_quiet: "snd (get e k s) \<Longrightarrow> get quiet k s = get e k s"
begin

lemma run_other:
  assumes "good k" "\<And>x. x \<in> set ops \<Longrightarrow> good (op_key x) \<and> op_key x \<noteq> k"
  shows "get e' k (blob_run put del ops s) = get e' k s"
  using assms(2)
proof (induction ops arbitrary: s)
  case (Cons x ops)
  have "good (op_key x)" "op_key x \<noteq> k" using Cons.prems by auto
  then show ?case using Cons assms(1) by (cases x) (auto simp: put_other del_other)
qed simp

text \<open>A blob that was stored stays what it was, whatever happens to other keys.\<close>

lemma stored_stays:
  assumes "put e k d s = ((n, True), s')" "good k"
    and "\<And>x. x \<in> set ops \<Longrightarrow> good (op_key x) \<and> op_key x \<noteq> k"
  shows "get quiet k (blob_run put del ops s') = (d, True)"
  using run_other [of k ops quiet s'] put_get assms by simp

end

interpretation local_store: blob_store "\<lambda>k. \<not> key_rejected k" "Put_local cwd st" "Get_local cwd st"
  "Delete_local cwd st" no_faults for cwd st
proof
  have path: "walk cwd (resolveKey st k') \<noteq> walk cwd (resolveKey st k)"
    if "\<not> key_rejected k" "\<not> key_rejected k'" "k' \<noteq> k" for k k'
    using that walk_key [of k cwd st] walk_key [of k' cwd st] key_names_inj by auto
  fix k k' :: string and e e' :: faults and d n s s'
  show "n = length d \<and> Get_local cwd st no_faults k s' = (d, True)"
    if "Put_local cwd st e k d s = ((n, True), s')"
    using Put_files(2) [OF that] by (simp add: Get_file no_faults_def)
  show "Get_local cwd st e' k' (snd (Put_local cwd st e k d s)) = Get_local cwd st e' k' s"
    if "\<not> key_rejected k" "\<not> key_rejected k'" "k' \<noteq> k"
    using Put_files(1) [of cwd st e k d s "fst (fst (Put_local cwd st e k d s))"
        "snd (fst (Put_local cwd st e k d s))" "snd (Put_local cwd st e k d s)"] path [OF that]
    by (simp add: Get_file)
  show "\<not> snd (Get_local cwd st e' k s')" if "Delete_local cwd st e k s = (True, s')"
    using Delete_files [OF that] by (simp add: Get_file)
  show "Get_local cwd st e' k' s' = Get_local cwd st e' k' s" if "Delete_local cwd st e k s = (False, s')"
    using Delete_files [OF that] by (simp add: Get_file)
  show "Get_local cwd st e' k' (snd (Delete_local cwd st e k s)) = Get_local cwd st e' k' s"
    if "\<not> key_rejected k" "\<not> key_rejected k'" "k' \<noteq> k"
    using Delete_files [of cwd st e k s "fst (Delete_local cwd st e k s)" "snd (Delete_local cwd st e k s)"]
      path [OF that] by (simp add: Get_file)
  show "Get_local cwd st no_faults k s = Get_local cwd st e k s" if "snd (Get_local cwd st e k s)"
    using that by (auto simp: Get_file no_faults_def split: option.splits if_splits)
qed

subsection \<open>Properties\<close>

text \<open>(C16) The download handler reads nothing outside the directory of the store: what it
  answers to any path depends only on the files below the base directory.\<close>

theorem serveBlob_confined:
  assumes "\<And>p. file_at f (walk cwd (basePath st) @ p) = file_at f' (walk cwd (basePath st) @ p)"
  shows "serveBlob (\<lambda>k. Get_local cwd st flt k f) path = serveBlob (\<lambda>k. Get_local cwd st flt k f') path"
proof -
  let ?k = "TrimPrefix path ''/api/v1/blobs/''"
  show ?thesis
  proof (cases "key_rejected ?k")
    case False
    then have "Clean ?k = ?k" by (rule accepted_key)
    then have "Get_local cwd st flt (Clean ?k) f = Get_local cwd st flt (Clean ?k) f'"
      using assms [of "key_names ?k"] walk_key [OF False, of cwd st] by (simp add: Get_file)
    then show ?thesis by (simp add: serveBlob_def Let_def)
  qed (simp add: serveBlob_def Let_def)
qed

theorem serveBlob_confined_witness:
  "serveBlob (\<lambda>k. Get_local [] \<lparr>basePath = ''/data''\<rparr> no_faults k [([''etc'', ''key''], File ''secret'')])
     ''/api/v1/blobs/etc/key'' =
   serveBlob (\<lambda>k. Get_local [] \<lparr>basePath = ''/data''\<rparr> no_faults k []) ''/api/v1/blobs/etc/key''"
  by (rule serveBlob_confined)
    (simp add: walk_def rooted_def clean_step_def file_at_def node_at_def)

text \<open>A build context uploaded under an accepted key is stored whenever no system call
  fails and no file stands in the way of its directories, and every later download of that
  key answers 200 with exactly its bytes, whatever is stored or deleted under other accepted
  keys in between, failing calls included.\<close>

theorem blob_roundtrip:
  assumes "\<not> key_rejected k" "k \<noteq> ''.''"
    and "q = walk cwd (resolveKey st k)" "\<And>i. i < length q \<Longrightarrow> file_at f (take i q) = None"
    and "node_at f q \<noteq> Some Directory"
    and "\<And>x. x \<in> set ops \<Longrightarrow> \<not> key_rejected (op_key x) \<and> op_key x \<noteq> k"
  shows "\<exists>f'. Put_local cwd st no_faults k d f = ((length d, True), f') \<and>
           serveBlob (\<lambda>k. Get_local cwd st no_faults k
              (blob_run (Put_local cwd st) (Delete_local cwd st) ops f')) (''/api/v1/blobs/'' @ k) = (200, d)"
proof -
  have "fst (Put_local cwd st no_faults k d f) = (length d, True)"
    using Put_ok [of k no_faults q cwd st f d] assms by (simp add: no_faults_def)
  then obtain f' where f': "Put_local cwd st no_faults k d f = ((length d, True), f')"
    by (metis prod.collapse)
  have "Get_local cwd st no_faults k (blob_run (Put_local cwd st) (Delete_local cwd st) ops f') = (d, True)"
    using local_store.stored_stays [OF f' assms(1,6)] by simp
  moreover have "TrimPrefix (''/api/v1/blobs/'' @ k) ''/api/v1/blobs/'' = k" by (simp add: TrimPrefix_def HasPrefix_def)
  ultimately show ?thesis using f' assms(1) accepted_key(1) [OF assms(1)] by (simp add: serveBlob_def Let_def)
qed

theorem blob_roundtrip_witness:
  "\<exists>f'. Put_local [] \<lparr>basePath = ''/d''\<rparr> no_faults ''c/x'' ''tar'' [] = ((3, True), f') \<and>
     serveBlob (\<lambda>k. Get_local [] \<lparr>basePath = ''/d''\<rparr> no_faults k
        (blob_run (Put_local [] \<lparr>basePath = ''/d''\<rparr>) (Delete_local [] \<lparr>basePath = ''/d''\<rparr>)
           [BPut no_faults ''c/y'' ''other'', BDelete no_faults ''c/z''] f')) ''/api/v1/blobs/c/x'' = (200, ''tar'')"
proof -
  have ok: "\<not> key_rejected ''c/x''" "\<not> key_rejected ''c/y''" "\<not> key_rejected ''c/z''"
    by (simp_all add: key_rejected_def Contains_def Clean_def clean_comps_def rooted_def clean_step_def)
  then show ?thesis
    using blob_roundtrip [OF ok(1) _ refl, of "[]" "\<lparr>basePath = ''/d''\<rparr>" "[]"
        "[BPut no_faults ''c/y'' ''other'', BDelete no_faults ''c/z'']" "''tar''"]
      walk_key [OF ok(1), of "[]" "\<lparr>basePath = ''/d''\<rparr>"]
    by (force simp: file_at_def node_at_def key_names_def)
qed

end
