(* ===== verification/Go_Parse.thy ===== *)
theory Go_Parse
  imports Go_Strings Go_Float
begin

text \<open>
  Numbers and durations as text: \<open>strconv.ParseInt\<close> and \<open>strconv.Atoi\<close> for base 10 on a
  64-bit machine, \<open>fmt.Sscanf\<close> with the verb \<open>%d\<close>, the verb \<open>%d\<close> of \<open>fmt.Printf\<close>, and
  \<open>time.ParseDuration\<close>. \<open>None\<close> is an error.
\<close>

subsection \<open>Integers\<close>

definition is_digit :: "char \<Rightarrow> bool" where
  "is_digit c \<longleftrightarrow> 48 \<le> (of_char c :: nat) \<and> (of_char c :: nat) \<le> 57"

definition digits_val :: "string \<Rightarrow> nat" where
  "digits_val ds = foldl (\<lambda>n c. 10 * n + (of_char c - 48)) 0 ds"

definition signed_val :: "bool \<Rightarrow> string \<Rightarrow> int option" where
  "signed_val neg ds =
     (let n = (if neg then - int (digits_val ds) else int (digits_val ds)) in
      if ds \<noteq> [] \<and> - (2 ^ 63) \<le> n \<and> n < 2 ^ 63 then Some n else None)"

definition ParseInt :: "string \<Rightarrow> int option" where
  "ParseInt s =
     (case s of
        [] \<Rightarrow> None
      | c # t \<Rightarrow>
         (let ds = (if c = CHR ''-'' \<or> c = CHR ''+'' then t else s) in
          if list_all is_digit ds then signed_val (c = CHR ''-'') ds else None))"

definition show_int :: "int \<Rightarrow> string" where
  "show_int n = (if n < 0 then CHR ''-'' # Itoa (nat (- n)) else Itoa (nat n))"

text \<open>\<open>fmt.Sscanf(s, "%d", &n)\<close>: white space is skipped but a line feed is an error, then an
  optional sign and decimal digits, which must fit an \<open>int\<close>; what follows is ignored.
  \<open>None\<close> leaves the variable alone.\<close>

function skip_space :: "string \<Rightarrow> string option" where
  "skip_space s =
     (case find (HasPrefix s) space_seqs of
        None \<Rightarrow> Some s
      | Some w \<Rightarrow> if w = [CHR 0x0A] then None else skip_space (drop (length w) s))"
  by pat_completeness auto
termination
proof (relation "measure length")
  fix s w assume "find (HasPrefix s) space_seqs = Some w"
  then have "HasPrefix s w" "w \<in> set space_seqs" by (auto simp: find_Some_iff)
  moreover have "w \<noteq> []" using \<open>w \<in> set space_seqs\<close> by (auto simp: space_seqs_def)
  ultimately show "(drop (length w) s, s) \<in> measure length" by (cases s) (auto simp: HasPrefix_def)
qed simp

declare skip_space.simps [simp del]

definition Sscanf_d :: "string \<Rightarrow> int option" where
  "Sscanf_d s =
     (case skip_space s of
        None \<Rightarrow> None
      | Some [] \<Rightarrow> None
      | Some (c # t) \<Rightarrow>
          if c = CHR ''-'' then signed_val True (takeWhile is_digit t)
          else if c = CHR ''+'' then signed_val False (takeWhile is_digit t)
          else signed_val False (takeWhile is_digit (c # t)))"

subsection \<open>Durations\<close>

text \<open>Nanoseconds. \<open>leadingInt\<close> fails when its value leaves the range, \<open>leadingFraction\<close>
  ignores the digits that no longer fit.\<close>

fun leadingInt :: "nat \<Rightarrow> string \<Rightarrow> (nat \<times> string) option" where
  "leadingInt x [] = Some (x, [])"
| "leadingInt x (c # s) =
     (if \<not> is_digit c then Some (x, c # s)
      else if x > 2 ^ 63 div 10 then None
      else let y = x * 10 + (of_char c - 48) in if y > 2 ^ 63 then None else leadingInt y s)"

fun leadingFraction :: "nat \<Rightarrow> nat \<Rightarrow> bool \<Rightarrow> string \<Rightarrow> nat \<times> nat \<times> string" where
  "leadingFraction x scale over [] = (x, scale, [])"
| "leadingFraction x scale over (c # s) =
     (if \<not> is_digit c then (x, scale, c # s)
      else if over \<or> x > (2 ^ 63 - 1) div 10 then leadingFraction x scale True s
      else let y = x * 10 + (of_char c - 48) in
        if y > 2 ^ 63 then leadingFraction x scale True s
        else leadingFraction y (scale * 10) False s)"

definition unitMap :: "(string \<times> nat) list" where
  "unitMap = [(''ns'', 1), (''us'', 1000), (map byte [194, 181] @ ''s'', 1000), (map byte [206, 188] @ ''s'', 1000),
     (''ms'', 1000000), (''s'', 1000000000), (''m'', 60000000000), (''h'', 3600000000000)]"

definition unit_char :: "char \<Rightarrow> bool" where
  "unit_char c \<longleftrightarrow> c \<noteq> CHR ''.'' \<and> \<not> is_digit c"

text \<open>One number with its unit: the nanoseconds and the rest.\<close>

definition duration_item :: "string \<Rightarrow> (nat \<times> string) option" where
  "duration_item s =
     (case leadingInt 0 s of
        None \<Rightarrow> None
      | Some (v, s1) \<Rightarrow>
         (let dot = (s1 \<noteq> [] \<and> hd s1 = CHR ''.'');
              (f, scale, s2) = (if dot then leadingFraction 0 1 False (tl s1) else (0, 1, s1));
              u = takeWhile unit_char s2
          in if \<not> (length s1 < length s) \<and> \<not> (dot \<and> length s2 < length (tl s1)) then None
             else if u = [] then None
             else case map_of unitMap u of
               None \<Rightarrow> None
             | Some unit \<Rightarrow>
                if v > 2 ^ 63 div unit then None
                else let v' = v * unit + (if f > 0 then nat \<lfloor>fmul (float_of_int (int f))
                         (fdiv (float_of_int (int unit)) (float_of_int (int scale)))\<rfloor> else 0)
                  in if v' > 2 ^ 63 then None else Some (v', dropWhile unit_char s2)))"

lemma leadingInt_length: "leadingInt x s = Some (v, t) \<Longrightarrow> length t \<le> length s"
  by (induction x s rule: leadingInt.induct) (auto simp: Let_def split: if_splits)

lemma leadingFraction_length: "leadingFraction x sc ov s = (y, sc', t) \<Longrightarrow> length t \<le> length s"
  by (induction s arbitrary: x sc ov) (fastforce simp: Let_def split: if_splits)+

lemma takeWhile_nonempty_drop: "takeWhile P s \<noteq> [] \<Longrightarrow> length (dropWhile P s) < length s"
  by (cases s) (auto split: if_splits simp: length_dropWhile_le less_Suc_eq_le)

lemma duration_item_length:
  assumes "duration_item s = Some (v, t)"
  shows "length t < length s"
proof -
  obtain n s1 where 1: "leadingInt 0 s = Some (n, s1)" using assms by (auto simp: duration_item_def split: option.splits)
  obtain f scale s2 where 2: "(if s1 \<noteq> [] \<and> hd s1 = CHR ''.'' then leadingFraction 0 1 False (tl s1) else (0, 1, s1)) = (f, scale, s2)"
    by (metis prod_cases3)
  have "length s2 \<le> length s1"
    using 2 leadingFraction_length [of 0 1 False "tl s1" f scale s2] by (cases s1) (auto split: if_splits)
  moreover have "takeWhile unit_char s2 \<noteq> []" "t = dropWhile unit_char s2"
    using assms 1 2 by (auto simp: duration_item_def Let_def split: if_splits option.splits prod.splits)
  ultimately show ?thesis using leadingInt_length [OF 1] takeWhile_nonempty_drop [of unit_char s2] by simp
qed

function duration_items :: "nat \<Rightarrow> string \<Rightarrow> nat option" where
  "duration_items d s =
     (if s = [] then Some d
      else if \<not> (hd s = CHR ''.'' \<or> is_digit (hd s)) then None
      else case duration_item s of
        None \<Rightarrow> None
      | Some (v, t) \<Rightarrow> (let d' = (d + v) mod 2 ^ 64 in if d' > 2 ^ 63 then None else duration_items d' t))"
  by pat_completeness auto
termination
  by (relation "measure (\<lambda>(d, s). length s)") (auto dest: duration_item_length)

declare duration_items.simps [simp del]

definition ParseDuration :: "string \<Rightarrow> int option" where
  "ParseDuration s =
     (let neg = (s \<noteq> [] \<and> hd s = CHR ''-'');
          s = (if s \<noteq> [] \<and> (hd s = CHR ''-'' \<or> hd s = CHR ''+'') then tl s else s)
      in if s = ''0'' then Some 0
         else if s = [] then None
         else case duration_items 0 s of
           None \<Rightarrow> None
         | Some d \<Rightarrow>
            if neg then Some (- int d)
            else if d > 2 ^ 63 - 1 then None else Some (int d))"

subsection \<open>Printing and parsing\<close>

lemma is_digit_char: "n < 10 \<Longrightarrow> is_digit (digit_char n) \<and> of_char (digit_char n) - 48 = n"
  by (simp add: is_digit_def digit_char_def byte_def)

lemma Itoa_digits: "list_all is_digit (Itoa n) \<and> digits_val (Itoa n) = n \<and> Itoa n \<noteq> []"
proof (induction n rule: Itoa.induct)
  case (1 n)
  show ?case
  proof (cases "n < 10")
    case True
    then have "Itoa n = [digit_char n]" by (subst Itoa.simps) simp
    then show ?thesis using True is_digit_char [of n] by (simp add: digits_val_def)
  next
    case False
    then have "Itoa n = Itoa (n div 10) @ [digit_char (n mod 10)]" by (subst Itoa.simps) simp
    then show ?thesis using 1 [OF False] is_digit_char [of "n mod 10"] by (simp add: digits_val_def)
  qed
qed

lemma ParseInt_show: "- (2 ^ 63) \<le> n \<Longrightarrow> n < 2 ^ 63 \<Longrightarrow> ParseInt (show_int n) = Some n"
proof -
  assume n: "- (2 ^ 63) \<le> n" "n < 2 ^ 63"
  have sign: "\<not> is_digit (CHR ''-'')" "\<not> is_digit (CHR ''+'')" by (simp_all add: is_digit_def)
  show ?thesis
  proof (cases "n < 0")
    case True
    then show ?thesis using n Itoa_digits [of "nat (- n)"] by (simp add: ParseInt_def show_int_def signed_val_def Let_def)
  next
    case False
    obtain c t where c: "Itoa (nat n) = c # t" using Itoa_digits [of "nat n"] by (cases "Itoa (nat n)") auto
    then have "c \<noteq> CHR ''-''" "c \<noteq> CHR ''+''" using Itoa_digits [of "nat n"] sign by auto
    then show ?thesis using False n c Itoa_digits [of "nat n"]
      by (simp add: ParseInt_def show_int_def signed_val_def Let_def)
  qed
qed

lemma foldl_digits_mono: "x \<le> foldl (\<lambda>n c. 10 * n + (of_char c - 48)) (x::nat) ds"
proof (induction ds arbitrary: x)
  case (Cons c ds)
  have "x \<le> 10 * x + (of_char c - 48)" by simp
  also have "\<dots> \<le> foldl (\<lambda>n c. 10 * n + (of_char c - 48)) (10 * x + (of_char c - 48)) ds" by (rule Cons.IH)
  finally show ?case by simp
qed simp

lemma leadingInt_digits:
  assumes "list_all is_digit ds" "t = [] \<or> \<not> is_digit (hd t)"
    and "foldl (\<lambda>n c. 10 * n + (of_char c - 48)) x ds \<le> 2 ^ 63"
  shows "leadingInt x (ds @ t) = Some (foldl (\<lambda>n c. 10 * n + (of_char c - 48)) x ds, t)"
  using assms(1,3)
proof (induction ds arbitrary: x)
  case Nil
  then show ?case using assms(2) by (cases t) auto
next
  case (Cons c ds)
  let ?y = "10 * x + (of_char c - 48)"
  have y: "?y \<le> 2 ^ 63" using foldl_digits_mono [of ?y ds] Cons.prems(2) by simp
  then have "x \<le> 2 ^ 63 div 10" by simp
  then show ?case using Cons y by (simp add: Let_def mult.commute)
qed

lemma duration_item_ns:
  assumes "n \<le> 2 ^ 63"
  shows "duration_item (Itoa n @ ''ns'') = Some (n, [])"
proof -
  have i: "leadingInt 0 (Itoa n @ ''ns'') = Some (n, ''ns'')"
    using leadingInt_digits [of "Itoa n" "''ns''" 0] Itoa_digits [of n] assms by (simp add: digits_val_def is_digit_def)
  have "takeWhile unit_char ''ns'' = ''ns''" "dropWhile unit_char ''ns'' = []"
    by (simp_all add: unit_char_def is_digit_def)
  then show ?thesis using i assms Itoa_digits [of n] by (simp add: duration_item_def unitMap_def Let_def)
qed

lemma ParseDuration_show: "- (2 ^ 63) \<le> n \<Longrightarrow> n < 2 ^ 63 \<Longrightarrow> ParseDuration (show_int n @ ''ns'') = Some n"
proof -
  assume n: "- (2 ^ 63) \<le> n" "n < 2 ^ 63"
  let ?m = "nat \<bar>n\<bar>"
  have sign: "\<not> is_digit (CHR ''-'')" "\<not> is_digit (CHR ''+'')" by (simp_all add: is_digit_def)
  obtain c t where c: "Itoa ?m = c # t" "is_digit c" using Itoa_digits [of ?m] by (cases "Itoa ?m") auto
  have "duration_items ?m [] = Some ?m" by (subst duration_items.simps) simp
  then have items: "duration_items 0 (Itoa ?m @ ''ns'') = Some ?m"
    using duration_item_ns [of ?m] c n by (subst duration_items.simps) (auto simp: Let_def)
  have ne: "Itoa ?m @ ''ns'' \<noteq> ''0''" "Itoa ?m @ ''ns'' \<noteq> []" by (cases "Itoa ?m"; auto)+
  show ?thesis
  proof (cases "n < 0")
    case True
    then have s: "show_int n @ ''ns'' = CHR ''-'' # (Itoa ?m @ ''ns'')" by (simp add: show_int_def)
    show ?thesis unfolding s using items ne True by (simp add: ParseDuration_def Let_def)
  next
    case False
    then have s: "show_int n @ ''ns'' = Itoa ?m @ ''ns''" by (simp add: show_int_def)
    have "c \<noteq> CHR ''-''" "c \<noteq> CHR ''+''" using c(2) sign by auto
    then show ?thesis unfolding s using items ne False n c by (simp add: ParseDuration_def Let_def)
  qed
qed

end
