(* ===== verification/Api.thy ===== *)
theory Api
  imports System Log_Broker Blob_Store Go_Parse "HOL-Library.Word"
begin

text \<open>
  The HTTP API of \<open>src/server/internal/api\<close>: \<open>server.go\<close>, \<open>internal.go\<close> and
  \<open>metrics.go\<close>. The state of a server is the service layer (database, queue, scheduler),
  the blob store, the log broker and the counter of completed builds. A handler is a
  function from the decoded request and the state to the response and the new state; it
  runs the service calls of theory \<open>Service\<close> to their end, and theory \<open>System\<close> treats
  their interleavings.

  Decoding JSON and multipart bodies is library code: a handler gets the decoded value, or
  the text of the decoding error. A response body that is encoded as JSON stays the value
  that is encoded; the text of an error value stays that error. A panic of a handler
  becomes the response 500 of the \<open>Recoverer\<close> middleware. The environment \<open>env\<close> holds the
  clock, the source of identifiers, the sorting routines and the functions of the blob
  store.
\<close>

subsection \<open>State and environment\<close>

record 'b server =
  core :: "database sys"
  blobs :: 'b
  broker :: logBroker
  BuildsTotal :: "64 word"

record 'b env =
  caseU :: "nat \<Rightarrow> nat"
  uuid :: string
  clock :: "nat \<Rightarrow> time"
  zone :: int
  row_sort :: "build_row list \<Rightarrow> build_row list"
  list_sort :: "build_row list \<Rightarrow> build_row list"
  node_sort :: ring_sort
  sub_order :: "nat set \<Rightarrow> nat list"
  blob_put :: "string \<Rightarrow> string \<Rightarrow> 'b \<Rightarrow> (nat \<times> bool) \<times> 'b"
  blob_get :: "string \<Rightarrow> 'b \<Rightarrow> string \<times> bool"

datatype body =
    Empty
  | PlainText string
  | SvcText svc_error
  | RepoText repo_error
  | StoreText
  | BuildJson build
  | PageJson "build list" nat int int
  | HealthJson nat nat nat
  | DeletedJson nat
  | StreamOf nat string

record http_response =
  rstatus :: nat
  rheaders :: "(string \<times> string) list"
  rbody :: body

definition reply :: "nat \<Rightarrow> body \<Rightarrow> http_response" where
  "reply n b = \<lparr>rstatus = n, rheaders = [], rbody = b\<rparr>"

definition http_error :: "nat \<Rightarrow> string \<Rightarrow> http_response" where
  "http_error n msg = reply n (PlainText (msg @ [CHR 0x0A]))"

definition recovered :: http_response where
  "recovered = reply 500 Empty"

definition call :: "(database sys, 'a) prog \<Rightarrow> 'b server \<Rightarrow> 'a \<times> 'b server" where
  "call p s = (case run p (core s) of (x, c) \<Rightarrow> (x, s\<lparr>core := c\<rparr>))"

definition on_db :: "(database \<Rightarrow> 'a \<times> database) \<Rightarrow> 'b server \<Rightarrow> 'a \<times> 'b server" where
  "on_db f s = (case f (store (core s)) of (x, d) \<Rightarrow> (x, s\<lparr>core := (core s)\<lparr>store := d\<rparr>\<rparr>))"

abbreviation pers :: "'b env \<Rightarrow> database persister" where
  "pers e \<equiv> repo_persister (row_sort e)"

subsection \<open>Submitting\<close>

record submit_req =
  qBuildID :: string
  qContextKey :: string
  qDockerfile :: string
  qImageTag :: string
  qUserID :: string
  qTimeoutSeconds :: int
  qArgs :: "(string \<times> string) list"

definition clamp_timeout :: "int \<Rightarrow> int" where
  "clamp_timeout req =
     (let timeout = (if req \<le> 0 then 600 else req) in if timeout > 3600 then 3600 else timeout)"

definition or_else :: "string \<Rightarrow> string \<Rightarrow> string" where
  "or_else v d = (if v = [] then d else v)"

definition submit_reply :: "(svc_error, build) outcome \<Rightarrow> http_response" where
  "submit_reply res =
     (case res of
        Ret b \<Rightarrow> \<lparr>rstatus = 201, rheaders = [(''Content-Type'', ''application/json'')], rbody = BuildJson b\<rparr>
      | Err e \<Rightarrow>
          if e = ErrQueueFull then
            \<lparr>rstatus = 503, rheaders = [(''Retry-After'', ''5'')],
             rbody = PlainText (''build queue full, retry later'' @ [CHR 0x0A])\<rparr>
          else reply 409 (SvcText e)
      | Panic \<Rightarrow> recovered)"

definition submit_json :: "'b env \<Rightarrow> string \<Rightarrow> string + submit_req \<Rightarrow> 'b server \<Rightarrow> http_response \<times> 'b server" where
  "submit_json e apiKey dec s =
     (case dec of
        Inl err \<Rightarrow> (http_error 400 (''invalid json: '' @ err), s)
      | Inr q \<Rightarrow>
          if qContextKey q = [] then (http_error 400 ''missing context_key'', s)
          else case call (SubmitBuild (pers e) (caseU e) (uuid e) (clock e)
                 (or_else (qBuildID q) (uuid e)) (qContextKey q) (or_else (qDockerfile q) ''Dockerfile'')
                 (qImageTag q) (or_else (qUserID q) apiKey) (clamp_timeout (qTimeoutSeconds q)) (qArgs q)) s of
            (res, s') \<Rightarrow> (submit_reply res, s'))"

text \<open>A parsed form: the content of the file \<open>context\<close>, if there is one, and the values of
  the other fields (empty when missing).\<close>

record form =
  context_file :: "string option"
  FormValue :: "string \<Rightarrow> string"

definition context_key :: "string \<Rightarrow> string" where
  "context_key buildID = ''contexts/'' @ buildID @ ''.tar.gz''"

definition submit_form :: "'b env \<Rightarrow> string \<Rightarrow> string + form \<Rightarrow> 'b server \<Rightarrow> http_response \<times> 'b server" where
  "submit_form e apiKey dec s =
     (case dec of
        Inl err \<Rightarrow> (http_error 400 err, s)
      | Inr f \<Rightarrow>
         (case context_file f of
            None \<Rightarrow> (http_error 400 ''missing context'', s)
          | Some data \<Rightarrow>
             (let dockerfile = or_else (FormValue f ''dockerfile'') ''Dockerfile'';
                  userID = or_else (FormValue f ''user_id'') apiKey;
                  buildID = or_else (FormValue f ''build_id'') (uuid e);
                  ctxKey = context_key buildID
              in case blob_put e ctxKey data (blobs s) of
                   ((n, False), b) \<Rightarrow> (reply 500 StoreText, s\<lparr>blobs := b\<rparr>)
                 | ((n, True), b) \<Rightarrow>
                    (case call (SubmitBuild (pers e) (caseU e) (uuid e) (clock e) buildID ctxKey dockerfile
                            (FormValue f ''image_tag'') userID 600 []) (s\<lparr>blobs := b\<rparr>) of
                       (res, s') \<Rightarrow> (submit_reply res, s')))))"

definition submitBuild ::
    "'b env \<Rightarrow> string \<Rightarrow> string \<Rightarrow> string + submit_req \<Rightarrow> string + form \<Rightarrow> 'b server \<Rightarrow> http_response \<times> 'b server" where
  "submitBuild e ct apiKey json_body form_body s =
     (if HasPrefix ct ''application/json'' then submit_json e apiKey json_body s
      else submit_form e apiKey form_body s)"

subsection \<open>Listing\<close>

definition query_int :: "string \<Rightarrow> int \<Rightarrow> int" where
  "query_int v d = (if v = [] then d else case Sscanf_d v of None \<Rightarrow> d | Some n \<Rightarrow> n)"

definition page_limit :: "string \<Rightarrow> int" where
  "page_limit v =
     (let limit = query_int v 20; limit = (if limit \<le> 0 then 20 else limit) in
      if limit > 200 then 200 else limit)"

definition page_offset :: "string \<Rightarrow> int" where
  "page_offset v = (let offset = query_int v 0 in if offset < 0 then 0 else offset)"

text \<open>Addition of \<open>int\<close> values wraps around.\<close>

definition add_int :: "int \<Rightarrow> int \<Rightarrow> int" where
  "add_int a b = sint (word_of_int a + word_of_int b :: 64 word)"

definition page_slice :: "int \<Rightarrow> int \<Rightarrow> 'a list \<Rightarrow> 'a list" where
  "page_slice limit offset xs =
     (if offset < int (length xs) then
        (let end' = add_int offset limit;
             end' = (if end' > int (length xs) then int (length xs) else end')
         in take (nat (end' - offset)) (drop (nat offset) xs))
      else [])"

definition listBuilds :: "'b env \<Rightarrow> string \<Rightarrow> string \<Rightarrow> 'b server \<Rightarrow> http_response \<times> 'b server" where
  "listBuilds e l o' s =
     (let limit = page_limit l; offset = page_offset o' in
      case on_db (List (list_sort e) (add_int offset limit)) s of
        (Ret bs, s1) \<Rightarrow>
          (case on_db CountAll s1 of
             (Ret total', s2) \<Rightarrow> (reply 200 (PageJson (page_slice limit offset bs) total' limit offset), s2)
           | (_, s2) \<Rightarrow> (http_error 500 ''internal error'', s2))
      | (_, s1) \<Rightarrow> (http_error 500 ''internal error'', s1))"

subsection \<open>The other build handlers\<close>

definition getNextBuild :: "'b env \<Rightarrow> string \<Rightarrow> 'b server \<Rightarrow> http_response \<times> 'b server" where
  "getNextBuild e workerID s =
     (if workerID = [] then (http_error 400 ''missing worker_id'', s)
      else case call (AssignBuild_svc (pers e) (clock e 0) workerID) s of
        (Err err, s') \<Rightarrow> (reply 500 (SvcText err), s')
      | (Ret None, s') \<Rightarrow> (reply 204 Empty, s')
      | (Ret (Some b), s') \<Rightarrow> (reply 200 (BuildJson b), s')
      | (Panic, s') \<Rightarrow> (recovered, s'))"

definition getBuild :: "string \<Rightarrow> 'b server \<Rightarrow> http_response \<times> 'b server" where
  "getBuild i s =
     (case on_db (Get i) s of
        (Ret b, s') \<Rightarrow> (reply 200 (BuildJson b), s')
      | (_, s') \<Rightarrow> (http_error 404 ''not found'', s'))"

text \<open>A stream stays open: its response is the subscriber and the text written so far.\<close>

definition getBuildLogs :: "string \<Rightarrow> string \<Rightarrow> 'b server \<Rightarrow> http_response \<times> 'b server" where
  "getBuildLogs i stream s =
     (case on_db (Get i) s of
        (Ret b, s') \<Rightarrow>
          if stream = ''true'' then
            (case subscribe i (broker s') of
               (p, B) \<Rightarrow>
                 (\<lparr>rstatus = 200,
                   rheaders = [(''Content-Type'', ''text/event-stream''), (''Cache-Control'', ''no-cache''),
                               (''Connection'', ''keep-alive'')],
                   rbody = StreamOf p (sse_existing (Logs b))\<rparr>, s'\<lparr>broker := B\<rparr>))
          else (\<lparr>rstatus = 200, rheaders = [(''Content-Type'', ''text/plain'')], rbody = PlainText (Logs b)\<rparr>, s')
      | (_, s') \<Rightarrow> (http_error 404 ''not found'', s'))"

definition appendLog :: "'b env \<Rightarrow> string \<Rightarrow> string \<Rightarrow> 'b server \<Rightarrow> http_response \<times> 'b server" where
  "appendLog e i line s =
     (case call (AppendLog (pers e) (clock e 0) i line) s of
        (Err err, s') \<Rightarrow> (reply 404 (SvcText err), s')
      | (Panic, s') \<Rightarrow> (recovered, s')
      | (Ret _, s') \<Rightarrow>
          (case publish (sub_order e) i line (broker s') of
             None \<Rightarrow> (recovered, s')
           | Some B \<Rightarrow> (reply 200 Empty, s'\<lparr>broker := B\<rparr>)))"

record complete_req =
  qStatus :: status
  qError :: string
  qCacheHitRate :: float64

definition completeBuild :: "'b env \<Rightarrow> string \<Rightarrow> complete_req option \<Rightarrow> 'b server \<Rightarrow> http_response \<times> 'b server" where
  "completeBuild e i dec s =
     (case dec of
        None \<Rightarrow> (http_error 400 ''invalid body'', s)
      | Some q \<Rightarrow>
         (case call (CompleteBuild (pers e) (node_sort e) (clock e 0) i (qStatus q) (qError q)) s of
            (Err err, s1) \<Rightarrow> (reply 500 (SvcText err), s1)
          | (Panic, s1) \<Rightarrow> (recovered, s1)
          | (Ret _, s1) \<Rightarrow>
             (let s2 = (if 0 \<le> qCacheHitRate q then snd (on_db (SetCacheRate i (qCacheHitRate q)) s1) else s1)
              in (reply 200 Empty, s2\<lparr>BuildsTotal := BuildsTotal s2 + 1\<rparr>))))"

definition cancelBuild :: "'b env \<Rightarrow> string \<Rightarrow> 'b server \<Rightarrow> http_response \<times> 'b server" where
  "cancelBuild e i s =
     (case call (CancelBuild (pers e) (clock e 0) i) s of
        (Err err, s') \<Rightarrow> (reply 409 (SvcText err), s')
      | (Panic, s') \<Rightarrow> (recovered, s')
      | (Ret _, s') \<Rightarrow> (reply 200 Empty, s'))"

definition workerHeartbeat :: "'b env \<Rightarrow> worker option \<Rightarrow> 'b server \<Rightarrow> http_response \<times> 'b server" where
  "workerHeartbeat e dec s =
     (case dec of
        None \<Rightarrow> (http_error 400 ''invalid body'', s)
      | Some w \<Rightarrow>
         (case call (Heartbeat (node_sort e) (clock e 0) w) s of
            (Err err, s') \<Rightarrow> (reply 500 (SvcText err), s')
          | (Panic, s') \<Rightarrow> (recovered, s')
          | (Ret _, s') \<Rightarrow> (reply 200 Empty, s')))"

subsection \<open>Administration and metrics\<close>

abbreviation second :: int where
  "second \<equiv> 1000000000"

text \<open>A count whose error is dropped is zero.\<close>

definition count_or_0 :: "(database \<Rightarrow> nat Repo.reply) \<Rightarrow> 'b server \<Rightarrow> nat \<times> 'b server" where
  "count_or_0 f s = (case on_db f s of (Ret n, s') \<Rightarrow> (n, s') | (_, s') \<Rightarrow> (0, s'))"

definition adminHealth :: "'b env \<Rightarrow> 'b server \<Rightarrow> http_response \<times> 'b server" where
  "adminHealth e s =
     (case count_or_0 CountPending s of
        (pending, s1) \<Rightarrow>
          (case count_or_0 (CountActive (clock e 0) (30 * second)) s1 of
             (active, s2) \<Rightarrow> (reply 200 (HealthJson pending active (QueueLen (core s2))), s2)))"

definition manualGC :: "'b env \<Rightarrow> 'b server \<Rightarrow> http_response \<times> 'b server" where
  "manualGC e s =
     (case on_db (GC (zone e) (clock e 0 - 3600 * second)) s of
        (Ret n, s') \<Rightarrow> (reply 200 (DeletedJson n), s')
      | (Err err, s') \<Rightarrow> (reply 500 (RepoText err), s')
      | (Panic, s') \<Rightarrow> (recovered, s'))"

definition metric :: "string \<Rightarrow> string \<Rightarrow> string \<Rightarrow> int \<Rightarrow> string" where
  "metric name help kind n =
     ''# HELP '' @ name @ '' '' @ help @ [CHR 0x0A] @
     ''# TYPE '' @ name @ '' '' @ kind @ [CHR 0x0A] @
     name @ '' '' @ show_int n @ [CHR 0x0A]"

definition metricsHandler :: "'b env \<Rightarrow> 'b server \<Rightarrow> http_response \<times> 'b server" where
  "metricsHandler e s =
     (case count_or_0 CountPending s of
        (pending, s1) \<Rightarrow>
          (case count_or_0 (CountActive (clock e 0) (30 * second)) s1 of
             (active, s2) \<Rightarrow>
               (\<lparr>rstatus = 200, rheaders = [(''Content-Type'', ''text/plain; version=0.0.4'')],
                 rbody = PlainText
                   (metric ''dtbuild_builds_total'' ''Total builds completed.'' ''counter'' (sint (BuildsTotal s)) @
                    metric ''dtbuild_builds_pending'' ''Current pending builds.'' ''gauge'' (int pending) @
                    metric ''dtbuild_workers_active'' ''Active worker count.'' ''gauge'' (int active))\<rparr>, s2)))"

subsection \<open>Start and maintenance\<close>

text \<open>\<open>NewServer\<close> with the opened database and blob store, each of which may have failed.\<close>

definition NewServer :: "'b env \<Rightarrow> database option \<Rightarrow> 'b option \<Rightarrow> 'b server option" where
  "NewServer e db bl =
     (case db of
        None \<Rightarrow> None
      | Some d \<Rightarrow>
         (case bl of
            None \<Rightarrow> None
          | Some b \<Rightarrow>
              Some (snd (call (WarmQueue (pers e))
                \<lparr>core = \<lparr>store = d, que = New 10000, sched = New_scheduler\<rparr>, blobs = b,
                 broker = newLogBroker, BuildsTotal = 0\<rparr>))))"

datatype tick = WorkerTick | GcTick

definition maintenance_tick :: "'b env \<Rightarrow> tick \<Rightarrow> 'b server \<Rightarrow> 'b server" where
  "maintenance_tick e k s =
     (case k of
        WorkerTick \<Rightarrow>
          (let s1 = snd (call (PruneStale (clock e 0) (30 * second)) s)
           in snd (call (ReassignStaleBuilds (clock e 1) (60 * second) (600 * second)) s1))
      | GcTick \<Rightarrow> snd (call (GCCompleted (zone e) (clock e 0 - 86400 * second)) s))"

definition maintenanceLoop :: "('b env \<times> tick) list \<Rightarrow> 'b server \<Rightarrow> 'b server" where
  "maintenanceLoop ticks s = fold (\<lambda>(e, k). maintenance_tick e k) ticks s"

subsection \<open>Routes\<close>

datatype handler = HSubmit | HList | HNext | HGet | HLogs | HLog | HComplete | HCancel | HBlob
  | HHeartbeat | HHealth | HCleanup | HMetrics | HHealthz

definition routes :: "(string \<times> string \<times> handler) list" where
  "routes =
     map (\<lambda>(m, p, h). (m, ''/api/v1'' @ p, h))
       [(''POST'', ''/builds'', HSubmit), (''GET'', ''/builds'', HList), (''GET'', ''/builds/next'', HNext),
        (''GET'', ''/builds/{id}'', HGet), (''GET'', ''/builds/{id}/logs'', HLogs),
        (''POST'', ''/builds/{id}/log'', HLog), (''POST'', ''/builds/{id}/complete'', HComplete),
        (''DELETE'', ''/builds/{id}'', HCancel), (''GET'', ''/blobs/*'', HBlob),
        (''POST'', ''/workers/heartbeat'', HHeartbeat), (''GET'', ''/admin/health'', HHealth),
        (''POST'', ''/admin/builds/cleanup'', HCleanup)] @
     [(''GET'', ''/metrics'', HMetrics), (''GET'', ''/healthz'', HHealthz)]"

subsection \<open>Requests in sequence\<close>

text \<open>Every event that changes a server: the handlers, the ticks of the maintenance loop, and
  for an open log stream the receipt of a line and the end of the stream.\<close>

datatype api_op =
    OpSubmit string string "string + submit_req" "string + form"
  | OpList string string
  | OpNext string
  | OpGet string
  | OpLogs string string
  | OpLog string string
  | OpComplete string "complete_req option"
  | OpCancel string
  | OpBlob string
  | OpBeat "worker option"
  | OpHealth
  | OpCleanup
  | OpMetrics
  | OpTick tick
  | OpReceive nat
  | OpDisconnect string nat

definition on_broker :: "(logBroker \<Rightarrow> logBroker option) \<Rightarrow> 'b server \<Rightarrow> http_response \<times> 'b server" where
  "on_broker f s = (case f (broker s) of None \<Rightarrow> (recovered, s) | Some B \<Rightarrow> (reply 200 Empty, s\<lparr>broker := B\<rparr>))"

fun handle :: "'b env \<Rightarrow> api_op \<Rightarrow> 'b server \<Rightarrow> http_response \<times> 'b server" where
  "handle e (OpSubmit ct key j f) s = submitBuild e ct key j f s"
| "handle e (OpList l o') s = listBuilds e l o' s"
| "handle e (OpNext w) s = getNextBuild e w s"
| "handle e (OpGet i) s = getBuild i s"
| "handle e (OpLogs i stream) s = getBuildLogs i stream s"
| "handle e (OpLog i line) s = appendLog e i line s"
| "handle e (OpComplete i q) s = completeBuild e i q s"
| "handle e (OpCancel i) s = cancelBuild e i s"
| "handle e (OpBlob path) s =
     (case serveBlob (\<lambda>k. blob_get e k (blobs s)) path of (n, txt) \<Rightarrow> (reply n (PlainText txt), s))"
| "handle e (OpBeat w) s = workerHeartbeat e w s"
| "handle e OpHealth s = adminHealth e s"
| "handle e OpCleanup s = manualGC e s"
| "handle e OpMetrics s = metricsHandler e s"
| "handle e (OpTick k) s = (reply 200 Empty, maintenance_tick e k s)"
| "handle e (OpReceive p) s = on_broker (\<lambda>B. map_option snd (receive p B)) s"
| "handle e (OpDisconnect i p) s = on_broker (unsubscribe i p) s"

fun history :: "('b env \<times> api_op) list \<Rightarrow> 'b server \<Rightarrow> 'b server" where
  "history [] s = s"
| "history ((e, x) # xs) s = history xs (snd (handle e x s))"

subsection \<open>Invariants\<close>

definition broker_ok :: "logBroker \<Rightarrow> bool" where
  "broker_ok B \<longleftrightarrow> store_ok B \<and> (\<forall>b. finite (subs_of B b) \<and> (\<forall>p \<in> subs_of B b. open_at B p))"

text \<open>The invariant, with the one of the rows when \<open>v\<close>.\<close>

definition core_ok :: "bool \<Rightarrow> database sys \<Rightarrow> bool" where
  "core_ok v c \<longleftrightarrow> ids_ok (store c) \<and> (v \<longrightarrow> rows_ok (store c)) \<and> queue_ok (que c) \<and> maxLen (que c) = 10000 \<and> sched_ok (sched c)"

definition server_ok :: "bool \<Rightarrow> 'b server \<Rightarrow> bool" where
  "server_ok v s \<longleftrightarrow> core_ok v (core s) \<and> broker_ok (broker s)"

text \<open>What the environment promises: the two sorting routines sort, and ranging over a map
  visits every key once.\<close>

definition env_ok :: "'b env \<Rightarrow> bool" where
  "env_ok e \<longleftrightarrow> service_env (row_sort e) (node_sort e) \<and>
     (\<forall>S. finite S \<longrightarrow> set (sub_order e S) = S \<and> distinct (sub_order e S))"

text \<open>Only a registered stream disconnects.\<close>

fun op_ok :: "'b server \<Rightarrow> api_op \<Rightarrow> bool" where
  "op_ok s (OpDisconnect i p) = (p \<in> subs_of (broker s) i \<and> (\<forall>j. j \<noteq> i \<longrightarrow> p \<notin> subs_of (broker s) j))"
| "op_ok s _ = True"

text \<open>A report whose status is final, \<open>building\<close> or empty; the handler accepts any other one too.\<close>

fun legal_report :: "api_op \<Rightarrow> bool" where
  "legal_report (OpComplete i q) = (case q of None \<Rightarrow> True | Some r \<Rightarrow> legal_status (qStatus r))"
| "legal_report _ = True"

fun history_ok :: "('b env \<times> api_op) list \<Rightarrow> 'b server \<Rightarrow> bool" where
  "history_ok [] s = True"
| "history_ok ((e, x) # xs) s = (env_ok e \<and> op_ok s x \<and> history_ok xs (snd (handle e x s)))"

lemma call_snd: "broker (snd (call p s)) = broker s" "core (snd (call p s)) = snd (run p (core s))"
  by (simp_all add: call_def split: prod.split)

lemma on_db_snd: "broker (snd (on_db f s)) = broker s"
  "core (snd (on_db f s)) = (core s)\<lparr>store := snd (f (store (core s)))\<rparr>"
  by (simp_all add: on_db_def split: prod.split)

lemma serve_core:
  assumes "env_ok e" "v \<Longrightarrow> reports legal_status q" "core_ok v (core s)"
  shows "core_ok v (snd (run (serve (caseU e) (row_sort e) (node_sort e) q) (core s)))"
proof -
  have env: "service_env (row_sort e) (node_sort e)" using assms(1) by (simp add: env_ok_def)
  let ?c = "snd (run (serve (caseU e) (row_sort e) (node_sort e) q) (core s))"
  have "sound_step (core s) ?c" by (rule run_respects [OF sound_step_preorder service_env.serve_sound [OF env]])
  moreover have "rows_step (core s) ?c" if v by (rule run_respects [OF rows_step_preorder service_env.serve_rows [OF env assms(2) [OF that]]])
  ultimately show ?thesis using assms(3) by (auto simp: core_ok_def sound_step_def rows_step_def)
qed

lemma run_map_snd: "snd (run (map_prog g p) s) = snd (run p s)"
  by (simp add: run_map)

lemma db_core:
  assumes "core_ok v c" "ids_ok (store c) \<Longrightarrow> ids_ok d" "rows_ok (store c) \<Longrightarrow> rows_ok d"
  shows "core_ok v (c\<lparr>store := d\<rparr>)"
  using assms by (simp add: core_ok_def)

lemma read_core:
  assumes "core_ok v c" "builds (snd (f (store c))) = builds (store c)" "workers (snd (f (store c))) = workers (store c)"
  shows "core_ok v (c\<lparr>store := snd (f (store c))\<rparr>)"
  using db_core [OF assms(1)] ids_ok_same rows_ok_same assms(2,3) by metis

lemma serve_call:
  assumes "env_ok e" "core_ok v (core s)" "v \<Longrightarrow> reports legal_status q"
    and "serve (caseU e) (row_sort e) (node_sort e) q = map_prog g p"
  shows "call p s = (r, s') \<Longrightarrow> core_ok v (core s') \<and> broker s' = broker s"
  using serve_core [OF assms(1,3,2)] call_snd [of p s] run_map_snd [of g p "core s"] assms(4) by auto

lemmas submit_call = serve_call [of _ _ _ "Submit u ts bid ctx df tag us tmo args" for u ts bid ctx df tag us tmo args,
    simplified, OF _ _ refl]
  and assign_call = serve_call [of _ _ _ "Assign t w" for t w, simplified, OF _ _ refl]
  and complete_call = serve_call [of _ _ _ "Complete t i st er" for t i st er, simplified, OF _ _ _ refl]
  and cancel_call = serve_call [of _ _ _ "Cancel t i" for t i, simplified, OF _ _ refl]
  and warm_call = serve_call [of _ _ _ Warm, simplified, OF _ _ refl]
  and log_call = serve_call [of _ _ _ "Log t i l" for t i l, simplified, OF _ _ refl]
  and beat_call = serve_call [of _ _ _ "Beat t w" for t w, simplified, OF _ _ refl]
  and prune_call = serve_call [of _ _ _ "Prune t a" for t a, simplified, OF _ _ refl]
  and reassign_call = serve_call [of _ _ _ "Reassign t a b" for t a b, simplified, OF _ _ refl]

lemma read_db:
  assumes "core_ok v (core s)" "\<And>d. builds (snd (f d)) = builds d" "\<And>d. workers (snd (f d)) = workers d"
  shows "on_db f s = (r, s') \<Longrightarrow> core_ok v (core s') \<and> broker s' = broker s"
  using read_core [OF assms(1), of f] assms(2,3) on_db_snd [of f s] by auto

lemma reads_builds:
  "builds (snd (Get i d)) = builds d" "builds (snd (List srt n d)) = builds d" "builds (snd (CountAll d)) = builds d"
  "builds (snd (CountPending d)) = builds d" "builds (snd (CountActive t a d)) = builds d"
  "workers (snd (Get i d)) = workers d" "workers (snd (List srt n d)) = workers d" "workers (snd (CountAll d)) = workers d"
  "workers (snd (CountPending d)) = workers d" "workers (snd (CountActive t a d)) = workers d"
  by (simp_all add: Get_def List_eq CountAll_def CountPending_def CountActive_def count_where_def Let_def frame)

lemmas read_calls = read_db [OF _ reads_builds(1,6)] read_db [OF _ reads_builds(2,7)]
  read_db [OF _ reads_builds(3,8)] read_db [OF _ reads_builds(4,9)] read_db [OF _ reads_builds(5,10)]

lemma count_call:
  assumes "core_ok v (core s)" "\<And>d. builds (snd (f d)) = builds d" "\<And>d. workers (snd (f d)) = workers d"
  shows "count_or_0 f s = (n, s') \<Longrightarrow> core_ok v (core s') \<and> broker s' = broker s"
  using read_db [OF assms] by (auto simp: count_or_0_def split: prod.splits outcome.splits)

lemmas count_calls = count_call [OF _ reads_builds(4,9)] count_call [OF _ reads_builds(5,10)]

lemma gc_db: "core_ok v (core s) \<Longrightarrow> on_db (GC tz t) s = (r, s') \<Longrightarrow> core_ok v (core s') \<and> broker s' = broker s"
  using db_core [of v "core s" "snd (GC tz t (store (core s)))"] GC_ids GC_rows_ok on_db_snd [of "GC tz t" s] by auto

lemma SetCacheRate_rows: "rows_ok d \<Longrightarrow> rows_ok (snd (SetCacheRate i x d))"
proof -
  have snd': "snd (SetCacheRate i x d) = snd (update_stmt (\<lambda>r. c_id r = i) (\<lambda>r. r\<lparr>c_cache_hit_rate := f32 x\<rparr>) d)"
    by (simp add: SetCacheRate_def split: prod.split outcome.split)
  assume "rows_ok d"
  then show ?thesis unfolding snd' by (rule update_stmt_rows) (simp add: evolves_def fixed_cols_def verdict_def row_ok_def)
qed

lemma rate_db: "core_ok v (core s) \<Longrightarrow> on_db (SetCacheRate i x) s = (r, s') \<Longrightarrow> core_ok v (core s') \<and> broker s' = broker s"
  using db_core [of v "core s" "snd (SetCacheRate i x (store (core s)))"] SetCacheRate_ids SetCacheRate_rows
    on_db_snd [of "SetCacheRate i x" s] by auto

lemma gc_call: "core_ok v (core s) \<Longrightarrow> core_ok v (core (snd (call (GCCompleted tz t) s)))"
  using db_core [of v "core s" "snd (GC tz t (store (core s)))"] GC_ids GC_rows_ok
  by (auto simp: call_snd GCCompleted_def on_store_def reply_call_def split: prod.split)

lemma broker_ok_subscribe:
  assumes "broker_ok B" "subscribe b B = (p, B')"
  shows "broker_ok B'"
proof -
  note sub = subscribe_simps [OF assms(2)]
  have "store_ok B'" using assms(1) sub by (auto simp: broker_ok_def store_ok_def chan_cap_def)
  moreover have "open_at B' p" using sub(4) [of p] by (simp add: open_at_def)
  moreover have "open_at B q \<Longrightarrow> open_at B' q" for q
    using sub(4) [of q] assms(1) by (auto simp: open_at_def)
  ultimately show ?thesis using assms(1) sub(3) by (auto simp: broker_ok_def)
qed

lemma deliver_simps [simp]: "ch_closed (deliver l s) = ch_closed s"
  "length (ch s) \<le> chan_cap \<Longrightarrow> length (ch (deliver l s)) \<le> chan_cap"
  by (auto simp: deliver_def)

lemma broker_ok_publish:
  assumes "broker_ok B" "env_ok e"
  shows "\<exists>B'. publish (sub_order e) b l B = Some B' \<and> broker_ok B'"
proof -
  have ord: "set (sub_order e (subs_of B b)) = subs_of B b" "distinct (sub_order e (subs_of B b))"
    using assms by (auto simp: broker_ok_def env_ok_def)
  have "flagged B p \<or> \<not> is_closed B p" if "p \<in> subs_of B b" for p
    using assms(1) that by (fastforce simp: broker_ok_def open_at_def is_closed_def)
  then obtain B' where B': "publish (sub_order e) b l B = Some B'" "subs B' = subs B" "next_addr B' = next_addr B"
    and h: "\<And>q. heap_subs B' q = (if q \<in> subs_of B b then map_option (deliver l) (heap_subs B q) else heap_subs B q)"
    using publish_effect [of B b "sub_order e" l] ord by blast
  have "open_at B' q = open_at B q" for q using h [of q] by (auto simp: open_at_def)
  moreover have "store_ok B'" using assms(1) B' h
    by (auto simp: broker_ok_def store_ok_def split: if_splits)
  ultimately show ?thesis using B' subs_of_subs [OF B'(2)] assms(1) by (auto simp: broker_ok_def)
qed

lemma broker_ok_receive:
  assumes "broker_ok B" "receive p B = Some (l, B')"
  shows "broker_ok B'"
proof -
  obtain u ls where u: "heap_subs B p = Some u" "ch u = l # ls" "B' = upd_sub p (ch_update (\<lambda>_. ls)) B"
    using assms(2) by (auto simp: step_simps)
  have "open_at B' q = open_at B q" for q unfolding u(3) by (rule open_at_upd) simp
  moreover have "length (ch u) \<le> chan_cap" using assms(1) u(1) by (auto simp: broker_ok_def store_ok_def)
  ultimately show ?thesis using assms(1) u by (auto simp: broker_ok_def store_ok_def)
qed

lemma broker_ok_unsubscribe:
  assumes "broker_ok B" "p \<in> subs_of B b" "\<And>j. j \<noteq> b \<Longrightarrow> p \<notin> subs_of B j"
  shows "\<exists>B'. unsubscribe b p B = Some B' \<and> broker_ok B'"
proof -
  let ?B = "delete_sub b p (flag_sub p B)" and ?f = "ch_closed_update (\<lambda>_. True)"
  have "open_at B p" using assms(1,2) by (simp add: broker_ok_def)
  then have "\<not> is_closed ?B p" by (auto simp: is_closed_def flag_sub_def open_at_def)
  then have un: "unsubscribe b p B = Some (upd_sub p ?f ?B)" by (simp add: unsubscribe_def close_sub_def)
  have store: "store_ok (flag_sub p B)"
    using assms(1) by (auto simp: broker_ok_def store_ok_def flag_sub_def split: if_splits)
  then have "store_ok (upd_sub p ?f ?B)"
    using delete_sub_nonempty [of "flag_sub p B" b p] by (auto simp: store_ok_def split: if_splits)
  moreover have "open_at (upd_sub p ?f ?B) q" if "q \<in> subs_of ?B c" for q c
  proof -
    have q: "q \<in> subs_of B c" "q \<noteq> p" using that assms(3) by (auto simp: flag_sub_def split: if_splits)
    then have "open_at B q" using assms(1) by (auto simp: broker_ok_def)
    then show ?thesis using q(2) by (simp add: flag_sub_def)
  qed
  moreover have "finite (subs_of ?B c)" for c using assms(1) by (simp add: flag_sub_def broker_ok_def)
  ultimately show ?thesis using un by (auto simp: broker_ok_def)
qed

subsection \<open>Every handler keeps the invariants\<close>

lemma server_okI: "core_ok v (core s) \<Longrightarrow> broker_ok (broker s) \<Longrightarrow> server_ok v s"
  by (simp add: server_ok_def)

lemma submit_json_ok:
  assumes "env_ok e" "server_ok v s"
  shows "server_ok v (snd (submit_json e key dec s))"
proof -
  have ok: "core_ok v (core s)" "broker_ok (broker s)" using assms(2) by (auto simp: server_ok_def)
  have "server_ok v (snd (case call (SubmitBuild (pers e) (caseU e) u ts bid ctx df tag us tmo args) s of
      (res, s') \<Rightarrow> (submit_reply res, s')))" for u ts bid ctx df tag us tmo args
    using submit_call [OF assms(1) ok(1)] ok(2) by (auto simp: server_ok_def split: prod.split)
  then show ?thesis using assms(2) by (simp add: submit_json_def split: sum.split)
qed

lemma submit_form_ok:
  assumes "env_ok e" "server_ok v s"
  shows "server_ok v (snd (submit_form e key dec s))"
proof -
  have ok: "server_ok v (s\<lparr>blobs := b\<rparr>)" "core_ok v (core (s\<lparr>blobs := b\<rparr>))" for b
    using assms(2) by (auto simp: server_ok_def)
  have "server_ok v s'"
    if "call (SubmitBuild (pers e) (caseU e) u ts bid ctx df tag us tmo args) (s\<lparr>blobs := b\<rparr>) = (res, s')"
    for u ts bid ctx df tag us tmo args b res s'
    using submit_call [OF assms(1) ok(2) that] ok(1) [of b] by (simp add: server_ok_def)
  then show ?thesis using assms(2) ok(1)
    by (auto simp: submit_form_def Let_def split: sum.split option.split prod.split bool.split)
qed

lemma listBuilds_ok:
  assumes "server_ok v s"
  shows "server_ok v (snd (listBuilds e l o' s))"
proof -
  obtain x s1 where 1: "on_db (List (list_sort e) (add_int (page_offset o') (page_limit l))) s = (x, s1)" by fastforce
  obtain y s2 where 2: "on_db CountAll s1 = (y, s2)" by fastforce
  have "server_ok v s1" using read_calls(2) [OF _ 1, of v] assms by (simp add: server_ok_def)
  moreover from this have "server_ok v s2" using read_calls(3) [OF _ 2, of v] by (simp add: server_ok_def)
  ultimately show ?thesis using 1 2 by (simp add: listBuilds_def Let_def split: outcome.split)
qed

lemma handler_core:
  assumes "env_ok e" "server_ok v s"
  shows "submitBuild e ct key j f s = (r, s') \<Longrightarrow> server_ok v s'"
    "listBuilds e l o' s = (r, s') \<Longrightarrow> server_ok v s'"
    "getNextBuild e w s = (r, s') \<Longrightarrow> server_ok v s'"
    "getBuild i s = (r, s') \<Longrightarrow> server_ok v s'"
    "getBuildLogs i stream s = (r, s') \<Longrightarrow> server_ok v s'"
    "cancelBuild e i s = (r, s') \<Longrightarrow> server_ok v s'"
    "workerHeartbeat e wo s = (r, s') \<Longrightarrow> server_ok v s'"
    "adminHealth e s = (r, s') \<Longrightarrow> server_ok v s'"
    "manualGC e s = (r, s') \<Longrightarrow> server_ok v s'"
    "metricsHandler e s = (r, s') \<Longrightarrow> server_ok v s'"
proof -
  have ok: "core_ok v (core s)" "broker_ok (broker s)" using assms(2) by (auto simp: server_ok_def)
  note ok' = ok server_okI
  show "submitBuild e ct key j f s = (r, s') \<Longrightarrow> server_ok v s'"
    using submit_json_ok [OF assms, of key j] submit_form_ok [OF assms, of key f]
    by (auto simp: submitBuild_def split: if_splits)
  show "listBuilds e l o' s = (r, s') \<Longrightarrow> server_ok v s'"
    using listBuilds_ok [OF assms(2), of e l o'] by simp
  show "getNextBuild e w s = (r, s') \<Longrightarrow> server_ok v s'"
    unfolding getNextBuild_def using assign_call [OF assms(1) ok(1)] ok'
    by (fastforce split: if_splits prod.splits outcome.splits option.splits)
  show "getBuild i s = (r, s') \<Longrightarrow> server_ok v s'"
    unfolding getBuild_def using read_calls(1) [OF ok(1)] ok'
    by (fastforce split: prod.splits outcome.splits)
  show "getBuildLogs i stream s = (r, s') \<Longrightarrow> server_ok v s'"
    unfolding getBuildLogs_def using read_calls(1) [OF ok(1)] ok' broker_ok_subscribe
    by (fastforce simp: server_ok_def split: if_splits prod.splits outcome.splits)
  show "cancelBuild e i s = (r, s') \<Longrightarrow> server_ok v s'"
    unfolding cancelBuild_def using cancel_call [OF assms(1) ok(1)] ok'
    by (fastforce split: prod.splits outcome.splits)
  show "workerHeartbeat e wo s = (r, s') \<Longrightarrow> server_ok v s'"
    unfolding workerHeartbeat_def using beat_call [OF assms(1) ok(1)] ok'
    by (fastforce split: option.splits prod.splits outcome.splits)
  show "adminHealth e s = (r, s') \<Longrightarrow> server_ok v s'"
    unfolding adminHealth_def using count_calls ok' by (fastforce split: prod.splits)
  show "manualGC e s = (r, s') \<Longrightarrow> server_ok v s'"
    unfolding manualGC_def using gc_db [OF ok(1)] ok' by (fastforce split: prod.splits outcome.splits)
  show "metricsHandler e s = (r, s') \<Longrightarrow> server_ok v s'"
    unfolding metricsHandler_def using count_calls ok' by (fastforce split: prod.splits)
qed

lemma appendLog_ok:
  assumes "env_ok e" "server_ok v s" "appendLog e i line s = (r, s')"
  shows "server_ok v s'"
proof -
  have ok: "core_ok v (core s)" "broker_ok (broker s)" using assms(2) by (auto simp: server_ok_def)
  obtain x s1 where c: "call (AppendLog (pers e) (clock e 0) i line) s = (x, s1)" by fastforce
  have s1: "core_ok v (core s1)" "broker_ok (broker s1)" using log_call [OF assms(1) ok(1) c] ok(2) by auto
  obtain B where "publish (sub_order e) i line (broker s1) = Some B" "broker_ok B"
    using broker_ok_publish [OF s1(2) assms(1)] by blast
  then show ?thesis using assms(3) c s1 by (cases x) (auto simp: appendLog_def server_ok_def)
qed

lemma completeBuild_ok:
  assumes "env_ok e" "server_ok v s" "completeBuild e i q s = (r, s')" "v \<Longrightarrow> legal_report (OpComplete i q)"
  shows "server_ok v s'"
proof (cases q)
  case (Some q')
  have ok: "core_ok v (core s)" "broker_ok (broker s)" using assms(2) by (auto simp: server_ok_def)
  obtain x s1 where c: "call (CompleteBuild (pers e) (node_sort e) (clock e 0) i (qStatus q') (qError q')) s = (x, s1)"
    by fastforce
  have s1: "server_ok v s1"
    using complete_call [OF assms(1) ok(1) _ c] assms(4) Some ok(2) by (simp add: server_ok_def)
  then have "server_ok v (snd (on_db (SetCacheRate i (qCacheHitRate q')) s1))"
    using rate_db [of v s1 i "qCacheHitRate q'"]
    by (cases "on_db (SetCacheRate i (qCacheHitRate q')) s1") (auto simp: server_ok_def)
  then show ?thesis using assms(3) Some c s1
    by (cases x) (auto simp: completeBuild_def Let_def server_ok_def split: if_splits)
qed (use assms in \<open>simp add: completeBuild_def\<close>)

lemma tick_ok:
  assumes "env_ok e" "server_ok v s"
  shows "server_ok v (maintenance_tick e k s)"
proof (cases k)
  case WorkerTick
  have ok: "core_ok v (core s)" "broker_ok (broker s)" using assms(2) by (auto simp: server_ok_def)
  obtain x s1 where c: "call (PruneStale (clock e 0) (30 * second)) s = (x, s1)" by fastforce
  have s1: "core_ok v (core s1)" "broker s1 = broker s" using prune_call [OF assms(1) ok(1) c] by auto
  obtain y s2 where c2: "call (ReassignStaleBuilds (clock e 1) (60 * second) (600 * second)) s1 = (y, s2)" by fastforce
  show ?thesis using reassign_call [OF assms(1) s1(1) c2] s1 ok WorkerTick c c2
    by (simp add: maintenance_tick_def server_ok_def)
next
  case GcTick
  then show ?thesis using assms(2) gc_call [of v s] by (simp add: maintenance_tick_def server_ok_def call_snd)
qed

lemma on_broker_ok: "server_ok v s \<Longrightarrow> (\<And>B. f (broker s) = Some B \<Longrightarrow> broker_ok B) \<Longrightarrow> server_ok v (snd (on_broker f s))"
  by (auto simp: on_broker_def server_ok_def split: option.split)

lemma handle_ok:
  assumes "env_ok e" "server_ok v s" "op_ok s x" "v \<Longrightarrow> legal_report x"
  shows "server_ok v (snd (handle e x s))"
proof (cases x)
  case (OpReceive p)
  then show ?thesis using on_broker_ok [OF assms(2), of "\<lambda>B. map_option snd (receive p B)"]
      broker_ok_receive [of "broker s" p] assms(2) by (auto simp: server_ok_def)
next
  case (OpDisconnect i p)
  then show ?thesis using on_broker_ok [OF assms(2), of "unsubscribe i p"]
      broker_ok_unsubscribe [of "broker s" p i] assms(2,3) by (auto simp: server_ok_def)
next
  case (OpBlob path)
  then show ?thesis using assms(2) by (simp split: prod.split)
next
  case (OpLog i line)
  then show ?thesis using appendLog_ok [OF assms(1,2), of i line] by (cases "appendLog e i line s") simp
next
  case (OpComplete i q)
  then show ?thesis using completeBuild_ok [OF assms(1,2), of i q] assms(4) by (cases "completeBuild e i q s") auto
qed (use handler_core [OF assms(1,2)] tick_ok [OF assms(1,2)] in \<open>auto simp: prod_eq_iff\<close>)

lemma history_server_ok:
  "server_ok v s \<Longrightarrow> history_ok xs s \<Longrightarrow> (v \<Longrightarrow> \<forall>(e, x) \<in> set xs. legal_report x) \<Longrightarrow> server_ok v (history xs s)"
  by (induction xs s rule: history.induct) (auto intro: handle_ok)

lemma NewServer_ok:
  assumes "env_ok e" "ids_ok d" "v \<Longrightarrow> rows_ok d" "NewServer e (Some d) (Some b) = Some s"
  shows "server_ok v s"
proof -
  let ?s = "\<lparr>core = \<lparr>store = d, que = New 10000, sched = New_scheduler\<rparr>, blobs = b, broker = newLogBroker, BuildsTotal = 0\<rparr>"
  have "core_ok v (core ?s)" using assms(2,3) sched_ok_New by (simp add: core_ok_def)
  moreover have "broker_ok (broker ?s)"
    by (simp add: broker_ok_def store_ok_def newLogBroker_def subs_of_def)
  ultimately show ?thesis using warm_call [OF assms(1), of v ?s] assms(4)
    by (cases "call (WarmQueue (pers e)) ?s") (auto simp: NewServer_def server_ok_def)
qed

subsection \<open>Submissions\<close>

lemma clamp_bounds: "1 \<le> clamp_timeout t \<and> clamp_timeout t \<le> 3600"
  by (simp add: clamp_timeout_def Let_def)

lemma clamp_id: "0 < t \<Longrightarrow> t \<le> 3600 \<Longrightarrow> clamp_timeout t = t"
  by (simp add: clamp_timeout_def)

lemma Create_build: "fst (Create t b d) = b\<lparr>CreatedAt := t, UpdatedAt := t\<rparr>"
  by (simp add: Create_def insertBuild_def Let_def split: prod.split)

lemma submit_fields:
  assumes "run (SubmitBuild (repo_persister rs) U u ts bid ctx df tag us tmo args) s = (Ret b, s')"
  shows "TimeoutSeconds b = tmo \<and> UserID b = us \<and> ContextKey b = ctx \<and> ImageTag b = tag \<and> Args b = args"
proof -
  obtain v fp where v: "Single U \<lparr>iDockerfile = df, iImageTag = tag\<rparr> = Some v" "Valid v" "FromDockerfile U df = Ret fp"
    using assms by (auto simp: SubmitBuild_def Let_def split: option.splits if_splits outcome.splits)
  let ?b = "new_build (if bid = [] then u else bid) ctx df tag us tmo args fp"
  obtain b' r d where c: "Create (ts 0) ?b (store s) = (b', r, d)" by (metis prod_cases3)
  then have b': "b' = ?b\<lparr>CreatedAt := ts 0, UpdatedAt := ts 0\<rparr>" using Create_build by (metis fst_conv)
  have "b = b'" using assms v c
    by (auto simp: SubmitBuild_def Let_def create_step_def on_store_def on_que_def push_or_cancel_def
        split: if_splits outcome.splits prod.splits)
  then show ?thesis using b' by (simp add: new_build_def)
qed

text \<open>(C19) What a JSON submission that is handled alone answers determines what happened: 201 means a new pending
  build with the requested fields in the store and the queue, its time limit the requested one
  where that is between 1 and 3600 seconds and always within those bounds; 503 carries a
  retry hint and means a full queue and an unchanged server; 400 and 500 leave the server
  unchanged; 409 (a failed insert) leaves the queue and the scheduler alone and every stored status
  too, except that the row may have been inserted, pending, under an identifier that was free,
  when the acknowledgement was lost. There is no other answer. (When another submission takes the
  last place of the queue between the check and the insertion, the build is stored and cancelled
  before the 503: \<open>Service.SubmitBuild_outcomes\<close>.)\<close>

theorem submit_json_replies:
  assumes "pending_sorter (row_sort e)" and "ids_ok (store (core s))" and "submit_json e key (Inr q) s = (r, s')"
  shows "rstatus r \<in> {201, 400, 409, 500, 503} \<and>
    (rstatus r = 201 \<longrightarrow> (\<exists>b. rbody r = BuildJson b \<and> ID b = or_else (qBuildID q) (uuid e) \<and>
        db_view (store (core s)) (ID b) = None \<and>
        db_view (store (core s')) = (db_view (store (core s)))(ID b \<mapsto> StatusPending) \<and>
        queued (que (core s')) = add_mset b (queued (que (core s))) \<and>
        1 \<le> TimeoutSeconds b \<and> TimeoutSeconds b \<le> 3600 \<and>
        (0 < qTimeoutSeconds q \<and> qTimeoutSeconds q \<le> 3600 \<longrightarrow> TimeoutSeconds b = qTimeoutSeconds q) \<and>
        ContextKey b = qContextKey q \<and> ImageTag b = qImageTag q \<and> Args b = qArgs q)) \<and>
    (rstatus r = 503 \<longrightarrow> s' = s \<and> Full (que (core s)) \<and> (''Retry-After'', ''5'') \<in> set (rheaders r)) \<and>
    (rstatus r \<in> {400, 500} \<longrightarrow> s' = s) \<and>
    (rstatus r = 409 \<longrightarrow> que (core s') = que (core s) \<and> sched (core s') = sched (core s) \<and>
       (db_view (store (core s')) = db_view (store (core s)) \<or>
        db_view (store (core s)) (or_else (qBuildID q) (uuid e)) = None \<and>
        db_view (store (core s')) = (db_view (store (core s)))(or_else (qBuildID q) (uuid e) \<mapsto> StatusPending)))"
proof (cases "qContextKey q = []")
  case True
  then show ?thesis using assms(3) by (auto simp: submit_json_def http_error_def reply_def)
next
  case False
  let ?bid = "or_else (qBuildID q) (uuid e)"
  let ?p = "SubmitBuild (pers e) (caseU e) (uuid e) (clock e) ?bid (qContextKey q) (or_else (qDockerfile q) ''Dockerfile'')
      (qImageTag q) (or_else (qUserID q) key) (clamp_timeout (qTimeoutSeconds q)) (qArgs q)"
  obtain res c where c: "run ?p (core s) = (res, c)" by fastforce
  have "(if ?bid = [] then uuid e else ?bid) = ?bid" by (simp add: or_else_def)
  note out = build_persister.submit_run [OF pending_sorter.repo_contract [OF assms(1)] assms(2) c, unfolded this]
  have r: "r = submit_reply res" "s' = s\<lparr>core := c\<rparr>" using assms(3) False c by (auto simp: submit_json_def call_def)
  show ?thesis
  proof (cases res)
    case (Ret b)
    have "ID b = ?bid" using out Ret by simp
    then show ?thesis using out r Ret submit_fields [OF c [unfolded Ret]] clamp_bounds clamp_id
      by (simp add: submit_reply_def)
  next
    case (Err x)
    then show ?thesis using out r by (cases x) (auto simp: submit_reply_def reply_def)
  next
    case Panic
    then show ?thesis using out r by (simp add: submit_reply_def recovered_def reply_def)
  qed
qed

text \<open>A concrete server and environment.\<close>

definition local_env :: "fs env" where
  "local_env = \<lparr>caseU = id, uuid = ''u1'', clock = (\<lambda>_. 1700000000000000000), zone = 0,
     row_sort = sort_key pending_key, list_sort = sort_key list_key, node_sort = sort_key rhash,
     sub_order = sorted_list_of_set, blob_put = Put_local [] \<lparr>basePath = ''/srv/blobs''\<rparr> no_faults,
     blob_get = Get_local [] \<lparr>basePath = ''/srv/blobs''\<rparr> no_faults\<rparr>"

definition sample_server :: "fs server" where
  "sample_server = \<lparr>core = sample_sys, blobs = [], broker = newLogBroker, BuildsTotal = 0\<rparr>"

lemma local_env_ok: "env_ok local_env"
  using std_service_env by (simp add: env_ok_def local_env_def)

definition sample_req :: submit_req where
  "sample_req = \<lparr>qBuildID = ''n1'', qContextKey = ''contexts/n1.tar.gz'', qDockerfile = [], qImageTag = ''img'',
     qUserID = ''me'', qTimeoutSeconds = 90000, qArgs = []\<rparr>"

theorem submit_json_replies_witness:
  "\<exists>r s' b. submit_json local_env [] (Inr sample_req) sample_server = (r, s') \<and> rstatus r = 201 \<and>
     rbody r = BuildJson b \<and> ID b = ''n1'' \<and> TimeoutSeconds b \<le> 3600 \<and>
     db_view (store (core s')) ''n1'' = Some StatusPending"
proof -
  obtain r s' where rs: "submit_json local_env [] (Inr sample_req) sample_server = (r, s')" by fastforce
  obtain b c where "run (SubmitBuild repo_std id ''u1'' (\<lambda>_. 1700000000000000000) ''n1'' ''contexts/n1.tar.gz''
      ''Dockerfile'' ''img'' ''me'' (clamp_timeout 90000) []) sample_sys = (Ret b, c)"
    using sample_accepts [of "''n1''" "''u1''" "\<lambda>_. 1700000000000000000" "''contexts/n1.tar.gz''" "''me''"
        "clamp_timeout 90000" "[]"] by auto
  then have "rstatus r = 201"
    using rs by (auto simp: submit_json_def local_env_def sample_req_def sample_server_def call_def or_else_def
        submit_reply_def)
  then show ?thesis
    using submit_json_replies [OF _ _ rs] pending_std rs
    by (fastforce simp: local_env_def sample_server_def sample_req_def or_else_def)
qed

definition form_with_id :: "string \<Rightarrow> string \<Rightarrow> form" where
  "form_with_id i data = \<lparr>context_file = Some data, FormValue = (\<lambda>k. if k = ''build_id'' then i else [])\<rparr>"

text \<open>A multipart submission under the identifier of an existing build is refused, but
  only after its context has replaced the stored one.\<close>

theorem upload_overwrites:
  assumes "pending_sorter (row_sort e)" and "ids_ok (store (core s))"
    and "FormValue f ''build_id'' = i" "i \<noteq> []" "context_file f = Some data"
    and "db_view (store (core s)) i \<noteq> None"
    and "blob_put e (context_key i) data (blobs s) = ((n, True), b)"
  shows "rstatus (fst (submit_form e key (Inr f) s)) \<noteq> 201 \<and> blobs (snd (submit_form e key (Inr f) s)) = b"
proof -
  let ?p = "SubmitBuild (pers e) (caseU e) (uuid e) (clock e) i (context_key i) (or_else (FormValue f ''dockerfile'') ''Dockerfile'')
      (FormValue f ''image_tag'') (or_else (FormValue f ''user_id'') key) 600 []"
  obtain res c where c: "run ?p (core s) = (res, c)" by fastforce
  note out = build_persister.submit_run [OF pending_sorter.repo_contract [OF assms(1)] assms(2) c]
  have "\<nexists>x. res = Ret x" using out assms(4,6) by auto
  then have "rstatus (submit_reply res) \<noteq> 201"
    by (cases res) (auto simp: submit_reply_def recovered_def reply_def)
  moreover have "submit_form e key (Inr f) s = (submit_reply res, s\<lparr>blobs := b, core := c\<rparr>)"
    using assms(3,4,5,7) c by (simp add: submit_form_def Let_def or_else_def call_def)
  ultimately show ?thesis by simp
qed

theorem upload_overwrites_witness:
  "rstatus (fst (submit_form local_env [] (Inr (form_with_id ''b1'' ''new''))
     (sample_server\<lparr>blobs := [([''srv'', ''blobs'', ''contexts'', ''b1.tar.gz''], File ''old'')]\<rparr>))) \<noteq> 201"
proof -
  let ?f = "form_with_id ''b1'' ''new''"
  let ?s = "sample_server\<lparr>blobs := [([''srv'', ''blobs'', ''contexts'', ''b1.tar.gz''], File ''old'')]\<rparr>"
  have "\<not> key_rejected (context_key ''b1'')"
    by (simp add: key_rejected_def context_key_def Contains_def Clean_def clean_comps_def rooted_def clean_step_def)
  then have q: "walk [] (resolveKey \<lparr>basePath = ''/srv/blobs''\<rparr> (context_key ''b1'')) = [''srv'', ''blobs'', ''contexts'', ''b1.tar.gz'']"
    by (simp add: walk_key) (simp add: walk_def rooted_def clean_step_def key_names_def context_key_def)
  have "fst (blob_put local_env (context_key ''b1'') ''new'' (blobs ?s)) = (3, True)"
    unfolding local_env_def env.simps
    by (subst Put_ok [OF _ _ _ _ _ q [symmetric]])
      (use \<open>\<not> key_rejected _\<close> in \<open>auto simp: no_faults_def context_key_def file_at_def node_at_def sample_server_def less_Suc_eq\<close>)
  then obtain b where "blob_put local_env (context_key ''b1'') ''new'' (blobs ?s) = ((3, True), b)"
    by (metis prod.collapse)
  then show ?thesis
    using upload_overwrites [of local_env ?s ?f "''b1''" "''new''" 3 b "[]"] pending_std sample_view
    by (simp add: local_env_def sample_server_def form_with_id_def)
qed

text \<open>(C39) The identifier of a multipart submission is not checked, and the local store joins it
  into a path: with enough parent directories in it the upload lands outside the directory
  of the store, here beside \<open>/srv/blobs\<close>.\<close>

theorem upload_escapes:
  "file_at (blobs (snd (submit_form local_env key (Inr (form_with_id ''../../evil'' data)) (s\<lparr>blobs := []\<rparr>))))
       [''srv'', ''evil.tar.gz''] = Some data \<and>
    take 2 (walk [] ''/srv/evil.tar.gz'') \<noteq> walk [] ''/srv/blobs''"
proof -
  let ?k = "context_key ''../../evil''" and ?st = "\<lparr>basePath = ''/srv/blobs''\<rparr>"
  have p: "resolveKey ?st ?k = ''/srv/evil.tar.gz''"
    by (simp add: resolveKey_def context_key_def path_join_def Clean_def clean_comps_def rooted_def clean_step_def)
  have w: "walk [] ''/srv/evil.tar.gz'' = [''srv'', ''evil.tar.gz'']"
    "walk [] (path_dir ''/srv/evil.tar.gz'') = [''srv'']" "walk [] ''/srv/blobs'' = [''srv'', ''blobs'']"
    by (simp_all add: walk_def path_dir_def Clean_def clean_comps_def rooted_def clean_step_def)
  have "blob_put local_env ?k data [] = ((length data, True), [([''srv''], Directory), ([''srv'', ''evil.tar.gz''], File data)])"
    by (simp add: local_env_def Put_local_def Let_def p w no_faults_def node_at_def os_create_def)
  then have "blobs (snd (submit_form local_env key (Inr (form_with_id ''../../evil'' data)) (s\<lparr>blobs := []\<rparr>))) =
      [([''srv''], Directory), ([''srv'', ''evil.tar.gz''], File data)]"
    by (simp add: submit_form_def form_with_id_def or_else_def call_def Let_def split: prod.split)
  then show ?thesis by (simp add: file_at_def node_at_def w)
qed

subsection \<open>Pages\<close>

lemma page_limit_bounds: "1 \<le> page_limit l \<and> page_limit l \<le> 200"
  by (simp add: page_limit_def Let_def)

lemma page_offset_nonneg: "0 \<le> page_offset o'"
  by (simp add: page_offset_def Let_def)

lemma add_int_small: "0 \<le> a \<Longrightarrow> 0 \<le> b \<Longrightarrow> a + b < 2 ^ 63 \<Longrightarrow> add_int a b = a + b"
proof -
  assume "0 \<le> a" "0 \<le> b" "a + b < 2 ^ 63"
  then have "signed_take_bit 63 (a + b) = a + b" by (intro signed_take_bit_int_eq_self) auto
  then show ?thesis unfolding add_int_def wi_hom_add sint_sbintrunc' by simp
qed

lemma page_slice_eq:
  assumes "0 \<le> offset" "0 \<le> limit" "offset + limit < 2 ^ 63"
  shows "page_slice limit offset (take (nat (offset + limit)) xs) = take (nat limit) (drop (nat offset) xs)"
proof -
  obtain n m where nm: "offset = int n" "limit = int m" using assms(1,2) by (metis nonneg_int_cases)
  let ?ys = "take (n + m) xs"
  have ys: "drop n ?ys = take m (drop n xs)" by (simp add: drop_take)
  have sum: "add_int offset limit = int (n + m)" using add_int_small [OF assms] nm by simp
  show ?thesis
  proof (cases "n < length ?ys")
    case True
    have "nat (offset + limit) = n + m" using nm by simp
    then show ?thesis using True ys sum nm by (simp add: page_slice_def Let_def)
  next
    case False
    then have "take m (drop n xs) = []" using ys by (metis drop_all not_less)
    then show ?thesis using False nm by (simp add: page_slice_def nat_int_add del: length_take)
  qed
qed

text \<open>(C33) A page of the build list is what it should be: with an answering database, whose
  \<open>ORDER BY created_at DESC\<close> arranges the rows by descending creation time in whatever order among
  equal times, the builds from the offset on of all builds newest first, at most \<open>limit\<close> of them,
  next to the number of all builds; the limit is between 1 and 200 whatever the query says and the offset
  is never negative. Fetching only the first \<open>offset + limit\<close> rows loses nothing, as long as
  that sum fits an \<open>int\<close>.\<close>

theorem listBuilds_page:
  assumes "faults (store (core s)) = []" and "page_offset o' + page_limit l < 2 ^ 63" and "sorter list_key (list_sort e)"
  shows "(\<exists>rs. mset rs = mset (builds (store (core s))) \<and> sorted_wrt (\<lambda>r r'. c_created_at r' \<le> c_created_at r) rs \<and>
      listBuilds e l o' s =
        (reply 200 (PageJson (take (nat (page_limit l)) (drop (nat (page_offset o')) (map scan_row rs)))
           (length (builds (store (core s)))) (page_limit l) (page_offset o')), s)) \<and>
    1 \<le> page_limit l \<and> page_limit l \<le> 200 \<and> 0 \<le> page_offset o'"
proof -
  let ?l = "page_limit l" and ?o = "page_offset o'" and ?d = "store (core s)"
  have b: "0 \<le> ?l" "0 \<le> ?o" "1 \<le> ?l" "?l \<le> 200" using page_limit_bounds [of l] page_offset_nonneg by auto
  have sum: "add_int ?o ?l = ?o + ?l" using b assms(2) by (simp add: add_int_small)
  have "on_db (List (list_sort e) (add_int ?o ?l)) s =
      (Ret (map scan_row (take (nat (?o + ?l)) (list_sort e (builds ?d)))), s)"
    using assms(1) b by (simp add: on_db_def List_eq run_stmt_sound sum)
  moreover have "on_db CountAll s = (Ret (length (builds ?d)), s)"
    using assms(1) by (simp add: on_db_def CountAll_def count_where_def query_def run_stmt_sound)
  moreover have "page_slice ?l ?o (map scan_row (take (nat (?o + ?l)) (list_sort e (builds ?d)))) =
      take (nat ?l) (drop (nat ?o) (map scan_row (list_sort e (builds ?d))))"
    using page_slice_eq [of ?o ?l "map scan_row (list_sort e (builds ?d))"] b assms(2) by (simp add: take_map)
  ultimately have page: "listBuilds e l o' s =
      (reply 200 (PageJson (take (nat ?l) (drop (nat ?o) (map scan_row (list_sort e (builds ?d))))) (length (builds ?d)) ?l ?o), s)"
    by (simp add: listBuilds_def Let_def)
  have "mset (list_sort e (builds ?d)) = mset (builds ?d)" by (rule sorter.sort_mset [OF assms(3)])
  moreover have "sorted_wrt (\<lambda>r r'. c_created_at r' \<le> c_created_at r) (list_sort e (builds ?d))"
    using sorter.sort_sorted [OF assms(3), of "builds ?d"] by (simp add: sorted_wrt_map list_key_def)
  ultimately show ?thesis using page b by blast
qed

theorem listBuilds_page_witness:
  "\<exists>bs. listBuilds local_env [] [] sample_server = (reply 200 (PageJson bs 1 20 0), sample_server) \<and> map ID bs = [''b1'']"
proof -
  have page: "page_limit [] = 20" "page_offset [] = 0" by (simp_all add: page_limit_def page_offset_def query_int_def)
  have "length (builds sample_db) = 1" "map ID (map scan_row (builds sample_db)) = [''b1'']"
    by (simp_all add: sample_db_eq new_row_def sample_def)
  moreover have "sorter list_key (list_sort local_env)" by (simp add: local_env_def sorter_def)
  moreover obtain rs where "mset rs = mset (builds sample_db)"
    "listBuilds local_env [] [] sample_server = (reply 200 (PageJson (take 20 (map scan_row rs)) (length (builds sample_db)) 20 0), sample_server)"
    using listBuilds_page [of sample_server "[]" "[]" local_env] page calculation(3) by (auto simp: sample_server_def)
  ultimately show ?thesis by (cases "builds sample_db") (auto simp: sample_server_def)
qed

subsection \<open>Whole histories\<close>

text \<open>(C9) Whatever requests and maintenance ticks a server handles one after the other since it
  started on a database with unique build identifiers, reports of any status included and with any
  database faults: build identifiers stay unique, the queue is a heap of at most 10000 builds, the
  ring is consistent with the registered workers, and every log subscriber has an open channel of
  at most 64 lines, so that publishing a line never fails (a log stream disconnects only while it
  is registered). When moreover the rows were sound at the start and no completion report
  carries a status other than a final one, \<open>building\<close> or the empty one, every build has one of the
  six statuses and a completion time exactly when it is final.\<close>

theorem api_invariants:
  assumes "env_ok e" "ids_ok d" "NewServer e (Some d) (Some b) = Some s" "history_ok xs s"
  defines "s' \<equiv> history xs s"
  shows "ids_ok (store (core s')) \<and>
    queue_ok (que (core s')) \<and> Len (que (core s')) \<le> 10000 \<and> sched_ok (sched (core s')) \<and>
    (\<forall>p u. heap_subs (broker s') p = Some u \<longrightarrow> length (ch u) \<le> 64) \<and>
    (\<forall>i line. publish (sub_order e) i line (broker s') \<noteq> None) \<and>
    (rows_ok d \<and> (\<forall>(e, x) \<in> set xs. legal_report x) \<longrightarrow>
      (\<forall>r \<in> set (builds (store (core s'))). (c_status r = StatusPending \<or> c_status r = StatusBuilding \<or> IsTerminal (c_status r)) \<and>
         (c_completed_at r \<noteq> None \<longleftrightarrow> IsTerminal (c_status r))))"
proof -
  have sound: "server_ok v s'" if "v \<Longrightarrow> rows_ok d \<and> (\<forall>(e, x) \<in> set xs. legal_report x)" for v
  proof -
    have "server_ok v s" using that by (intro NewServer_ok [OF assms(1,2) _ assms(3)]) simp
    then show ?thesis unfolding s'_def by (rule history_server_ok) (use assms(4) that in simp_all)
  qed
  have ok: "core_ok False (core s')" "broker_ok (broker s')" using sound [of False] by (auto simp: server_ok_def)
  have "publish (sub_order e) i line (broker s') \<noteq> None" for i line
    using broker_ok_publish [OF ok(2) assms(1), of i line] by auto
  moreover have "Len (que (core s')) \<le> 10000"
    using ok(1) by (auto simp: core_ok_def queue_ok_def Len_def)
  moreover have "\<forall>r \<in> set (builds (store (core s'))). row_ok r" if "rows_ok d \<and> (\<forall>(e, x) \<in> set xs. legal_report x)"
    using sound [of True] that by (simp add: server_ok_def core_ok_def rows_ok_def)
  moreover have "ids_ok (store (core s')) \<and> queue_ok (que (core s')) \<and> sched_ok (sched (core s'))"
    using ok(1) by (simp add: core_ok_def)
  moreover have "\<forall>p u. heap_subs (broker s') p = Some u \<longrightarrow> length (ch u) \<le> 64"
    using ok(2) by (simp add: broker_ok_def store_ok_def chan_cap_def)
  ultimately show ?thesis unfolding row_ok_def by blast
qed

theorem api_invariants_witness:
  "\<exists>s. NewServer local_env (Some sample_db) (Some []) = Some s \<and>
     rows_ok (store (core (history [(local_env, OpNext ''w1''), (local_env, OpTick WorkerTick), (local_env, OpLogs ''b1'' ''true'')] s))) \<and>
     ids_ok (store (core (history [(local_env, OpNext ''w1''), (local_env, OpComplete ''b1'' (Some \<lparr>qStatus = StatusPending, qError = [], qCacheHitRate = 0\<rparr>))] s)))"
proof -
  obtain s where s: "NewServer local_env (Some sample_db) (Some []) = Some s" by (simp add: NewServer_def)
  let ?xs = "[(local_env, OpNext ''w1''), (local_env, OpTick WorkerTick), (local_env, OpLogs ''b1'' ''true'')]"
    and ?ys = "[(local_env, OpNext ''w1''), (local_env, OpComplete ''b1'' (Some \<lparr>qStatus = StatusPending, qError = [], qCacheHitRate = 0\<rparr>))]"
  have d: "rows_ok sample_db" by (simp add: rows_ok_def row_ok_def sample_db_eq new_row_def sample_def)
  have h: "history_ok ?xs s" "history_ok ?ys s" "\<forall>(e, x) \<in> set ?xs. legal_report x" using local_env_ok by simp_all
  have "rows_ok (store (core (history ?xs s)))"
    using api_invariants [OF local_env_ok sample_db_ok(1) s h(1)] d h(3) unfolding rows_ok_def row_ok_def by blast
  then show ?thesis using api_invariants [OF local_env_ok sample_db_ok(1) s h(2)] s by blast
qed

end
