(* ===== verification/Config.thy ===== *)
theory Config
  imports Go_Parse
begin

text \<open>
  The configuration of \<open>src/server/internal/config/config.go\<close>: the tunable parameters, their
  defaults and the environment variables that override them. Durations are nanoseconds,
  \<open>getenv\<close> is the environment (an unset variable is the empty string).
\<close>

subsection \<open>Parameters\<close>

record ServerConfig =
  RequestTimeout :: int
  WorkerPruneInterval :: int
  GCInterval :: int
  GCRetention :: int
  MaxUploadBytes :: int
  MaxBulkUploadBytes :: int
  DefaultBuildTimeout :: int
  MaxBuildTimeout :: int
  MaxListLimit :: int

record WorkerConfig =
  HTTPTimeout :: int
  HeartbeatInterval :: int
  PollInterval :: int
  CancelCheckInterval :: int
  MaxCacheKeys :: int
  MaxRetries :: int

record SchedulerConfig =
  VirtualReplicas :: int

record QueueConfig =
  MaxLen :: int

record BuildKitConfig =
  MaxLogBuffer :: int

record Config =
  Server :: ServerConfig
  Worker :: WorkerConfig
  Sched :: SchedulerConfig
  Queue :: QueueConfig
  BuildKit :: BuildKitConfig

definition Second :: int where "Second = 1000000000"
definition Minute :: int where "Minute = 60 * Second"
definition Hour :: int where "Hour = 60 * Minute"

definition Default :: Config where
  "Default =
     \<lparr>Server = \<lparr>RequestTimeout = 5 * Minute, WorkerPruneInterval = 30 * Second, GCInterval = 1 * Hour,
        GCRetention = 24 * Hour, MaxUploadBytes = 100 * 2 ^ 20, MaxBulkUploadBytes = 500 * 2 ^ 20,
        DefaultBuildTimeout = 600, MaxBuildTimeout = 3600, MaxListLimit = 200\<rparr>,
      Worker = \<lparr>HTTPTimeout = 10 * Minute, HeartbeatInterval = 5 * Second, PollInterval = 2 * Second,
        CancelCheckInterval = 10 * Second, MaxCacheKeys = 512, MaxRetries = 3\<rparr>,
      Sched = \<lparr>VirtualReplicas = 150\<rparr>,
      Queue = \<lparr>MaxLen = 10000\<rparr>,
      BuildKit = \<lparr>MaxLogBuffer = 10 * 2 ^ 20\<rparr>\<rparr>"

subsection \<open>The environment\<close>

text \<open>A variable that is unset or does not parse leaves its parameter alone.\<close>

definition override :: "(string \<Rightarrow> int option) \<Rightarrow> string \<Rightarrow> (int \<Rightarrow> 'c \<Rightarrow> 'c) \<Rightarrow> 'c \<Rightarrow> 'c" where
  "override parse v upd cfg =
     (if v \<noteq> [] then (case parse v of Some n \<Rightarrow> upd n cfg | None \<Rightarrow> cfg) else cfg)"

definition in_server :: "(ServerConfig \<Rightarrow> ServerConfig) \<Rightarrow> Config \<Rightarrow> Config" where
  "in_server f c = c\<lparr>Server := f (Server c)\<rparr>"

definition in_worker :: "(WorkerConfig \<Rightarrow> WorkerConfig) \<Rightarrow> Config \<Rightarrow> Config" where
  "in_worker f c = c\<lparr>Worker := f (Worker c)\<rparr>"

definition LoadFromEnv :: "(string \<Rightarrow> string) \<Rightarrow> Config" where
  "LoadFromEnv getenv =
     (let cfg = Default;
          cfg = override ParseDuration (getenv ''DTBUILD_REQUEST_TIMEOUT'') (\<lambda>d. in_server (\<lambda>c. c\<lparr>RequestTimeout := d\<rparr>)) cfg;
          cfg = override ParseDuration (getenv ''DTBUILD_GC_RETENTION'') (\<lambda>d. in_server (\<lambda>c. c\<lparr>GCRetention := d\<rparr>)) cfg;
          cfg = override ParseInt (getenv ''DTBUILD_MAX_UPLOAD_BYTES'') (\<lambda>n. in_server (\<lambda>c. c\<lparr>MaxUploadBytes := n\<rparr>)) cfg;
          cfg = override ParseInt (getenv ''DTBUILD_MAX_BUILD_TIMEOUT'') (\<lambda>n. in_server (\<lambda>c. c\<lparr>MaxBuildTimeout := n\<rparr>)) cfg;
          cfg = override ParseInt (getenv ''DTBUILD_MAX_LIST_LIMIT'') (\<lambda>n. in_server (\<lambda>c. c\<lparr>MaxListLimit := n\<rparr>)) cfg;
          cfg = override ParseDuration (getenv ''DTBUILD_WORKER_HTTP_TIMEOUT'') (\<lambda>d. in_worker (\<lambda>c. c\<lparr>HTTPTimeout := d\<rparr>)) cfg;
          cfg = override ParseDuration (getenv ''DTBUILD_HEARTBEAT_INTERVAL'') (\<lambda>d. in_worker (\<lambda>c. c\<lparr>HeartbeatInterval := d\<rparr>)) cfg;
          cfg = override ParseDuration (getenv ''DTBUILD_POLL_INTERVAL'') (\<lambda>d. in_worker (\<lambda>c. c\<lparr>PollInterval := d\<rparr>)) cfg;
          cfg = override ParseInt (getenv ''DTBUILD_MAX_CACHE_KEYS'') (\<lambda>n. in_worker (\<lambda>c. c\<lparr>MaxCacheKeys := n\<rparr>)) cfg;
          cfg = override ParseInt (getenv ''DTBUILD_VIRTUAL_REPLICAS'') (\<lambda>n c. c\<lparr>Sched := (Sched c)\<lparr>VirtualReplicas := n\<rparr>\<rparr>) cfg;
          cfg = override ParseInt (getenv ''DTBUILD_QUEUE_MAX'') (\<lambda>n c. c\<lparr>Queue := (Queue c)\<lparr>MaxLen := n\<rparr>\<rparr>) cfg;
          cfg = override ParseInt (getenv ''DTBUILD_MAX_LOG_BUFFER'') (\<lambda>n c. c\<lparr>BuildKit := (BuildKit c)\<lparr>MaxLogBuffer := n\<rparr>\<rparr>) cfg
      in cfg)"

subsection \<open>Writing a configuration into the environment\<close>

definition env_durations :: "Config \<Rightarrow> (string \<times> int) list" where
  "env_durations c =
     [(''DTBUILD_REQUEST_TIMEOUT'', RequestTimeout (Server c)), (''DTBUILD_GC_RETENTION'', GCRetention (Server c)),
      (''DTBUILD_WORKER_HTTP_TIMEOUT'', HTTPTimeout (Worker c)), (''DTBUILD_HEARTBEAT_INTERVAL'', HeartbeatInterval (Worker c)),
      (''DTBUILD_POLL_INTERVAL'', PollInterval (Worker c))]"

definition env_ints :: "Config \<Rightarrow> (string \<times> int) list" where
  "env_ints c =
     [(''DTBUILD_MAX_UPLOAD_BYTES'', MaxUploadBytes (Server c)), (''DTBUILD_MAX_BUILD_TIMEOUT'', MaxBuildTimeout (Server c)),
      (''DTBUILD_MAX_LIST_LIMIT'', MaxListLimit (Server c)), (''DTBUILD_MAX_CACHE_KEYS'', MaxCacheKeys (Worker c)),
      (''DTBUILD_VIRTUAL_REPLICAS'', VirtualReplicas (Sched c)), (''DTBUILD_QUEUE_MAX'', MaxLen (Queue c)),
      (''DTBUILD_MAX_LOG_BUFFER'', MaxLogBuffer (BuildKit c))]"

definition env_of :: "Config \<Rightarrow> string \<Rightarrow> string" where
  "env_of c name =
     (case map_of (env_durations c) name of
        Some d \<Rightarrow> show_int d @ ''ns''
      | None \<Rightarrow> (case map_of (env_ints c) name of Some n \<Rightarrow> show_int n | None \<Rightarrow> []))"

text \<open>The parameters that no variable can change.\<close>

definition fixed_params :: "Config \<Rightarrow> int list" where
  "fixed_params c = [WorkerPruneInterval (Server c), GCInterval (Server c), MaxBulkUploadBytes (Server c),
     DefaultBuildTimeout (Server c), CancelCheckInterval (Worker c), MaxRetries (Worker c)]"

lemma show_nonempty: "show_int n \<noteq> []"
  using Itoa_digits by (simp add: show_int_def)

lemma override_duration:
  "- (2 ^ 63) \<le> n \<Longrightarrow> n < 2 ^ 63 \<Longrightarrow> override ParseDuration (show_int n @ ''ns'') upd cfg = upd n cfg"
  by (simp add: override_def ParseDuration_show)

lemma override_int: "- (2 ^ 63) \<le> n \<Longrightarrow> n < 2 ^ 63 \<Longrightarrow> override ParseInt (show_int n) upd cfg = upd n cfg"
  by (simp add: override_def ParseInt_show show_nonempty)

lemma override_unset: "override parse [] upd cfg = cfg"
  by (simp add: override_def)

subsection \<open>Properties\<close>

text \<open>Every configuration whose fixed parameters have their defaults and whose other
  parameters fit 64 bits can be written into the environment, and loading it from there
  gives it back; with nothing set, loading gives the defaults.\<close>

theorem LoadFromEnv_roundtrip:
  assumes "\<forall>(k, n) \<in> set (env_durations c @ env_ints c). - (2 ^ 63) \<le> n \<and> n < 2 ^ 63"
    and "fixed_params c = fixed_params Default"
  shows "LoadFromEnv (env_of c) = c \<and> LoadFromEnv (\<lambda>_. []) = Default"
proof
  show "LoadFromEnv (\<lambda>_. []) = Default" by (simp add: LoadFromEnv_def override_unset)
  have e: "env_of c ''DTBUILD_REQUEST_TIMEOUT'' = show_int (RequestTimeout (Server c)) @ ''ns''"
    "env_of c ''DTBUILD_GC_RETENTION'' = show_int (GCRetention (Server c)) @ ''ns''"
    "env_of c ''DTBUILD_WORKER_HTTP_TIMEOUT'' = show_int (HTTPTimeout (Worker c)) @ ''ns''"
    "env_of c ''DTBUILD_HEARTBEAT_INTERVAL'' = show_int (HeartbeatInterval (Worker c)) @ ''ns''"
    "env_of c ''DTBUILD_POLL_INTERVAL'' = show_int (PollInterval (Worker c)) @ ''ns''"
    "env_of c ''DTBUILD_MAX_UPLOAD_BYTES'' = show_int (MaxUploadBytes (Server c))"
    "env_of c ''DTBUILD_MAX_BUILD_TIMEOUT'' = show_int (MaxBuildTimeout (Server c))"
    "env_of c ''DTBUILD_MAX_LIST_LIMIT'' = show_int (MaxListLimit (Server c))"
    "env_of c ''DTBUILD_MAX_CACHE_KEYS'' = show_int (MaxCacheKeys (Worker c))"
    "env_of c ''DTBUILD_VIRTUAL_REPLICAS'' = show_int (VirtualReplicas (Sched c))"
    "env_of c ''DTBUILD_QUEUE_MAX'' = show_int (MaxLen (Queue c))"
    "env_of c ''DTBUILD_MAX_LOG_BUFFER'' = show_int (MaxLogBuffer (BuildKit c))"
    by (simp_all add: env_of_def env_durations_def env_ints_def)
  show "LoadFromEnv (env_of c) = c"
    using assms unfolding LoadFromEnv_def e Let_def
    by (cases c) (simp add: override_duration override_int in_server_def in_worker_def Default_def
        fixed_params_def env_durations_def env_ints_def)
qed

theorem LoadFromEnv_roundtrip_witness:
  "MaxLen (Queue (LoadFromEnv (env_of (Default\<lparr>Queue := \<lparr>MaxLen = 7\<rparr>\<rparr>)))) = 7"
  using LoadFromEnv_roundtrip [of "Default\<lparr>Queue := \<lparr>MaxLen = 7\<rparr>\<rparr>"]
  by (simp add: env_durations_def env_ints_def fixed_params_def Default_def Second_def Minute_def Hour_def)

end
