(* ===== verification/Buildkit.thy ===== *)
theory Buildkit
  imports Go_Parse "HOL-Library.AList"
begin

text \<open>
  The BuildKit client of \<open>src/server/internal/buildkit/client.go\<close>: the command line for
  \<open>buildctl\<close>, the reconstruction of a numbered log from its raw progress messages, and the
  cache hit rate.

  What the client gets from outside is in the record \<open>buildctl_run\<close>: whether the Dockerfile
  exists, whether \<open>buildctl\<close> starts, everything it writes to its error stream, whether it
  fails, and the error of the context. Decoding a line of progress into a message
  (\<open>json.Unmarshal\<close>) and a timestamp into an instant (\<open>time.Parse\<close>) are the parameters
  \<open>unmarshal\<close> and \<open>parse_time\<close>. A Go map is an association list; \<open>BuildArgs\<close> is in the
  order in which \<open>range\<close> visits it.
\<close>

subsection \<open>Options and messages\<close>

record BuildOptions =
  ContextDir :: string
  oDockerfile :: string
  OutputTag :: string
  CacheFrom :: string
  CacheTo :: string
  BuildArgs :: "(string \<times> string) list"

record BuildResult =
  ImageDigest :: string
  rCacheHitRate :: float64

record Client =
  buildctlPath :: string
  buildkitAddr :: string

definition NewClient :: "string option \<Rightarrow> string \<Rightarrow> Client option" where
  "NewClient look_path addr = map_option (\<lambda>p. \<lparr>buildctlPath = p, buildkitAddr = addr\<rparr>) look_path"

record rawVertex =
  Digest :: string
  vName :: string
  vStarted :: string
  vCompleted :: string
  Cached :: bool
  vError :: string

record rawVtxStatus =
  sID :: string
  sVertex :: string
  sName :: string
  Current :: int
  Total :: int
  sTimestamp :: string
  sStarted :: string
  sCompleted :: string

record rawVtxLog =
  lVertex :: string
  Stream :: int
  Data :: string
  lTimestamp :: string

record rawMessage =
  Vertexes :: "rawVertex list"
  Statuses :: "rawVtxStatus list"
  mLogs :: "rawVtxLog list"

record vertexInfo =
  num :: nat
  name :: string
  started :: bool
  completed :: bool
  cached :: bool
  startTime :: int

subsection \<open>User steps\<close>

text \<open>\<open>strings.Fields\<close>; the encoding of a space is never part of another character.\<close>

function fields :: "string \<Rightarrow> string \<Rightarrow> string list" where
  "fields w s =
     (if s = [] then (if w = [] then [] else [rev w])
      else case find (HasPrefix s) space_seqs of
        Some sp \<Rightarrow> (if w = [] then [] else [rev w]) @ fields [] (drop (length sp) s)
      | None \<Rightarrow> fields (hd s # w) (tl s))"
  by pat_completeness auto
termination
proof (relation "measure (\<lambda>(w, s). length s)")
  fix w s sp assume "s \<noteq> []" "find (HasPrefix s) space_seqs = Some sp"
  then have "HasPrefix s sp" "sp \<in> set space_seqs" by (auto simp: find_Some_iff)
  moreover have "sp \<noteq> []" using \<open>sp \<in> set space_seqs\<close> by (auto simp: space_seqs_def)
  ultimately show "(([], drop (length sp) s), (w, s)) \<in> measure (\<lambda>(w, s). length s)"
    by (cases s) (auto simp: HasPrefix_def)
qed auto

declare fields.simps [simp del]

definition Fields :: "string \<Rightarrow> string list" where
  "Fields s = fields [] s"

definition isUserStep :: "string \<Rightarrow> bool" where
  "isUserStep nm =
     (case (str_index nm ''['', str_index nm '']'') of
        (Some i, Some j) \<Rightarrow>
          if j \<le> i then False
          else
            (let content = take (j - (i + 1)) (drop (i + 1) nm); fs = Fields content in
             if fs = [] then False
             else
               (let parts = Split (CHR ''/'') (last fs) in
                if length parts \<noteq> 2 then False
                else if list_ex (\<lambda>p. p = [] \<or> \<not> list_all is_digit p) parts then False
                else \<not> HasPrefix (TrimSpace (drop (j + 1) nm)) ''FROM ''))
      | _ \<Rightarrow> False)"

subsection \<open>The command line\<close>

definition arg_key_char :: "char \<Rightarrow> bool" where
  "arg_key_char c \<longleftrightarrow>
     (let n = of_char c :: nat in
      97 \<le> n \<and> n \<le> 122 \<or> 65 \<le> n \<and> n \<le> 90 \<or> 48 \<le> n \<and> n \<le> 57) \<or>
     c = CHR ''_'' \<or> c = CHR ''-'' \<or> c = CHR ''.''"

definition isValidBuildArgKey :: "string \<Rightarrow> bool" where
  "isValidBuildArgKey key \<longleftrightarrow> key \<noteq> [] \<and> list_all arg_key_char key"

fun build_arg_flags :: "(string \<times> string) list \<Rightarrow> string + string list" where
  "build_arg_flags [] = Inr []"
| "build_arg_flags ((k, v) # r) =
     (if \<not> isValidBuildArgKey k then Inl k
      else map_sum id (\<lambda>fs. (''--opt=build-arg:'' @ k @ ''='' @ v) # fs) (build_arg_flags r))"

definition base_args :: "Client \<Rightarrow> BuildOptions \<Rightarrow> string list" where
  "base_args c opts =
     [''--addr='' @ buildkitAddr c, ''build'', ''--frontend=dockerfile.v0'',
      ''--local=context='' @ ContextDir opts, ''--local=dockerfile='' @ ContextDir opts,
      ''--opt=filename='' @ oDockerfile opts, ''--progress=rawjson''] @
     (if OutputTag opts \<noteq> [] then [''--output=type=image,name='' @ OutputTag opts @ '',push=true''] else []) @
     (if CacheFrom opts \<noteq> [] then [''--import-cache=type=registry,ref='' @ CacheFrom opts] else []) @
     (if CacheTo opts \<noteq> [] then [''--export-cache=type=registry,ref='' @ CacheTo opts @ '',mode=max''] else [])"

definition buildctl_args :: "Client \<Rightarrow> BuildOptions \<Rightarrow> string + string list" where
  "buildctl_args c opts = map_sum id (\<lambda>fs. base_args c opts @ fs) (build_arg_flags (BuildArgs opts))"

subsection \<open>Log reconstruction\<close>

record progress =
  logBuf :: string
  emitted :: "string list"
  vertices :: "(string \<times> vertexInfo) list"
  nextNum :: nat

definition maxLogBytes :: nat where
  "maxLogBytes = 10 * 1024 * 1024"

text \<open>\<open>emitted\<close> collects the calls of \<open>onLog\<close>.\<close>

definition emit :: "string \<Rightarrow> progress \<Rightarrow> progress" where
  "emit line st = st\<lparr>logBuf := (if length (logBuf st) < maxLogBytes then logBuf st @ line else logBuf st),
                     emitted := emitted st @ [line]\<rparr>"

definition zero_time :: int where
  "zero_time = -62135596800000000000"

definition getVertex :: "string \<Rightarrow> string \<Rightarrow> progress \<Rightarrow> vertexInfo \<times> progress" where
  "getVertex digest nm st =
     (case map_of (vertices st) digest of
        Some vi \<Rightarrow> (vi, st)
      | None \<Rightarrow>
         (let vi = \<lparr>num = nextNum st, name = nm, started = False, completed = False, cached = False, startTime = zero_time\<rparr>
          in (vi, st\<lparr>vertices := vertices st @ [(digest, vi)], nextNum := nextNum st + 1\<rparr>)))"

definition set_vertex :: "string \<Rightarrow> vertexInfo \<Rightarrow> progress \<Rightarrow> progress" where
  "set_vertex digest vi st = st\<lparr>vertices := AList.update digest vi (vertices st)\<rparr>"

definition nl :: string where
  "nl = [CHR 0x0A]"

definition numbered :: "vertexInfo \<Rightarrow> string \<Rightarrow> string" where
  "numbered vi txt = ''#'' @ Itoa (num vi) @ '' '' @ txt @ nl"

text \<open>\<open>%.1f\<close> of a duration in seconds.\<close>

definition half_even :: "rat \<Rightarrow> int" where
  "half_even x = (let n = \<lfloor>x\<rfloor>; r = x - of_int n in
     if r < 1 / 2 then n else if r > 1 / 2 then n + 1 else if even n then n else n + 1)"

definition seconds_f :: "int \<Rightarrow> float64" where
  "seconds_f d =
     (let s = sgn d * (\<bar>d\<bar> div 1000000000); ns = sgn d * (\<bar>d\<bar> mod 1000000000)
      in fadd (float_of_int s) (fdiv (float_of_int ns) (float_of_int 1000000000)))"

definition show_tenths :: "float64 \<Rightarrow> string" where
  "show_tenths x = (let n = nat (half_even (\<bar>x\<bar> * 10)) in
     (if x < 0 then ''-'' else []) @ Itoa (n div 10) @ ''.'' @ Itoa (n mod 10))"

text \<open>\<open>Sub\<close> saturates at the bounds of a 64-bit duration.\<close>

definition time_sub :: "int \<Rightarrow> int \<Rightarrow> int" where
  "time_sub a b = max (- (2 ^ 63)) (min (2 ^ 63 - 1) (a - b))"

definition start_vertex :: "(string \<Rightarrow> int option) \<Rightarrow> rawVertex \<Rightarrow> progress \<Rightarrow> progress" where
  "start_vertex parse_time v st =
     (case getVertex (Digest v) (vName v) st of
        (vi, st1) \<Rightarrow>
          if vStarted v \<noteq> [] \<and> \<not> started vi then
            (let vi' = vi\<lparr>started := True,
                   startTime := (case parse_time (vStarted v) of Some t \<Rightarrow> t | None \<Rightarrow> startTime vi)\<rparr>
             in emit (numbered vi' (name vi')) (set_vertex (Digest v) vi' st1))
          else st1)"

definition done_text :: "(string \<Rightarrow> int option) \<Rightarrow> rawVertex \<Rightarrow> vertexInfo \<Rightarrow> string" where
  "done_text parse_time v vi =
     (if Cached v then ''CACHED''
      else ''DONE'' @ (case parse_time (vCompleted v) of
        Some t \<Rightarrow> if startTime vi \<noteq> zero_time then '' '' @ show_tenths (seconds_f (time_sub t (startTime vi))) @ ''s'' else []
      | None \<Rightarrow> []))"

definition complete_vertex :: "(string \<Rightarrow> int option) \<Rightarrow> rawVertex \<Rightarrow> progress \<Rightarrow> progress" where
  "complete_vertex parse_time v st =
     (case getVertex (Digest v) (vName v) st of
        (vi, st1) \<Rightarrow>
          if vCompleted v \<noteq> [] \<and> \<not> completed vi then
            (let vi' = vi\<lparr>completed := True, cached := Cached v\<rparr>
             in emit nl (emit (numbered vi' (done_text parse_time v vi')) (set_vertex (Digest v) vi' st1)))
          else st1)"

definition process_vertex :: "(string \<Rightarrow> int option) \<Rightarrow> rawVertex \<Rightarrow> progress \<Rightarrow> progress" where
  "process_vertex parse_time v st = complete_vertex parse_time v (start_vertex parse_time v st)"

text \<open>\<open>base64.StdEncoding.DecodeString\<close>.\<close>

definition b64_val :: "char \<Rightarrow> nat option" where
  "b64_val c = (let n = of_char c :: nat in
     if 65 \<le> n \<and> n \<le> 90 then Some (n - 65)
     else if 97 \<le> n \<and> n \<le> 122 then Some (n - 71)
     else if 48 \<le> n \<and> n \<le> 57 then Some (n + 4)
     else if n = 43 then Some 62 else if n = 47 then Some 63 else None)"

fun b64_quads :: "string \<Rightarrow> string option" where
  "b64_quads [] = Some []"
| "b64_quads (a # b # c # d # t) =
     (case (b64_val a, b64_val b, b64_val c, b64_val d) of
        (Some w, Some x, Some y, Some z) \<Rightarrow>
          map_option (\<lambda>r. byte (w * 4 + x div 16) # byte (x mod 16 * 16 + y div 4) # byte (y mod 4 * 64 + z) # r)
            (b64_quads t)
      | (Some w, Some x, Some y, None) \<Rightarrow>
          if d = CHR ''='' \<and> t = [] then Some [byte (w * 4 + x div 16), byte (x mod 16 * 16 + y div 4)] else None
      | (Some w, Some x, None, None) \<Rightarrow>
          if c = CHR ''='' \<and> d = CHR ''='' \<and> t = [] then Some [byte (w * 4 + x div 16)] else None
      | _ \<Rightarrow> None)"
| "b64_quads _ = None"

definition DecodeString :: "string \<Rightarrow> string option" where
  "DecodeString s = b64_quads (filter (\<lambda>c. c \<noteq> CHR 0x0A \<and> c \<noteq> CHR 0x0D) s)"

definition process_log :: "rawVtxLog \<Rightarrow> progress \<Rightarrow> progress" where
  "process_log l st =
     (case getVertex (lVertex l) [] st of
        (vi, st1) \<Rightarrow>
          (case DecodeString (Data l) of
             None \<Rightarrow> st1
           | Some txt \<Rightarrow>
               fold (\<lambda>logLine. emit (numbered vi logLine)) (Split (CHR 0x0A) (TrimRight txt (CHR 0x0A))) st1))"

definition process_status :: "rawVtxStatus \<Rightarrow> progress \<Rightarrow> progress" where
  "process_status s st =
     (if sCompleted s = [] then st
      else case getVertex (sVertex s) [] st of
        (vi, st1) \<Rightarrow> emit (numbered vi (sName s @ '' done'')) st1)"

definition process_line ::
    "(string \<Rightarrow> rawMessage option) \<Rightarrow> (string \<Rightarrow> int option) \<Rightarrow> string \<Rightarrow> progress \<Rightarrow> progress" where
  "process_line unmarshal parse_time line st =
     (if line = [] then st
      else case unmarshal line of
        None \<Rightarrow> emit (line @ nl) st
      | Some msg \<Rightarrow>
          fold process_status (Statuses msg)
            (fold process_log (mLogs msg) (fold (process_vertex parse_time) (Vertexes msg) st)))"

text \<open>The lines that the scanner delivers: a carriage return before the line feed goes, and
  a line that does not fit the buffer of one megabyte ends the scan.\<close>

definition scan_tokens :: "string \<Rightarrow> string list" where
  "scan_tokens txt =
     (let ls = Split (CHR 0x0A) txt; ls = (if last ls = [] then butlast ls else ls)
      in map (\<lambda>l. TrimSuffix l [CHR 0x0D]) (takeWhile (\<lambda>l. length l < 1024 * 1024) ls))"

definition init_progress :: progress where
  "init_progress = \<lparr>logBuf = [], emitted = [], vertices = [], nextNum = 1\<rparr>"

definition read_progress ::
    "(string \<Rightarrow> rawMessage option) \<Rightarrow> (string \<Rightarrow> int option) \<Rightarrow> string \<Rightarrow> progress" where
  "read_progress unmarshal parse_time txt =
     fold (process_line unmarshal parse_time) (scan_tokens txt) init_progress"

subsection \<open>The build\<close>

record buildctl_run =
  dockerfile_missing :: bool
  pipe_error :: bool
  start_error :: bool
  stderr_text :: string
  exit_error :: bool
  ctx_error :: bool

datatype build_error = NoDockerfile string | BadArgKey string | NoPipe | NoStart | ContextEnded
  | BuildctlFailed string

definition user_done :: "vertexInfo \<Rightarrow> bool" where
  "user_done vi \<longleftrightarrow> completed vi \<and> isUserStep (name vi)"

definition cache_rate :: "vertexInfo list \<Rightarrow> float64" where
  "cache_rate vs =
     (let total' = length (filter user_done vs); hits = length (filter (\<lambda>vi. user_done vi \<and> cached vi) vs)
      in if total' > 0 then fmul (fdiv (float_of_int (int hits)) (float_of_int (int total'))) (float_of_int 100)
         else -1)"

definition err_tail :: "string \<Rightarrow> string" where
  "err_tail txt = (if length txt > 4096 then drop (length txt - 4096) txt else txt)"

definition Build ::
    "(string \<Rightarrow> rawMessage option) \<Rightarrow> (string \<Rightarrow> int option) \<Rightarrow> Client \<Rightarrow> BuildOptions \<Rightarrow> buildctl_run \<Rightarrow>
     (build_error, BuildResult) outcome \<times> string list" where
  "Build unmarshal parse_time c opts p =
     (if dockerfile_missing p then (Err (NoDockerfile (ContextDir opts @ ''/'' @ oDockerfile opts)), [])
      else case buildctl_args c opts of
        Inl k \<Rightarrow> (Err (BadArgKey k), [])
      | Inr args \<Rightarrow>
          if pipe_error p then (Err NoPipe, [])
          else if start_error p then (Err NoStart, [])
          else
            (let st = read_progress unmarshal parse_time (stderr_text p) in
             (if exit_error p then
                (if ctx_error p then Err ContextEnded else Err (BuildctlFailed (err_tail (logBuf st))))
              else Ret \<lparr>ImageDigest = [], rCacheHitRate = cache_rate (map snd (vertices st))\<rparr>,
              emitted st)))"

subsection \<open>The numbering of vertices and the log buffer\<close>

definition log_ok :: "string \<Rightarrow> string list \<Rightarrow> bool" where
  "log_ok buf ls \<longleftrightarrow> (\<exists>k. buf = concat (take k ls) \<and> (k < length ls \<longrightarrow> maxLogBytes \<le> length buf))"

definition progress_ok :: "progress \<Rightarrow> bool" where
  "progress_ok st \<longleftrightarrow> distinct (map fst (vertices st)) \<and> 1 \<le> nextNum st \<and>
     map (\<lambda>(d, vi). num vi) (vertices st) = [1..<nextNum st] \<and> log_ok (logBuf st) (emitted st)"

lemma emit_simps [simp]: "vertices (emit l st) = vertices st" "nextNum (emit l st) = nextNum st"
  "emitted (emit l st) = emitted st @ [l]"
  by (simp_all add: emit_def)

lemma emit_ok: "progress_ok st \<Longrightarrow> progress_ok (emit l st)"
proof -
  assume ok: "progress_ok st"
  then obtain k where k: "logBuf st = concat (take k (emitted st))"
    "k < length (emitted st) \<longrightarrow> maxLogBytes \<le> length (logBuf st)" by (auto simp: progress_ok_def log_ok_def)
  have "\<exists>j. logBuf (emit l st) = concat (take j (emitted st @ [l])) \<and>
      (j < length (emitted st @ [l]) \<longrightarrow> maxLogBytes \<le> length (logBuf (emit l st)))"
  proof (cases "length (logBuf st) < maxLogBytes")
    case True
    then have "logBuf st = concat (emitted st)" using k by auto
    then show ?thesis using True by (intro exI [of _ "length (emitted st) + 1"]) (simp add: emit_def)
  next
    case False
    then show ?thesis using k
      by (intro exI [of _ "min k (length (emitted st))"]) (simp add: emit_def min_def)
  qed
  then show ?thesis using ok by (simp add: progress_ok_def log_ok_def)
qed

lemma getVertex_ok:
  assumes "progress_ok st" "getVertex d nm st = (vi, st')"
  shows "progress_ok st' \<and> map_of (vertices st') d = Some vi"
proof (cases "map_of (vertices st) d")
  case None
  then have "d \<notin> set (map fst (vertices st))" by (simp add: map_of_eq_None_iff)
  then show ?thesis using assms None
    by (auto simp: getVertex_def progress_ok_def Let_def map_add_Some_iff map_of_append)
qed (use assms in \<open>auto simp: getVertex_def\<close>)

lemma AList_update_num:
  assumes "map_of al d = Some vi" "num vi' = num vi" "distinct (map fst al)"
  shows "map (\<lambda>(d, vi). num vi) (AList.update d vi' al) = map (\<lambda>(d, vi). num vi) al"
  using assms by (induction al) (auto split: if_splits)

lemma AList_update_keys: "map_of al d = Some vi \<Longrightarrow> map fst (AList.update d vi' al) = map fst al"
  by (induction al) auto

lemma set_vertex_ok:
  assumes "progress_ok st" "map_of (vertices st) d = Some vi" "num vi' = num vi"
  shows "progress_ok (set_vertex d vi' st)"
  using assms AList_update_num [OF assms(2,3)] AList_update_keys [OF assms(2)]
  by (simp add: progress_ok_def set_vertex_def)

lemma process_vertex_ok: "progress_ok st \<Longrightarrow> progress_ok (process_vertex pt v st)"
proof -
  have start: "progress_ok st \<Longrightarrow> progress_ok (start_vertex pt v st)" for st
    using getVertex_ok [of st "Digest v" "vName v"] set_vertex_ok
    by (auto simp: start_vertex_def Let_def intro!: emit_ok split: prod.split)
  have "progress_ok st \<Longrightarrow> progress_ok (complete_vertex pt v st)" for st
    using getVertex_ok [of st "Digest v" "vName v"] set_vertex_ok
    by (auto simp: complete_vertex_def Let_def intro!: emit_ok split: prod.split)
  then show "progress_ok st \<Longrightarrow> ?thesis" using start by (simp add: process_vertex_def)
qed

lemma fold_ok: "progress_ok st \<Longrightarrow> (\<And>x st. progress_ok st \<Longrightarrow> progress_ok (f x st)) \<Longrightarrow> progress_ok (fold f xs st)"
  by (induction xs arbitrary: st) auto

lemma process_log_ok: "progress_ok st \<Longrightarrow> progress_ok (process_log l st)"
  using getVertex_ok [of st "lVertex l" "[]"]
  by (auto simp: process_log_def intro!: fold_ok emit_ok split: prod.split option.split)

lemma process_status_ok: "progress_ok st \<Longrightarrow> progress_ok (process_status s st)"
  using getVertex_ok [of st "sVertex s" "[]"] by (auto simp: process_status_def intro!: emit_ok split: prod.split)

lemma process_line_ok: "progress_ok st \<Longrightarrow> progress_ok (process_line um pt line st)"
  by (auto simp: process_line_def intro!: emit_ok fold_ok process_vertex_ok process_log_ok process_status_ok split: option.split)

lemma read_progress_ok: "progress_ok (read_progress um pt txt)"
  unfolding read_progress_def
proof (rule fold_ok)
  show "progress_ok init_progress" by (simp add: progress_ok_def log_ok_def init_progress_def)
qed (rule process_line_ok)

subsection \<open>Base 64\<close>

definition b64_char :: "nat \<Rightarrow> char" where
  "b64_char n = byte (if n < 26 then n + 65 else if n < 52 then n + 71 else if n < 62 then n - 4
     else if n = 62 then 43 else 47)"

fun b64_encode :: "string \<Rightarrow> string" where
  "b64_encode [] = []"
| "b64_encode [a] = (let x = of_char a in [b64_char (x div 4), b64_char (x mod 4 * 16), CHR ''='', CHR ''=''])"
| "b64_encode [a, b] = (let x = of_char a; y = of_char b in
     [b64_char (x div 4), b64_char (x mod 4 * 16 + y div 16), b64_char (y mod 16 * 4), CHR ''=''])"
| "b64_encode (a # b # c # t) = (let x = of_char a; y = of_char b; z = of_char c in
     b64_char (x div 4) # b64_char (x mod 4 * 16 + y div 16) # b64_char (y mod 16 * 4 + z div 64) #
     b64_char (z mod 64) # b64_encode t)"

lemma b64_char_val: "n < 64 \<Longrightarrow> b64_val (b64_char n) = Some n"
  by (auto simp: b64_val_def b64_char_def byte_def Let_def)

lemma b64_bytes:
  fixes x y z :: nat
  assumes "x < 256" "y < 256" "z < 256"
  shows "x div 4 < 64" "x mod 4 * 16 + y div 16 < 64" "y mod 16 * 4 + z div 64 < 64" "z mod 64 < 64"
    "x div 4 * 4 + (x mod 4 * 16 + y div 16) div 16 = x"
    "(x mod 4 * 16 + y div 16) mod 16 * 16 + (y mod 16 * 4 + z div 64) div 4 = y"
    "(y mod 16 * 4 + z div 64) mod 4 * 64 + z mod 64 = z"
proof -
  have yz: "y div 16 < 16" "z div 64 < 4" using assms by (auto simp: less_mult_imp_div_less)
  have xm: "x mod 4 < 4" "y mod 16 < 16" by simp_all
  show "x div 4 < 64" "z mod 64 < 64" using assms by (auto simp: less_mult_imp_div_less)
  show "x mod 4 * 16 + y div 16 < 64" "y mod 16 * 4 + z div 64 < 64" using yz xm by linarith+
  have "(x mod 4 * 16 + y div 16) div 16 = x mod 4" "(x mod 4 * 16 + y div 16) mod 16 = y div 16"
    "(y mod 16 * 4 + z div 64) div 4 = y mod 16" "(y mod 16 * 4 + z div 64) mod 4 = z div 64"
    using yz by simp_all
  then show "x div 4 * 4 + (x mod 4 * 16 + y div 16) div 16 = x"
    "(x mod 4 * 16 + y div 16) mod 16 * 16 + (y mod 16 * 4 + z div 64) div 4 = y"
    "(y mod 16 * 4 + z div 64) mod 4 * 64 + z mod 64 = z"
    by (simp_all only: div_mult_mod_eq)
qed

lemma char_lt: "of_char c < (256::nat)"
  by (metis of_char_of of_char_mod_256 mod_less_divisor zero_less_numeral)

lemma char_quot:
  "(of_char c :: nat) div 16 div 16 = 0" "(of_char c :: nat) div 16 mod 16 = of_char c div 16"
  "(of_char c :: nat) div 64 div 4 = 0" "(of_char c :: nat) div 64 mod 4 = of_char c div 64"
proof -
  have "(of_char c :: nat) div 16 < 16" "(of_char c :: nat) div 64 < 4"
    using char_lt [of c] by (simp_all add: less_mult_imp_div_less)
  then show "(of_char c :: nat) div 16 div 16 = 0" "(of_char c :: nat) div 16 mod 16 = of_char c div 16"
    "(of_char c :: nat) div 64 div 4 = 0" "(of_char c :: nat) div 64 mod 4 = of_char c div 64" by simp_all
qed

lemma b64_quads_encode: "b64_quads (b64_encode s) = Some s"
proof (induction s rule: b64_encode.induct)
  case (2 a)
  show ?case using b64_bytes [of "of_char a" 0 0] char_lt [of a]
    by (simp add: Let_def b64_char_val) (simp add: b64_val_def)
next
  case (3 a b)
  show ?case using b64_bytes [of "of_char a" "of_char b" 0] char_lt [of a] char_lt [of b]
    by (simp add: Let_def b64_char_val) (simp add: b64_val_def char_quot)
next
  case (4 a b c t)
  then show ?case using b64_bytes [of "of_char a" "of_char b" "of_char c"] char_lt [of a] char_lt [of b] char_lt [of c]
    by (simp add: Let_def b64_char_val) (simp add: char_quot)
qed simp

lemma b64_char_plain: "b64_char n \<noteq> CHR 0x0A \<and> b64_char n \<noteq> CHR 0x0D"
proof -
  have "(of_char (b64_char n) :: nat) \<noteq> 10 \<and> (of_char (b64_char n) :: nat) \<noteq> 13"
    by (auto simp: b64_char_def byte_def)
  then show ?thesis by auto
qed

lemma b64_encode_plain: "c \<in> set (b64_encode s) \<Longrightarrow> c \<noteq> CHR 0x0A \<and> c \<noteq> CHR 0x0D"
  by (induction s rule: b64_encode.induct) (use b64_char_plain in \<open>auto simp: Let_def\<close>)

lemma DecodeString_encode: "DecodeString (b64_encode s) = Some s"
proof -
  have "filter (\<lambda>c. c \<noteq> CHR 0x0A \<and> c \<noteq> CHR 0x0D) (b64_encode s) = b64_encode s"
    using b64_encode_plain by (simp add: filter_id_conv)
  then show ?thesis using b64_quads_encode by (simp add: DecodeString_def)
qed

subsection \<open>Properties\<close>

lemma log_ok_tail: "log_ok buf ls \<Longrightarrow> \<exists>k. buf = concat (take k ls) \<and> (length buf < maxLogBytes \<longrightarrow> buf = concat ls)"
  unfolding log_ok_def by (metis leI not_less take_all)

text \<open>(C29) Whatever \<open>buildctl\<close> writes, the vertices of a build have distinct digests and are
  numbered 1, 2, 3, \<dots> in the order in which they first appear, and the kept log is the
  beginning of what was sent to the callback, all of it as long as it stays below ten
  megabytes; the error of a failed build carries at most its last 4096 bytes.\<close>

theorem progress_numbering:
  "let st = read_progress unmarshal parse_time txt in
     distinct (map fst (vertices st)) \<and>
     map (\<lambda>(d, vi). num vi) (vertices st) = [1..<Suc (length (vertices st))] \<and>
     (\<exists>k. logBuf st = concat (take k (emitted st))) \<and>
     (length (logBuf st) < maxLogBytes \<longrightarrow> logBuf st = concat (emitted st)) \<and>
     length (err_tail (logBuf st)) \<le> 4096 \<and> (\<exists>a. logBuf st = a @ err_tail (logBuf st))"
proof -
  let ?st = "read_progress unmarshal parse_time txt"
  have ok: "progress_ok ?st" by (rule read_progress_ok)
  then have "length (vertices ?st) = nextNum ?st - 1"
    by (metis length_map length_upt progress_ok_def)
  then have "Suc (length (vertices ?st)) = nextNum ?st" using ok by (simp add: progress_ok_def)
  moreover have "\<exists>a. t = a @ err_tail t" for t
  proof
    show "t = take (length t - 4096) t @ err_tail t" by (simp add: err_tail_def)
  qed
  moreover have "length (err_tail t) \<le> 4096" for t by (simp add: err_tail_def)
  moreover obtain k where "logBuf ?st = concat (take k (emitted ?st))"
    "length (logBuf ?st) < maxLogBytes \<longrightarrow> logBuf ?st = concat (emitted ?st)"
    using ok log_ok_tail [of "logBuf ?st" "emitted ?st"] unfolding progress_ok_def by blast
  ultimately show ?thesis using ok unfolding progress_ok_def Let_def by metis
qed

theorem progress_numbering_witness:
  "map (\<lambda>(d, vi). num vi) (vertices (read_progress (\<lambda>_. Some \<lparr>Vertexes = [], Statuses = [],
      mLogs = [\<lparr>lVertex = ''sha'', Stream = 1, Data = ''aGk='', lTimestamp = []\<rparr>]\<rparr>) (\<lambda>_. None) ''x'')) = [1]"
proof -
  let ?st = "read_progress (\<lambda>_. Some \<lparr>Vertexes = [], Statuses = [],
      mLogs = [\<lparr>lVertex = ''sha'', Stream = 1, Data = ''aGk='', lTimestamp = []\<rparr>]\<rparr>) (\<lambda>_. None) ''x''"
  have "length (vertices ?st) = 1"
    by (simp add: read_progress_def scan_tokens_def process_line_def process_log_def getVertex_def
        init_progress_def DecodeString_def b64_val_def TrimSuffix_def HasSuffix_def TrimRight_def byte_def Let_def)
  then show ?thesis
    using progress_numbering [of "\<lambda>_. Some \<lparr>Vertexes = [], Statuses = [],
      mLogs = [\<lparr>lVertex = ''sha'', Stream = 1, Data = ''aGk='', lTimestamp = []\<rparr>]\<rparr>" "\<lambda>_. None" "''x''"]
    by (simp add: Let_def)
qed

text \<open>(C30) The cache hit rate is \<open>-1\<close> exactly when no user step was completed, otherwise a
  percentage: 100 when every completed user step was cached, 0 when none was, and always
  between the two.\<close>

theorem cache_rate_bounds:
  "(cache_rate vs = -1 \<longleftrightarrow> filter user_done vs = []) \<and>
   (filter user_done vs \<noteq> [] \<longrightarrow> 0 \<le> cache_rate vs \<and> cache_rate vs \<le> 100 \<and>
      ((\<forall>vi \<in> set vs. user_done vi \<longrightarrow> cached vi) \<longrightarrow> cache_rate vs = 100) \<and>
      ((\<forall>vi \<in> set vs. user_done vi \<longrightarrow> \<not> cached vi) \<longrightarrow> cache_rate vs = 0))"
proof (cases "filter user_done vs = []")
  case False
  let ?t = "int (length (filter user_done vs))" and ?h = "int (length (filter (\<lambda>vi. user_done vi \<and> cached vi) vs))"
  let ?q = "fdiv (float_of_int ?h) (float_of_int ?t)"
  have t: "0 < ?t" using False by simp
  have h: "?h \<le> ?t" by (induction vs) auto
  have r: "cache_rate vs = fmul ?q 100" using False float_of_int_exact [of 100] by (simp add: cache_rate_def)
  have q: "0 \<le> ?q" "?q \<le> 1"
    using fdiv_unit [OF float_of_int_nonneg float_of_int_mono [OF h]] by auto
  then have "0 \<le> fmul ?q 100 \<and> fmul ?q 100 \<le> 100" using f64_range [of 0 "?q * 100" 100] by (simp add: fmul_def)
  moreover have "fmul ?q 100 = 100" if "\<forall>vi \<in> set vs. user_done vi \<longrightarrow> cached vi"
  proof -
    have "filter (\<lambda>vi. user_done vi \<and> cached vi) vs = filter user_done vs" using that by (auto intro: filter_cong)
    then have "?q = 1" using float_of_int_pos [OF t] by (simp add: fdiv_def)
    then show ?thesis using f64_int [of 100] by (simp add: fmul_def)
  qed
  moreover have "fmul ?q 100 = 0" if "\<forall>vi \<in> set vs. user_done vi \<longrightarrow> \<not> cached vi"
  proof -
    have "filter (\<lambda>vi. user_done vi \<and> cached vi) vs = []" using that by (auto simp: filter_empty_conv)
    then show ?thesis by (simp add: fmul_def)
  qed
  ultimately show ?thesis using False r by auto
qed (simp add: cache_rate_def)

theorem cache_rate_bounds_witness:
  "cache_rate [\<lparr>num = 1, name = ''x'', started = True, completed = False, cached = False, startTime = 0\<rparr>] = -1"
  using cache_rate_bounds [of "[\<lparr>num = 1, name = ''x'', started = True, completed = False, cached = False, startTime = 0\<rparr>]"]
  by (simp add: user_done_def)

lemma build_arg_flags_eq:
  "build_arg_flags al =
     (case find (\<lambda>(k, v). \<not> isValidBuildArgKey k) al of
        Some (k, v) \<Rightarrow> Inl k
      | None \<Rightarrow> Inr (map (\<lambda>(k, v). ''--opt=build-arg:'' @ k @ ''='' @ v) al))"
  by (induction al rule: build_arg_flags.induct) (auto split: option.split)

lemma valid_key_no_eq: "isValidBuildArgKey k \<Longrightarrow> CHR ''='' \<notin> set k"
  by (auto simp: isValidBuildArgKey_def list_all_iff arg_key_char_def Let_def)

lemma SplitN2_key: "c \<notin> set k \<Longrightarrow> SplitN2 c (k @ c # v) = [k, v]"
  by (induction k) (auto simp: SplitN2_def)

text \<open>(C31) Build arguments reach \<open>buildctl\<close> unchanged: when the command line is built at all,
  its last arguments are the build arguments in order, and cutting each behind the prefix at its
  first equals sign gives back the key and the value, whatever characters the value has. It is
  built unless some key is empty or has a character outside letters, digits, \<open>_\<close>, \<open>-\<close>, \<open>.\<close>.\<close>

theorem build_args_roundtrip:
  "(case buildctl_args c opts of
      Inl k \<Rightarrow> k \<in> fst ` set (BuildArgs opts) \<and> \<not> isValidBuildArgKey k
    | Inr args \<Rightarrow>
        (\<exists>flags. args = base_args c opts @ flags \<and>
           map (\<lambda>f. SplitN2 (CHR ''='') (TrimPrefix f ''--opt=build-arg:'')) flags = map (\<lambda>(k, v). [k, v]) (BuildArgs opts)) \<and>
        (\<forall>(k, v) \<in> set (BuildArgs opts). isValidBuildArgKey k))"
proof (cases "find (\<lambda>(k, v). \<not> isValidBuildArgKey k) (BuildArgs opts)")
  case None
  then have valid: "\<forall>(k, v) \<in> set (BuildArgs opts). isValidBuildArgKey k" by (auto simp: find_None_iff)
  let ?flag = "\<lambda>(k, v). ''--opt=build-arg:'' @ k @ ''='' @ v"
  have "SplitN2 (CHR ''='') (TrimPrefix (?flag (k, v)) ''--opt=build-arg:'') = [k, v]" if "(k, v) \<in> set (BuildArgs opts)" for k v
    using valid that SplitN2_key [OF valid_key_no_eq, of k v] by (auto simp: TrimPrefix_def HasPrefix_def)
  then have "map (\<lambda>f. SplitN2 (CHR ''='') (TrimPrefix f ''--opt=build-arg:'')) (map ?flag (BuildArgs opts)) =
      map (\<lambda>(k, v). [k, v]) (BuildArgs opts)" by auto
  moreover have "buildctl_args c opts = Inr (base_args c opts @ map ?flag (BuildArgs opts))"
    using None by (simp add: buildctl_args_def build_arg_flags_eq)
  ultimately show ?thesis using valid by auto
next
  case (Some kv)
  then obtain k v where "kv = (k, v)" "(k, v) \<in> set (BuildArgs opts)" "\<not> isValidBuildArgKey k"
    by (cases kv) (auto simp: find_Some_iff dest: nth_mem)
  then show ?thesis using Some by (force simp: buildctl_args_def build_arg_flags_eq)
qed

theorem build_args_roundtrip_witness:
  "\<forall>k. buildctl_args \<lparr>buildctlPath = ''b'', buildkitAddr = ''a''\<rparr> \<lparr>ContextDir = ''/d'', oDockerfile = ''Dockerfile'', OutputTag = [], CacheFrom = [], CacheTo = [],
      BuildArgs = [(''A'', ''1=2'')]\<rparr> \<noteq> Inl k"
  using build_args_roundtrip [where c = "\<lparr>buildctlPath = ''b'', buildkitAddr = ''a''\<rparr>" and opts = "\<lparr>ContextDir = ''/d'', oDockerfile = ''Dockerfile'', OutputTag = [], CacheFrom = [], CacheTo = [],
      BuildArgs = [(''A'', ''1=2'')]\<rparr>"]
  by (auto simp: isValidBuildArgKey_def arg_key_char_def Let_def)

end
