(* ===== verification/Worker.thy ===== *)
theory Worker
  imports Domain Buildkit Blob_Store
begin

text \<open>
  The worker of \<open>src/server/internal/worker/worker.go\<close>: its main loop with the busy flag, its
  list of cache keys, and the execution of one build from the poll to the report.

  The server answers over HTTP: \<open>net\<close> maps the requests made so far and the next one to a
  response, or to nothing when the request fails; the requests are collected in \<open>reqs\<close>.
  Files live in a file system of theory \<open>Blob_Store\<close>. Unpacking gzip and tar
  (\<open>compress/gzip\<close>, \<open>archive/tar\<close>) is the parameter \<open>untar\<close>, which yields the entries of an
  archive up to its end or to the first error. The text of an error is \<open>err_text\<close>. A panic
  ends the process: the goroutine that executes builds does not recover from it.
\<close>

subsection \<open>State\<close>

record Worker =
  wkID :: string
  Hostname :: string
  IP :: string
  ServerURL :: string
  BuildkitAddr :: string
  WorkDir :: string
  CacheRegistry :: string
  cacheKeys :: "string list"
  s3Client :: "S3Config option"
  s3Bucket :: string

definition NewWorker :: "string \<Rightarrow> string \<Rightarrow> string \<Rightarrow> string \<Rightarrow> string \<Rightarrow> string \<Rightarrow> Worker" where
  "NewWorker new_uuid hostname serverURL addr workDir registry =
     \<lparr>wkID = new_uuid, Hostname = hostname, IP = [], ServerURL = TrimRight serverURL sep, BuildkitAddr = addr,
      WorkDir = workDir, CacheRegistry = registry, cacheKeys = [], s3Client = None, s3Bucket = []\<rparr>"

text \<open>\<open>minio_ok\<close> says whether \<open>minio.New\<close> accepts the options.\<close>

definition initS3 :: "(nat \<Rightarrow> nat) \<Rightarrow> (string \<Rightarrow> string) \<Rightarrow> (S3Config \<Rightarrow> bool) \<Rightarrow> Worker \<Rightarrow> Worker" where
  "initS3 L getenv minio_ok w =
     (if getenv ''S3_ENDPOINT'' = [] then w
      else
        (let cfg = s3_config L getenv; w = w\<lparr>s3Bucket := Bucket cfg\<rparr> in
         if minio_ok cfg then w\<lparr>s3Client := Some cfg\<rparr> else w))"

definition getCacheKeys :: "Worker \<Rightarrow> string list" where
  "getCacheKeys w = cacheKeys w"

fun add_keys :: "string list \<Rightarrow> string list \<Rightarrow> string list" where
  "add_keys keys [] = keys"
| "add_keys keys (instr # r) =
     (let seen = list_ex (\<lambda>k. k = instr) keys in add_keys (if seen then keys else keys @ [instr]) r)"

definition trim_keys :: "string list \<Rightarrow> string list" where
  "trim_keys keys = (if length keys > 512 then drop (length keys - 512) keys else keys)"

definition addCacheKeys :: "string list \<Rightarrow> Worker \<Rightarrow> Worker" where
  "addCacheKeys instructions w = w\<lparr>cacheKeys := trim_keys (add_keys (cacheKeys w) instructions)\<rparr>"

subsection \<open>The main loop\<close>

text \<open>
  \<open>busy\<close> is the flag, \<open>running\<close> the number of goroutines inside \<open>tryExecuteBuild\<close>, \<open>beats\<close>
  the statuses sent as heartbeats. Ticks and the ends of builds come in any order.
\<close>

record loop_state =
  busy :: bool
  running :: nat
  beats :: "string list"

inductive loop_step :: "loop_state \<Rightarrow> loop_state \<Rightarrow> bool" where
  heartbeat: "loop_step s (s\<lparr>beats := beats s @ [if busy s then ''busy'' else ''idle'']\<rparr>)"
| poll_busy: "busy s \<Longrightarrow> loop_step s s"
| poll_free: "\<not> busy s \<Longrightarrow> loop_step s (s\<lparr>busy := True, running := running s + 1\<rparr>)"
| build_ends: "0 < running s \<Longrightarrow> loop_step s (s\<lparr>busy := False, running := running s - 1\<rparr>)"

definition loop_start :: loop_state where
  "loop_start = \<lparr>busy = False, running = 0, beats = []\<rparr>"

subsection \<open>Talking to the server\<close>

datatype http_req =
    GetNext string
  | GetBuild string
  | GetBlob string
  | PostLog string string
  | PostComplete string status string float64
  | PostHeartbeat worker

text \<open>A response: its code, the build its body decodes to, and the bytes of its body.\<close>

record http_resp =
  code :: nat
  jbuild :: "build option"
  payload :: string

type_synonym net = "http_req list \<Rightarrow> http_req \<Rightarrow> http_resp option"

record world =
  reqs :: "http_req list"
  files :: fs
  wk :: Worker

definition do_req :: "net \<Rightarrow> http_req \<Rightarrow> world \<Rightarrow> http_resp option \<times> world" where
  "do_req net r w = (net (reqs w) r, w\<lparr>reqs := reqs w @ [r]\<rparr>)"

definition doPost :: "net \<Rightarrow> http_req \<Rightarrow> world \<Rightarrow> nat option \<times> world" where
  "doPost net r w = (case do_req net r w of (resp, w') \<Rightarrow> (map_option code resp, w'))"

definition sendHeartbeat :: "net \<Rightarrow> string \<Rightarrow> world \<Rightarrow> world" where
  "sendHeartbeat net st w =
     snd (doPost net (PostHeartbeat \<lparr>wID = wkID (wk w), wHostname = Hostname (wk w), wIP = IP (wk w), wStatus = st,
       wLastHeartbeat = 0, wCacheKeys = getCacheKeys (wk w)\<rparr>) w)"

text \<open>Attempts left; \<open>ctx_done n\<close> says whether the context has ended before attempt \<open>n\<close>.\<close>

fun send_attempts :: "net \<Rightarrow> (nat \<Rightarrow> bool) \<Rightarrow> nat \<Rightarrow> nat \<Rightarrow> http_req \<Rightarrow> world \<Rightarrow> world" where
  "send_attempts net ctx_done i 0 r w = w"
| "send_attempts net ctx_done i (Suc n) r w =
     (if ctx_done i then w
      else case doPost net r w of
        (res, w') \<Rightarrow> if res = Some 200 then w' else send_attempts net ctx_done (i + 1) n r w')"

definition sendLog :: "net \<Rightarrow> (nat \<Rightarrow> bool) \<Rightarrow> string \<Rightarrow> string \<Rightarrow> world \<Rightarrow> world" where
  "sendLog net ctx_done buildID line w = send_attempts net ctx_done 0 3 (PostLog buildID line) w"

definition completeBuild :: "net \<Rightarrow> string \<Rightarrow> status \<Rightarrow> string \<Rightarrow> float64 \<Rightarrow> world \<Rightarrow> world" where
  "completeBuild net buildID st errMsg rate w =
     send_attempts net (\<lambda>_. False) 0 3 (PostComplete buildID st errMsg rate) w"

definition isBuildCancelled :: "net \<Rightarrow> string \<Rightarrow> world \<Rightarrow> bool \<times> world" where
  "isBuildCancelled net buildID w =
     (case do_req net (GetBuild buildID) w of
        (None, w') \<Rightarrow> (False, w')
      | (Some resp, w') \<Rightarrow> (case jbuild resp of None \<Rightarrow> False | Some b \<Rightarrow> Status b = StatusCancelled, w'))"

subsection \<open>Unpacking the context\<close>

datatype typeflag = TypeDir | TypeReg | TypeOther

record tar_entry =
  hName :: string
  Typeflag :: typeflag
  content :: string

text \<open>One entry; \<open>False\<close> is the error of creating a file. Failures to make directories or to
  copy are ignored by the code: \<open>flt 0\<close>, \<open>flt 2\<close>.\<close>

definition try_mkdir :: "faults \<Rightarrow> string list \<Rightarrow> fs \<Rightarrow> fs" where
  "try_mkdir flt p f = (if flt 0 \<noteq> None then f else snd (mkdir_all [] p f))"

definition extract_entry :: "string list \<Rightarrow> string \<Rightarrow> faults \<Rightarrow> tar_entry \<Rightarrow> fs \<Rightarrow> bool \<times> fs" where
  "extract_entry cwd dest flt h f =
     (let path = path_join dest (hName h) in
      if \<not> HasPrefix (Clean path) (Clean dest @ [sep]) then (True, f)
      else case Typeflag h of
        TypeDir \<Rightarrow> (True, try_mkdir flt (walk cwd path) f)
      | TypeReg \<Rightarrow>
         (let f1 = try_mkdir flt (walk cwd (path_dir path)) f in
          if flt 1 \<noteq> None then (False, f1)
          else case os_create (walk cwd path) f1 of
            None \<Rightarrow> (False, f1)
          | Some f2 \<Rightarrow>
              (True, AList.update (walk cwd path)
                 (File (case flt 2 of None \<Rightarrow> content h | Some k \<Rightarrow> take k (content h))) f2))
      | TypeOther \<Rightarrow> (True, f))"

fun extract_entries :: "string list \<Rightarrow> string \<Rightarrow> (nat \<Rightarrow> faults) \<Rightarrow> nat \<Rightarrow> tar_entry list \<Rightarrow> fs \<Rightarrow> bool \<times> fs" where
  "extract_entries cwd dest flt n [] f = (True, f)"
| "extract_entries cwd dest flt n (h # hs) f =
     (case extract_entry cwd dest (flt n) h f of
        (ok, f') \<Rightarrow> if ok then extract_entries cwd dest flt (n + 1) hs f' else (False, f'))"

text \<open>\<open>untar\<close>: \<open>None\<close> when the data is no gzip stream, otherwise the entries and whether the
  archive ends properly behind them.\<close>

definition extractTarGz ::
    "(string \<Rightarrow> (tar_entry list \<times> bool) option) \<Rightarrow> string list \<Rightarrow> (nat \<Rightarrow> faults) \<Rightarrow> string \<Rightarrow> string \<Rightarrow> fs \<Rightarrow> bool \<times> fs" where
  "extractTarGz untar cwd flt data dest f =
     (case untar data of
        None \<Rightarrow> (False, f)
      | Some (hs, eof) \<Rightarrow>
         (case extract_entries cwd dest flt 0 hs f of (ok, f') \<Rightarrow> (ok \<and> eof, f')))"

subsection \<open>Executing a build\<close>

datatype wk_error = MkdirFailed | DownloadFailed | WriteFailed | BuildCancelled | NoBuildctl | TimedOut int
  | BuildFailed build_error

text \<open>\<open>s3_get\<close>: \<open>None\<close> when the object cannot be opened or its state cannot be read.\<close>

record wk_env =
  network :: net
  getwd :: "string list"
  s3_get :: "string \<Rightarrow> string \<Rightarrow> string option"
  untar :: "string \<Rightarrow> (tar_entry list \<times> bool) option"
  entry_faults :: "nat \<Rightarrow> faults"
  mkdir_fault :: bool
  write_fault :: bool
  look_path :: "string option"
  unmarshal :: "string \<Rightarrow> rawMessage option"
  parse_time :: "string \<Rightarrow> int option"
  buildctl :: "string list \<Rightarrow> buildctl_run"
  deadline :: bool
  ctx_ended :: "nat \<Rightarrow> nat \<Rightarrow> bool"
  err_text :: "wk_error \<Rightarrow> string"

definition on_files :: "(fs \<Rightarrow> 'a \<times> fs) \<Rightarrow> world \<Rightarrow> 'a \<times> world" where
  "on_files g w = (case g (files w) of (x, f) \<Rightarrow> (x, w\<lparr>files := f\<rparr>))"

definition downloadContextHTTP :: "wk_env \<Rightarrow> string \<Rightarrow> string \<Rightarrow> world \<Rightarrow> bool \<times> world" where
  "downloadContextHTTP e buildID dest w =
     (case do_req (network e) (GetBlob (''/api/v1/blobs/contexts/'' @ buildID @ ''.tar.gz'')) w of
        (None, w') \<Rightarrow> (False, w')
      | (Some resp, w') \<Rightarrow>
          if code resp \<noteq> 200 then (False, w')
          else on_files (extractTarGz (untar e) (getwd e) (entry_faults e) (payload resp) dest) w')"

definition downloadContext :: "wk_env \<Rightarrow> string \<Rightarrow> string \<Rightarrow> world \<Rightarrow> bool \<times> world" where
  "downloadContext e buildID dest w =
     (case (if s3Client (wk w) \<noteq> None then s3_get e (s3Bucket (wk w)) (''contexts/'' @ buildID @ ''.tar.gz'') else None) of
        Some data \<Rightarrow> on_files (extractTarGz (untar e) (getwd e) (entry_faults e) data dest) w
      | None \<Rightarrow> downloadContextHTTP e buildID dest w)"

definition path_join3 :: "string \<Rightarrow> string \<Rightarrow> string \<Rightarrow> string" where
  "path_join3 a b c = (if a \<noteq> [] then Clean (a @ sep # b @ sep # c) else path_join b c)"

text \<open>The product of two \<open>time.Duration\<close> values wraps around.\<close>

definition build_timeout :: "build \<Rightarrow> int" where
  "build_timeout b =
     (let t = (TimeoutSeconds b * 1000000000 + 2 ^ 63) mod 2 ^ 64 - 2 ^ 63 in if t \<le> 0 then 600 * 1000000000 else t)"

definition send_lines :: "wk_env \<Rightarrow> string \<Rightarrow> string list \<Rightarrow> world \<Rightarrow> world" where
  "send_lines e buildID ls w =
     fold (\<lambda>(n, l) w. sendLog (network e) (ctx_ended e n) buildID l w) (zip [0..<length ls] ls) w"

definition build_opts :: "build \<Rightarrow> string \<Rightarrow> string \<Rightarrow> string \<Rightarrow> BuildOptions" where
  "build_opts b dir df ref =
     \<lparr>ContextDir = dir, oDockerfile = df, OutputTag = ImageTag b, CacheFrom = ref, CacheTo = ref, BuildArgs = Args b\<rparr>"

definition run_buildctl :: "wk_env \<Rightarrow> Client \<Rightarrow> BuildOptions \<Rightarrow> fs \<Rightarrow> (build_error, BuildResult) outcome \<times> string list" where
  "run_buildctl e c opts f =
     Build (unmarshal e) (parse_time e) c opts
       ((buildctl e (case buildctl_args c opts of Inr args \<Rightarrow> args | Inl _ \<Rightarrow> []))
          \<lparr>dockerfile_missing := (node_at f (walk (getwd e) (ContextDir opts @ sep # oDockerfile opts)) = None)\<rparr>)"

text \<open>The error of a build that did not succeed: the time limit first, then a cancellation.\<close>

definition build_failure :: "wk_env \<Rightarrow> build \<Rightarrow> build_error \<Rightarrow> world \<Rightarrow> wk_error \<times> world" where
  "build_failure e b err w =
     (if deadline e then (TimedOut (build_timeout b), w)
      else case isBuildCancelled (network e) (ID b) w of
        (canc, w') \<Rightarrow> (if canc then BuildCancelled else BuildFailed err, w'))"

definition executeBuild :: "wk_env \<Rightarrow> build \<Rightarrow> string \<Rightarrow> string \<Rightarrow> world \<Rightarrow> (wk_error, BuildResult) outcome \<times> world" where
  "executeBuild e b dir df w =
     (case isBuildCancelled (network e) (ID b) w of
        (canc, w1) \<Rightarrow>
          if canc then (Err BuildCancelled, w1)
          else case NewClient (look_path e) (BuildkitAddr (wk w)) of
            None \<Rightarrow> (Err NoBuildctl, w1)
          | Some c \<Rightarrow>
             (case (if CacheRegistry (wk w) \<noteq> [] then
                      map_option (\<lambda>fp. CacheRegistry (wk w) @ ''/'' @ fp) (slice_to (Fingerprint b) 16)
                    else Some []) of
                None \<Rightarrow> (Panic, w1)
              | Some ref \<Rightarrow>
                 (case run_buildctl e c (build_opts b dir df ref) (files w1) of
                    (res, ls) \<Rightarrow>
                      (let w2 = send_lines e (ID b) ls w1 in
                       case res of
                         Ret r \<Rightarrow> (Ret r, w2)
                       | Err err \<Rightarrow> (case build_failure e b err w2 of (er, w3) \<Rightarrow> (Err er, w3))
                       | Panic \<Rightarrow> (Panic, w2)))))"

text \<open>The Dockerfile to build with: inline text becomes a file unless the context has one.\<close>

definition inline_df :: "string \<Rightarrow> bool" where
  "inline_df df \<longleftrightarrow> df = [] \<or> Contains df [CHR 0x0A] \<or> Contains df '' ''"

definition place_dockerfile :: "wk_env \<Rightarrow> build \<Rightarrow> string \<Rightarrow> fs \<Rightarrow> string option \<times> fs" where
  "place_dockerfile e b dir f =
     (if inline_df (Dockerfile b) then
        (let p = walk (getwd e) (path_join dir ''Dockerfile'') in
         if node_at f p \<noteq> None then (Some ''Dockerfile'', f)
         else if write_fault e then (None, f)
         else case os_create p f of
           None \<Rightarrow> (None, f)
         | Some f' \<Rightarrow> (Some ''Dockerfile'', AList.update p (File (Dockerfile b)) f'))
      else (Some (Dockerfile b), f))"

text \<open>\<open>os.RemoveAll\<close>, which refuses a path that ends in a dot.\<close>

definition remove_all :: "string list \<Rightarrow> string \<Rightarrow> fs \<Rightarrow> fs" where
  "remove_all cwd dir f =
     (if dir = ''.'' then f
      else let p = walk cwd dir in filter (\<lambda>(q, _). take (length p) q \<noteq> p) f)"

text \<open>The part of \<open>tryExecuteBuild\<close> behind the creation of the directory, which is removed at
  the end; \<open>False\<close> is a panic.\<close>

definition fail_build :: "wk_env \<Rightarrow> build \<Rightarrow> wk_error \<Rightarrow> world \<Rightarrow> world" where
  "fail_build e b err w = completeBuild (network e) (ID b) StatusFailed (err_text e err) (-1) w"

definition report_build :: "wk_env \<Rightarrow> build \<Rightarrow> (wk_error, BuildResult) outcome \<Rightarrow> world \<Rightarrow> bool \<times> world" where
  "report_build e b res w =
     (case res of
        Err err \<Rightarrow> (True, fail_build e b err w)
      | Ret r \<Rightarrow>
          (True, completeBuild (network e) (ID b) StatusSucceeded [] (rCacheHitRate r)
             (w\<lparr>wk := addCacheKeys (Instructions b) (wk w)\<rparr>))
      | Panic \<Rightarrow> (False, w))"

definition build_in_dir :: "wk_env \<Rightarrow> build \<Rightarrow> string \<Rightarrow> world \<Rightarrow> bool \<times> world" where
  "build_in_dir e b dir w =
     (case downloadContext e (ID b) dir w of
        (ok, w1) \<Rightarrow>
          if \<not> ok then (True, fail_build e b DownloadFailed w1)
          else case on_files (place_dockerfile e b dir) w1 of
            (None, w2) \<Rightarrow> (True, fail_build e b WriteFailed w2)
          | (Some df, w2) \<Rightarrow> (case executeBuild e b dir df w2 of (res, w3) \<Rightarrow> report_build e b res w3))"

definition run_assigned :: "wk_env \<Rightarrow> build \<Rightarrow> world \<Rightarrow> bool \<times> world" where
  "run_assigned e b w =
     (case slice_to (Fingerprint b) 12 of
        None \<Rightarrow> (False, w)
      | Some _ \<Rightarrow>
         (let dir = path_join3 (WorkDir (wk w)) ''builds'' (ID b) in
          if mkdir_fault e then (True, fail_build e b MkdirFailed w)
          else case mkdir_all [] (walk (getwd e) dir) (files w) of
            (ok, f) \<Rightarrow>
              if \<not> ok then (True, fail_build e b MkdirFailed (w\<lparr>files := f\<rparr>))
              else case build_in_dir e b dir (w\<lparr>files := f\<rparr>) of
                (fine, w') \<Rightarrow> (fine, w'\<lparr>files := remove_all (getwd e) dir (files w')\<rparr>)))"

definition tryExecuteBuild :: "wk_env \<Rightarrow> world \<Rightarrow> bool \<times> world" where
  "tryExecuteBuild e w =
     (case do_req (network e) (GetNext (wkID (wk w))) w of
        (None, w') \<Rightarrow> (True, w')
      | (Some resp, w') \<Rightarrow>
          if code resp \<noteq> 200 then (True, w')
          else case jbuild resp of
            None \<Rightarrow> (True, w')
          | Some b \<Rightarrow> if ID b = [] then (True, w') else run_assigned e b w')"

subsection \<open>The main loop runs one build at a time\<close>

lemma loop_inv: "loop_step\<^sup>*\<^sup>* loop_start s \<Longrightarrow> (busy s \<longleftrightarrow> running s = 1) \<and> running s \<le> 1"
  by (induction rule: rtranclp_induct) (auto simp: loop_start_def elim!: loop_step.cases)

subsection \<open>Cache keys\<close>

lemma list_ex_mem: "list_ex (\<lambda>k. k = x) ks \<longleftrightarrow> x \<in> set ks"
  by (auto simp: list_ex_iff)

lemma add_keys_set: "set (add_keys ks is) = set ks \<union> set is"
  by (induction ks "is" rule: add_keys.induct) (auto simp: Let_def list_ex_mem)

lemma add_keys_distinct: "distinct ks \<Longrightarrow> distinct (add_keys ks is)"
  by (induction ks "is" rule: add_keys.induct) (auto simp: Let_def list_ex_mem)

lemma add_keys_prefix: "\<exists>r. add_keys ks is = ks @ r"
proof (induction ks "is" rule: add_keys.induct)
  case (2 ks i r)
  then show ?case by (fastforce simp: Let_def list_ex_mem)
qed simp

lemma trim_keys_suffix: "\<exists>a. ks = a @ trim_keys ks"
proof
  show "ks = take (length ks - 512) ks @ trim_keys ks" by (simp add: trim_keys_def)
qed

lemma trim_keys_length: "length (trim_keys ks) = min 512 (length ks)"
  by (simp add: trim_keys_def)

lemma trim_keys_subset: "set (trim_keys ks) \<subseteq> set ks"
  using trim_keys_suffix [of ks] by (metis Un_upper2 set_append)

lemma trim_keys_distinct: "distinct ks \<Longrightarrow> distinct (trim_keys ks)"
  by (simp add: trim_keys_def)

subsection \<open>Posting with retries\<close>

lemma doPost_trace: "doPost net r w = (res, w') \<Longrightarrow> w' = w\<lparr>reqs := reqs w @ [r]\<rparr> \<and> res = map_option code (net (reqs w) r)"
  by (auto simp: doPost_def do_req_def)

lemma send_attempts_trace:
  "\<exists>k \<le> n. send_attempts net c i n r w = w\<lparr>reqs := reqs w @ replicate k r\<rparr> \<and>
     (0 < n \<longrightarrow> (\<forall>j. \<not> c j) \<longrightarrow> 0 < k) \<and>
     (\<forall>j < k. Suc j < k \<longrightarrow> map_option code (net (reqs w @ replicate j r) r) \<noteq> Some 200) \<and>
     ((\<forall>j. \<not> c j) \<longrightarrow> k < n \<longrightarrow> map_option code (net (reqs w @ replicate (k - 1) r) r) = Some 200)"
proof (induction n arbitrary: i w)
  case (Suc n)
  obtain res w1 where p: "doPost net r w = (res, w1)" by fastforce
  note t = doPost_trace [OF p]
  consider "c i" | "\<not> c i" "res = Some 200" | "\<not> c i" "res \<noteq> Some 200" by blast
  then show ?case
  proof cases
    case 1
    then show ?thesis by (intro exI [of _ 0]) auto
  next
    case 2
    then show ?thesis using p t by (intro exI [of _ 1]) auto
  next
    case 3
    obtain k where k: "k \<le> n" "send_attempts net c (i + 1) n r w1 = w1\<lparr>reqs := reqs w1 @ replicate k r\<rparr>"
      "0 < n \<longrightarrow> (\<forall>j. \<not> c j) \<longrightarrow> 0 < k"
      "\<forall>j < k. Suc j < k \<longrightarrow> map_option code (net (reqs w1 @ replicate j r) r) \<noteq> Some 200"
      "(\<forall>j. \<not> c j) \<longrightarrow> k < n \<longrightarrow> map_option code (net (reqs w1 @ replicate (k - 1) r) r) = Some 200"
      using Suc.IH [of "i + 1" w1] by blast
    have shift: "reqs w1 @ replicate j r = reqs w @ replicate (Suc j) r" for j
      using t by (simp add: replicate_app_Cons_same)
    have "map_option code (net (reqs w @ replicate j r) r) \<noteq> Some 200" if "Suc j < Suc k" for j
    proof (cases j)
      case 0
      then show ?thesis using 3 t by simp
    next
      case (Suc m)
      then show ?thesis using k(4) [rule_format, of m] that unfolding shift by auto
    qed
    moreover have "map_option code (net (reqs w @ replicate k r) r) = Some 200" if "\<forall>j. \<not> c j" "k < n"
    proof -
      have "0 < k" using k(3) that by simp
      then show ?thesis using k(5) that shift [of "k - 1"] by simp
    qed
    moreover have "send_attempts net c i (Suc n) r w = w\<lparr>reqs := reqs w @ replicate (Suc k) r\<rparr>"
      using 3 p k(2) t shift [of k] by (auto simp: replicate_app_Cons_same)
    ultimately show ?thesis using k(1) by (intro exI [of _ "Suc k"]) auto
  qed
qed simp

subsection \<open>Extraction stays in its directory\<close>

text \<open>The elements that cleaning keeps of a path that is not rooted: parent directories
  first, then plain names.\<close>

definition ups_first :: "string list \<Rightarrow> bool" where
  "ups_first out \<longleftrightarrow> (\<exists>k ps. out = ps @ replicate k ''..'' \<and> (\<forall>p \<in> set ps. plain p))"

lemma ups_first_step:
  assumes "ups_first out" "sep \<notin> set c"
  shows "ups_first (clean_step False c out)"
proof -
  obtain k ps where out: "out = ps @ replicate k ''..''" "\<forall>p \<in> set ps. plain p" using assms(1) by (auto simp: ups_first_def)
  consider "c = [] \<or> c = ''.''" | "c = ''..''" "ps = []" | p qs where "c = ''..''" "ps = p # qs" | "plain c"
    using assms(2) by (cases ps) (auto simp: plain_def)
  then show ?thesis
  proof cases
    case 1
    then show ?thesis using assms(1) by (auto simp: clean_step_def)
  next
    case 2
    then have "clean_step False c out = [] @ replicate (Suc k) ''..''" using out
      by (cases k) (auto simp: clean_step_def)
    then show ?thesis unfolding ups_first_def by (metis empty_iff empty_set)
  next
    case 3
    then have "clean_step False c out = qs @ replicate k ''..''" using out by (auto simp: clean_step_def plain_def)
    then show ?thesis using 3 out(2) unfolding ups_first_def by (metis list.set_intros(2))
  next
    case 4
    then have "clean_step False c out = (c # ps) @ replicate k ''..''" using out by (simp add: clean_step_plain)
    then show ?thesis using 4 out(2) unfolding ups_first_def by (metis set_ConsD)
  qed
qed

lemma ups_first_fold: "ups_first out \<Longrightarrow> (\<And>c. c \<in> set cs \<Longrightarrow> sep \<notin> set c) \<Longrightarrow> ups_first (fold (clean_step False) cs out)"
proof (induction cs arbitrary: out)
  case (Cons c cs)
  then show ?case using ups_first_step [of out c] by simp
qed simp

lemma relative_comps:
  assumes "\<not> rooted p"
  shows "\<exists>k ps. clean_comps p = replicate k ''..'' @ ps \<and> (\<forall>q \<in> set ps. plain q)"
proof -
  have "ups_first []" by (auto simp: ups_first_def intro!: exI [of _ 0])
  then have "ups_first (fold (clean_step False) (Split sep p) [])"
    by (rule ups_first_fold) (rule Split_no_sep)
  then obtain k ps where "fold (clean_step False) (Split sep p) [] = ps @ replicate k ''..''" "\<forall>q \<in> set ps. plain q"
    by (auto simp: ups_first_def)
  then show ?thesis using assms by (intro exI [of _ k] exI [of _ "rev ps"]) (simp add: clean_comps_def)
qed

lemma rooted_plain: "rooted p \<Longrightarrow> c \<in> set (clean_comps p) \<Longrightarrow> plain c"
  using kept_comps [of c p] by (simp add: kept_def plain_def)

lemma Split_Clean:
  "Split sep (Clean p) =
     (if rooted p then [] # (if clean_comps p = [] then [[]] else clean_comps p)
      else if clean_comps p = [] then [''.''] else clean_comps p)"
proof -
  have "\<And>c. c \<in> set (clean_comps p) \<Longrightarrow> sep \<notin> set c" using kept_comps by (auto simp: kept_def)
  then show ?thesis using Split_Join_kept [of "clean_comps p"] by (simp add: Clean_def)
qed

lemma Clean_nonempty: "Clean p \<noteq> []"
proof
  assume "Clean p = []"
  then have "Split sep (Clean p) = [[]]" by simp
  then show False using kept_comps [of "[]" p] by (auto simp: Split_Clean kept_def split: if_splits)
qed

lemma rooted_Clean: "rooted (Clean p) = rooted p"
proof (cases "rooted p \<or> clean_comps p = []")
  case True
  then show ?thesis by (auto simp: Clean_def rooted_def)
next
  case False
  then show ?thesis using Join_rooted [of "clean_comps p"] kept_comps by (auto simp: Clean_def)
qed

lemma walk_comps:
  assumes "\<And>c. c \<in> set (clean_comps p) \<Longrightarrow> plain c"
  shows "walk cwd p = (if rooted p then [] else cwd) @ clean_comps p"
proof -
  have s: "fold (clean_step True) (Split sep (Clean p)) z = rev (clean_comps p) @ z" for z
    using fold_plain [OF assms] by (simp add: Split_Clean clean_step_def)
  have "walk cwd p = walk cwd (Clean p)" by (rule walk_Clean [symmetric])
  also have "\<dots> = (if rooted p then [] else cwd) @ clean_comps p" by (simp add: walk_def s rooted_Clean)
  finally show ?thesis .
qed

text \<open>A path that passes the check of \<open>extractTarGz\<close> denotes something below the destination,
  when the destination is absolute or does not begin by going up.\<close>

lemma checked_path:
  assumes "HasPrefix (Clean p) (Clean dest @ [sep])" "rooted dest \<or> ''..'' \<notin> set (clean_comps dest)"
  shows "\<exists>ns. ns \<noteq> [] \<and> walk cwd p = walk cwd dest @ ns"
proof -
  obtain rest where "Clean p = Clean dest @ sep # rest" using assms(1) by (auto simp: HasPrefix_append)
  then have split: "Split sep (Clean p) = Split sep (Clean dest) @ Split sep rest" by (simp add: Split_append)
  have "Clean dest \<noteq> []" by (rule Clean_nonempty)
  then have r: "rooted p = rooted dest" using rooted_append [of "Clean dest" "sep # rest"] rooted_Clean
    by (metis \<open>Clean p = Clean dest @ sep # rest\<close>)
  have ne: "Split sep rest \<noteq> []" "[] \<noteq> Split sep rest" using Split_nonempty [of sep rest] by metis+
  have kept: "c \<noteq> [] \<and> c \<noteq> ''.''" if "c \<in> set (clean_comps p)" for c using kept_comps [OF that] by (simp add: kept_def)
  have ds: "clean_comps dest \<noteq> []"
  proof
    assume d: "clean_comps dest = []"
    show False
    proof (cases "rooted dest")
      case True
      then have "(if clean_comps p = [] then [[]] else clean_comps p) = [] # Split sep rest" using split d r by (simp add: Split_Clean)
      then show False using kept [of "[]"] ne by (auto split: if_splits)
    next
      case False
      then have "(if clean_comps p = [] then [''.''] else clean_comps p) = ''.'' # Split sep rest" using split d r by (simp add: Split_Clean)
      then show False using kept [of "''.''"] ne by (auto split: if_splits)
    qed
  qed
  then have cs: "clean_comps p = clean_comps dest @ Split sep rest"
    using split r ne by (cases "rooted dest") (auto simp: Split_Clean Cons_eq_append_conv split: if_splits)
  have "plain c" if "c \<in> set (clean_comps p)" for c
  proof (cases "rooted p")
    case True
    then show ?thesis using rooted_plain that by blast
  next
    case False
    then obtain k ps where k: "clean_comps p = replicate k ''..'' @ ps" "\<forall>q \<in> set ps. plain q" using relative_comps by blast
    have "k = 0"
    proof (rule ccontr)
      assume "k \<noteq> 0"
      then have "hd (clean_comps p) = ''..''" using k(1) by (cases k) auto
      then have "''..'' \<in> set (clean_comps dest)" using cs ds by (metis hd_append2 hd_in_set)
      then show False using assms(2) False r by blast
    qed
    then show ?thesis using k that by auto
  qed
  then have "walk cwd p = walk cwd dest @ Split sep rest"
    using walk_comps [of p cwd] walk_comps [of dest cwd] cs r by auto
  then show ?thesis using ne by blast
qed

lemma file_at_try_mkdir [simp]: "file_at (try_mkdir flt p f) q = file_at f q"
  by (simp add: try_mkdir_def)

lemma extract_entry_files:
  assumes "extract_entry cwd dest flt h f = (ok, f')" "rooted dest \<or> ''..'' \<notin> set (clean_comps dest)"
    and "\<And>ns. q \<noteq> walk cwd dest @ ns"
  shows "file_at f' q = file_at f q"
proof -
  let ?p = "path_join dest (hName h)"
  show ?thesis
  proof (cases "HasPrefix (Clean ?p) (Clean dest @ [sep])")
    case True
    then obtain ns where ns: "ns \<noteq> []" "walk cwd ?p = walk cwd dest @ ns" using checked_path assms(2) by blast
    then have q: "q \<noteq> walk cwd ?p" "walk cwd ?p \<noteq> []" using assms(3) by auto
    show ?thesis using assms(1) True q
      by (auto simp: extract_entry_def Let_def os_create_Some file_at_update split: typeflag.splits option.splits if_splits)
  qed (use assms(1) in \<open>auto simp: extract_entry_def Let_def\<close>)
qed

lemma extract_entries_files:
  assumes "extract_entries cwd dest flt n hs f = (ok, f')" "rooted dest \<or> ''..'' \<notin> set (clean_comps dest)"
    and "\<And>ns. q \<noteq> walk cwd dest @ ns"
  shows "file_at f' q = file_at f q"
  using assms(1)
proof (induction hs arbitrary: n f)
  case (Cons h hs)
  obtain o1 f1 where e: "extract_entry cwd dest (flt n) h f = (o1, f1)" by fastforce
  then show ?case using Cons extract_entry_files [OF e assms(2,3)] by (auto split: if_splits)
qed simp

subsection \<open>What a build attempt sends\<close>

fun is_complete :: "http_req \<Rightarrow> bool" where
  "is_complete (PostComplete _ _ _ _) = True"
| "is_complete _ = False"

text \<open>The requests that accompany the attempt of the build \<open>i\<close>, other than its reports.\<close>

fun concerns :: "string \<Rightarrow> http_req \<Rightarrow> bool" where
  "concerns i (GetBuild j) \<longleftrightarrow> j = i"
| "concerns i (GetBlob p) \<longleftrightarrow> p = ''/api/v1/blobs/contexts/'' @ i @ ''.tar.gz''"
| "concerns i (PostLog j _) \<longleftrightarrow> j = i"
| "concerns i _ \<longleftrightarrow> False"

lemma concerns_quiet: "concerns i r \<Longrightarrow> \<not> is_complete r"
  by (cases r) simp_all

text \<open>The requests of \<open>w'\<close> extend those of \<open>w\<close> by such requests.\<close>

definition quiet_ext :: "string \<Rightarrow> world \<Rightarrow> world \<Rightarrow> bool" where
  "quiet_ext i w w' \<longleftrightarrow> (\<exists>rs. reqs w' = reqs w @ rs \<and> (\<forall>r \<in> set rs. concerns i r))"

lemma quiet_refl [simp]: "quiet_ext i w w" "quiet_ext i w (w\<lparr>files := f\<rparr>)" "quiet_ext i w (w\<lparr>wk := k\<rparr>)"
  by (auto simp: quiet_ext_def)

lemma quiet_trans: "quiet_ext i a b \<Longrightarrow> quiet_ext i b c \<Longrightarrow> quiet_ext i a c"
  unfolding quiet_ext_def by (metis Un_iff append.assoc set_append)

lemma quiet_req: "concerns i r \<Longrightarrow> do_req net r w = (x, w') \<Longrightarrow> quiet_ext i w w'"
  by (auto simp: do_req_def quiet_ext_def)

lemma quiet_files: "on_files g w = (x, w') \<Longrightarrow> quiet_ext i w w'"
  by (auto simp: on_files_def split: prod.splits)

lemma quiet_log: "quiet_ext i w (sendLog net c i l w)"
proof -
  obtain k where "send_attempts net c 0 3 (PostLog i l) w = w\<lparr>reqs := reqs w @ replicate k (PostLog i l)\<rparr>"
    using send_attempts_trace by blast
  then show ?thesis by (auto simp: sendLog_def quiet_ext_def)
qed

lemma quiet_lines: "quiet_ext i w (send_lines e i ls w)"
proof -
  have "quiet_ext i w (fold (\<lambda>(n, l) w. sendLog (network e) (ctx_ended e n) i l w) xs w)" for xs
    by (induction xs arbitrary: w) (auto intro: quiet_trans quiet_log)
  then show ?thesis by (simp add: send_lines_def)
qed

lemma quiet_cancelled: "isBuildCancelled net i w = (x, w') \<Longrightarrow> quiet_ext i w w'"
  using quiet_req [of i "GetBuild i" net w] by (auto simp: isBuildCancelled_def split: prod.splits option.splits)

lemma quiet_download: "downloadContext e i dest w = (ok, w') \<Longrightarrow> quiet_ext i w w'"
proof -
  have http: "quiet_ext i w w'" if "downloadContextHTTP e i dest w = (ok, w')" for ok w'
  proof -
    obtain x w1 where r: "do_req (network e) (GetBlob (''/api/v1/blobs/contexts/'' @ i @ ''.tar.gz'')) w = (x, w1)" by fastforce
    have "quiet_ext i w1 w'" using that r quiet_files [of _ w1 ok w']
      by (auto simp: downloadContextHTTP_def split: option.splits if_splits)
    then show ?thesis using quiet_req [OF _ r, of i] quiet_trans by auto
  qed
  show "downloadContext e i dest w = (ok, w') \<Longrightarrow> quiet_ext i w w'"
    using http quiet_files by (auto simp: downloadContext_def split: option.splits)
qed

lemma quiet_execute: "executeBuild e b dir df w = (res, w') \<Longrightarrow> quiet_ext (ID b) w w'"
proof -
  assume ex: "executeBuild e b dir df w = (res, w')"
  obtain canc w1 where c: "isBuildCancelled (network e) (ID b) w = (canc, w1)" by fastforce
  have fail: "quiet_ext (ID b) v w3" if "build_failure e b err v = (er, w3)" for err v er w3
    using that quiet_cancelled by (auto simp: build_failure_def split: if_splits prod.splits)
  have "quiet_ext (ID b) w1 w'" using ex c fail quiet_lines quiet_trans
    by (fastforce simp: executeBuild_def Let_def split: if_splits option.splits prod.splits outcome.splits)
  then show ?thesis using quiet_cancelled [OF c] quiet_trans by blast
qed

text \<open>A report: between one and three copies of the same final status, the last one
  acknowledged unless there are three.\<close>

definition reported :: "net \<Rightarrow> string \<Rightarrow> world \<Rightarrow> world \<Rightarrow> bool" where
  "reported net i w w' \<longleftrightarrow> (\<exists>rs st err rate k.
     reqs w' = reqs w @ rs @ replicate k (PostComplete i st err rate) \<and> (\<forall>r \<in> set rs. concerns i r) \<and>
     st \<in> {StatusSucceeded, StatusFailed} \<and> 1 \<le> k \<and> k \<le> 3 \<and>
     (k < 3 \<longrightarrow> map_option code (net (reqs w @ rs @ replicate (k - 1) (PostComplete i st err rate))
         (PostComplete i st err rate)) = Some 200))"

lemma reported_complete:
  assumes "quiet_ext i w v" "st \<in> {StatusSucceeded, StatusFailed}"
  shows "reported net i w (completeBuild net i st err rate v)"
proof -
  let ?r = "PostComplete i st err rate"
  obtain rs where rs: "reqs v = reqs w @ rs" "\<forall>r \<in> set rs. concerns i r" using assms(1) by (auto simp: quiet_ext_def)
  obtain k where k: "k \<le> 3" "send_attempts net (\<lambda>_. False) 0 3 ?r v = v\<lparr>reqs := reqs v @ replicate k ?r\<rparr>" "0 < k"
    "k < 3 \<longrightarrow> map_option code (net (reqs v @ replicate (k - 1) ?r) ?r) = Some 200"
    using send_attempts_trace [of 3 net "\<lambda>_. False" 0 ?r v] by auto
  show ?thesis unfolding reported_def completeBuild_def k(2)
    by (intro exI [of _ rs] exI [of _ st] exI [of _ err] exI [of _ rate] exI [of _ k]) (use k rs assms(2) in simp)
qed

lemma reported_fail: "quiet_ext (ID b) w v \<Longrightarrow> reported (network e) (ID b) w (fail_build e b err v)"
  unfolding fail_build_def by (rule reported_complete) auto

text \<open>How an attempt ends: with a report, or with a panic before any, which happens only where the
  code slices a fingerprint that is too short.\<close>

definition attempted :: "wk_env \<Rightarrow> build \<Rightarrow> world \<Rightarrow> bool \<times> world \<Rightarrow> bool" where
  "attempted e b w res \<longleftrightarrow> (case res of (fine, w') \<Rightarrow>
     if fine then reported (network e) (ID b) w w'
     else quiet_ext (ID b) w w' \<and>
       (length (Fingerprint b) < 12 \<or> length (Fingerprint b) < 16 \<and> CacheRegistry (wk w) \<noteq> []))"

lemma Build_no_panic: "fst (Build um pt c opts p) \<noteq> Panic"
  by (simp add: Build_def Let_def split: sum.split)

lemma execute_panic:
  assumes "executeBuild e b dir df w = (Panic, w')"
  shows "length (Fingerprint b) < 16 \<and> CacheRegistry (wk w) \<noteq> []"
proof -
  have "run_buildctl e c opts f \<noteq> (Panic, ls)" for c opts f ls
    using Build_no_panic unfolding run_buildctl_def by (metis fst_conv)
  then show ?thesis using assms
    by (auto simp: executeBuild_def Let_def slice_to_def split: if_splits option.splits prod.splits outcome.splits)
qed

lemma report_attempted:
  assumes "quiet_ext (ID b) w v" "res = Panic \<Longrightarrow> length (Fingerprint b) < 16 \<and> CacheRegistry (wk w) \<noteq> []"
  shows "attempted e b w (report_build e b res v)"
  using assms reported_fail [OF assms(1)] reported_complete [OF quiet_trans [OF assms(1) quiet_refl(3)]]
  by (cases res) (auto simp: report_build_def attempted_def)

lemma build_in_dir_attempted: "attempted e b w (build_in_dir e b dir w)"
proof -
  obtain ok w1 where d: "downloadContext e (ID b) dir w = (ok, w1)" by fastforce
  note q1 = quiet_download [OF d]
  obtain x w2 where p: "on_files (place_dockerfile e b dir) w1 = (x, w2)" by fastforce
  have q2: "quiet_ext (ID b) w w2" using quiet_trans [OF q1 quiet_files [OF p]] .
  have wk: "wk w2 = wk w"
    using d p by (auto simp: downloadContext_def downloadContextHTTP_def on_files_def do_req_def
        split: option.splits if_splits prod.splits)
  have "attempted e b w (case executeBuild e b dir df w2 of (res, w3) \<Rightarrow> report_build e b res w3)" for df
    using report_attempted [OF quiet_trans [OF q2 quiet_execute [of e b dir df w2]]] execute_panic [of e b dir df w2] wk
    by (auto split: prod.split)
  then show ?thesis using d p reported_fail [OF q1] reported_fail [OF q2]
    by (cases x) (auto simp: build_in_dir_def attempted_def)
qed

lemma run_assigned_attempted:
  "attempted e b w (run_assigned e b w) \<and> (length (Fingerprint b) < 12 \<longrightarrow> \<not> fst (run_assigned e b w))"
proof -
  let ?dir = "path_join3 (WorkDir (wk w)) ''builds'' (ID b)"
  obtain ok f where m: "mkdir_all [] (walk (getwd e) ?dir) (files w) = (ok, f)" by fastforce
  have "attempted e b (w\<lparr>files := f\<rparr>) (build_in_dir e b ?dir (w\<lparr>files := f\<rparr>))" by (rule build_in_dir_attempted)
  then have "attempted e b w (case build_in_dir e b ?dir (w\<lparr>files := f\<rparr>) of (fine, w') \<Rightarrow> (fine, w'\<lparr>files := g w'\<rparr>))" for g
    by (auto split: prod.split simp: attempted_def reported_def quiet_ext_def)
  then show ?thesis using m reported_fail [of b w w e] reported_fail [of b w "w\<lparr>files := f\<rparr>" e]
    by (auto simp: run_assigned_def slice_to_def Let_def attempted_def)
qed

lemma run_assigned_reports:
  assumes "16 \<le> length (Fingerprint b)"
  shows "\<exists>w'. run_assigned e b w = (True, w') \<and> reported (network e) (ID b) w w'"
  using run_assigned_attempted [of e b w] assms by (cases "run_assigned e b w") (auto simp: attempted_def split: if_splits)

subsection \<open>Properties\<close>

text \<open>A worker executes one build at a time: in every interleaving of heartbeats, polls and
  ends of builds at most one goroutine executes a build, and the busy flag says whether one
  does.\<close>

theorem worker_one_build:
  assumes "loop_step\<^sup>*\<^sup>* loop_start s"
  shows "running s \<le> 1 \<and> (busy s \<longleftrightarrow> running s = 1)"
  using loop_inv [OF assms] by simp

theorem worker_one_build_witness:
  "running \<lparr>busy = True, running = 1, beats = [''busy'']\<rparr> \<le> 1"
proof -
  have "loop_step loop_start \<lparr>busy = True, running = 1, beats = []\<rparr>"
    using loop_step.poll_free [of loop_start] by (simp add: loop_start_def)
  moreover have "loop_step \<lparr>busy = True, running = 1, beats = []\<rparr> \<lparr>busy = True, running = 1, beats = [''busy'']\<rparr>"
    using loop_step.heartbeat [of "\<lparr>busy = True, running = 1, beats = []\<rparr>"] by simp
  ultimately have "loop_step\<^sup>*\<^sup>* loop_start \<lparr>busy = True, running = 1, beats = [''busy'']\<rparr>" by simp
  then show ?thesis using worker_one_build by blast
qed

text \<open>The cache keys of a worker stay distinct and at most 512; adding the instructions of
  a build appends those that are new, in order, and drops the oldest keys only when there
  are too many.\<close>

theorem addCacheKeys_spec:
  assumes "distinct (cacheKeys w)"
  shows "distinct (cacheKeys (addCacheKeys is w)) \<and> length (cacheKeys (addCacheKeys is w)) \<le> 512 \<and>
    (\<exists>new dropped. cacheKeys w @ new = dropped @ cacheKeys (addCacheKeys is w) \<and> set new = set is - set (cacheKeys w) \<and>
       (dropped \<noteq> [] \<longrightarrow> length (cacheKeys (addCacheKeys is w)) = 512))"
proof -
  let ?ks = "add_keys (cacheKeys w) is"
  obtain new where new: "?ks = cacheKeys w @ new" using add_keys_prefix by blast
  obtain dropped where d: "?ks = dropped @ trim_keys ?ks" using trim_keys_suffix by blast
  have "distinct ?ks" using add_keys_distinct assms by blast
  then have "set new \<inter> set (cacheKeys w) = {}" using new by auto
  then have "set new = set is - set (cacheKeys w)" using add_keys_set [of "cacheKeys w" "is"] new by auto
  moreover have "length (trim_keys ?ks) = 512" if "dropped \<noteq> []"
  proof -
    have "length (trim_keys ?ks) < length ?ks" using d that by (metis length_append length_greater_0_conv less_add_same_cancel2)
    then show ?thesis using trim_keys_length [of ?ks] by linarith
  qed
  moreover have ck: "cacheKeys (addCacheKeys is w) = trim_keys ?ks" by (simp add: addCacheKeys_def)
  moreover have "cacheKeys w @ new = dropped @ trim_keys ?ks" using new d by simp
  ultimately show ?thesis using trim_keys_distinct [OF \<open>distinct ?ks\<close>] trim_keys_length [of ?ks]
    unfolding ck by (intro conjI exI [of _ new] exI [of _ dropped]) auto
qed

theorem addCacheKeys_spec_witness:
  "distinct (cacheKeys (addCacheKeys [''b'', ''a'', ''b''] (NewWorker ''w'' ''h'' ''http://s/'' ''a'' ''d'' [])))"
  using addCacheKeys_spec [of "NewWorker ''w'' ''h'' ''http://s/'' ''a'' ''d'' []" "[''b'', ''a'', ''b'']"]
  by (simp add: NewWorker_def)

text \<open>The default working directory is relative, and enough parent directories in an identifier make
  the destination a path that begins by going up: its cleaned form \<open>..\<close> is then a prefix of paths
  that lie outside it, and an entry gets past the check.\<close>

lemma extract_escapes:
  "path_join3 ''./data/worker'' ''builds'' ''../../../..'' = ''..''"
  "extractTarGz (\<lambda>_. Some ([\<lparr>hName = ''../x'', Typeflag = TypeReg, content = d\<rparr>], True)) [''srv'', ''app''] (\<lambda>_. no_faults) z ''..'' [] =
     (True, [([''x''], File d)])" "walk [''srv'', ''app''] ''..'' = [''srv'']"
  by (simp_all add: path_join3_def extractTarGz_def extract_entry_def try_mkdir_def Let_def HasPrefix_def path_join_def path_dir_def Clean_def
      clean_comps_def rooted_def clean_step_def walk_def os_create_def node_at_def no_faults_def)

text \<open>(C17) Unpacking an archive into an absolute destination, or into a relative one whose cleaned form
  has no parent directories, changes no file outside the destination, whatever names its entries
  have and whichever system calls fail. With an absolute working directory of the worker that
  covers every build; \<open>extract_escapes\<close> shows what a relative one lets happen.\<close>

theorem extract_confined:
  assumes "rooted dest \<or> ''..'' \<notin> set (clean_comps dest)" and "\<And>ns. q \<noteq> walk cwd dest @ ns"
  shows "file_at (snd (extractTarGz unpack cwd flt data dest f)) q = file_at f q"
  using extract_entries_files [OF _ assms, of flt 0 _ f]
  by (auto simp: extractTarGz_def split: option.split prod.split)

theorem extract_confined_witness:
  "file_at (snd (extractTarGz (\<lambda>_. Some ([\<lparr>hName = ''../../etc/key'', Typeflag = TypeReg, content = ''x''\<rparr>], True))
     [] (\<lambda>_. no_faults) ''data'' ''/w/b'' [])) [''etc'', ''key''] = None"
proof -
  have "walk [] ''/w/b'' = [''w'', ''b'']" by (simp add: walk_def rooted_def clean_step_def)
  then show ?thesis
    using extract_confined [of "''/w/b''" "[''etc'', ''key'']" "[]"
        "\<lambda>_. Some ([\<lparr>hName = ''../../etc/key'', Typeflag = TypeReg, content = ''x''\<rparr>], True)" "\<lambda>_. no_faults" "''data''" "[]"]
    by (simp add: rooted_def file_at_def node_at_def)
qed

text \<open>(C18) What becomes of every build that a worker is handed, whatever the server answers, the
  archive holds and \<open>buildctl\<close> does. The attempt ends with one report of success or failure, sent
  until it is acknowledged, three times at most, and no other report precedes it; or the worker
  panics without any report, and then the fingerprint that the server sent is too short: under 12
  bytes, for which it always panics, or under 16 while a cache registry is configured.\<close>

theorem tryExecuteBuild_reports:
  assumes "network e (reqs w) (GetNext (wkID (wk w))) = Some resp" "code resp = 200" "jbuild resp = Some b" "ID b \<noteq> []"
  shows "\<exists>fine w' rs. tryExecuteBuild e w = (fine, w') \<and> (\<forall>r \<in> set rs. \<not> is_complete r) \<and>
    (fine \<longrightarrow> (\<exists>st err rate k.
      reqs w' = reqs w @ GetNext (wkID (wk w)) # rs @ replicate k (PostComplete (ID b) st err rate) \<and>
      st \<in> {StatusSucceeded, StatusFailed} \<and> 1 \<le> k \<and> k \<le> 3 \<and>
      (k < 3 \<longrightarrow> map_option code (network e (reqs w @ GetNext (wkID (wk w)) # rs @ replicate (k - 1) (PostComplete (ID b) st err rate))
         (PostComplete (ID b) st err rate)) = Some 200))) \<and>
    (\<not> fine \<longrightarrow> reqs w' = reqs w @ GetNext (wkID (wk w)) # rs \<and>
      (length (Fingerprint b) < 12 \<or> length (Fingerprint b) < 16 \<and> CacheRegistry (wk w) \<noteq> [])) \<and>
    (length (Fingerprint b) < 12 \<longrightarrow> \<not> fine)"
proof -
  let ?w = "w\<lparr>reqs := reqs w @ [GetNext (wkID (wk w))]\<rparr>"
  obtain fine w' where w': "run_assigned e b ?w = (fine, w')" by fastforce
  have tried: "tryExecuteBuild e w = (fine, w')" using assms w' by (simp add: tryExecuteBuild_def do_req_def)
  note att = run_assigned_attempted [of e b ?w, unfolded w' attempted_def fst_conv prod.case]
  show ?thesis
  proof (cases fine)
    case True
    then have "reported (network e) (ID b) ?w w'" using att by simp
    then obtain rs st err rate k where rs: "reqs w' = reqs ?w @ rs @ replicate k (PostComplete (ID b) st err rate)"
      "\<forall>r \<in> set rs. concerns (ID b) r" "st \<in> {StatusSucceeded, StatusFailed}" "1 \<le> k" "k \<le> 3"
      "k < 3 \<longrightarrow> map_option code (network e (reqs ?w @ rs @ replicate (k - 1) (PostComplete (ID b) st err rate)) (PostComplete (ID b) st err rate)) = Some 200"
      unfolding reported_def by blast
    have "\<forall>r \<in> set rs. \<not> is_complete r" using rs(2) concerns_quiet by blast
    moreover have "\<not> length (Fingerprint b) < 12" using att True by blast
    ultimately show ?thesis using True tried rs
      by (intro exI [of _ fine] exI [of _ w'] exI [of _ rs] conjI impI) (auto intro!: exI [of _ st] exI [of _ err] exI [of _ rate] exI [of _ k])
  next
    case False
    then obtain rs where "reqs w' = reqs ?w @ rs" "\<forall>r \<in> set rs. concerns (ID b) r"
      and "length (Fingerprint b) < 12 \<or> length (Fingerprint b) < 16 \<and> CacheRegistry (wk w) \<noteq> []"
      using att by (auto simp: quiet_ext_def)
    then show ?thesis using False tried concerns_quiet by (intro exI [of _ fine] exI [of _ w'] exI [of _ rs]) auto
  qed
qed

text \<open>A worker whose server answers every request with the same build.\<close>

definition sample_wk_env :: wk_env where
  "sample_wk_env = \<lparr>network = (\<lambda>_ _. Some \<lparr>code = 200, jbuild = Some (zero_build\<lparr>ID := ''b1'', Fingerprint := replicate 64 (CHR ''a'')\<rparr>),
       payload = []\<rparr>), getwd = [], s3_get = (\<lambda>_ _. None), untar = (\<lambda>_. None), entry_faults = (\<lambda>_. no_faults),
     mkdir_fault = False, write_fault = False, look_path = None, unmarshal = (\<lambda>_. None), parse_time = (\<lambda>_. None),
     buildctl = (\<lambda>_. \<lparr>dockerfile_missing = False, pipe_error = False, start_error = False, stderr_text = [], exit_error = False, ctx_error = False\<rparr>),
     deadline = False, ctx_ended = (\<lambda>_ _. False), err_text = (\<lambda>_. ''failed'')\<rparr>"

definition sample_world :: world where
  "sample_world = \<lparr>reqs = [], files = [], wk = NewWorker ''w1'' ''h'' ''http://s'' ''addr'' ''/work'' []\<rparr>"

theorem tryExecuteBuild_reports_witness:
  "\<exists>w' st err rate. tryExecuteBuild sample_wk_env sample_world = (True, w') \<and> PostComplete ''b1'' st err rate \<in> set (reqs w')"
proof -
  let ?b = "zero_build\<lparr>ID := ''b1'', Fingerprint := replicate 64 (CHR ''a'')\<rparr>"
  obtain fine w' rs where w': "tryExecuteBuild sample_wk_env sample_world = (fine, w')" and fine: fine
    and rep: "fine \<longrightarrow> (\<exists>st err rate k. reqs w' = reqs sample_world @ GetNext (wkID (wk sample_world)) # rs @ replicate k (PostComplete ''b1'' st err rate) \<and> 1 \<le> k)"
    using tryExecuteBuild_reports [of sample_wk_env sample_world "\<lparr>code = 200, jbuild = Some ?b, payload = []\<rparr>" ?b]
    by (simp add: sample_wk_env_def) metis
  then obtain st err rate k where "reqs w' = reqs sample_world @ GetNext (wkID (wk sample_world)) # rs @ replicate k (PostComplete ''b1'' st err rate)" "1 \<le> k"
    by blast
  then show ?thesis using w' fine by (intro exI [of _ w'] exI [of _ st] exI [of _ err] exI [of _ rate]) auto
qed

text \<open>A fingerprint that is too short ends the worker without a report.\<close>

lemma short_fingerprint_panics:
  "tryExecuteBuild (sample_wk_env\<lparr>network := (\<lambda>_ _. Some \<lparr>code = 200, jbuild = Some (zero_build\<lparr>ID := ''b1'', Fingerprint := ''abc''\<rparr>), payload = []\<rparr>)\<rparr>) sample_world =
     (False, sample_world\<lparr>reqs := [GetNext ''w1'']\<rparr>)"
  by (simp add: tryExecuteBuild_def do_req_def run_assigned_def slice_to_def sample_world_def NewWorker_def)

lemma walk_up: "a \<noteq> [] \<Longrightarrow> walk cwd (path_join3 a ''builds'' ''..'') = walk cwd a"
  using rooted_append [of a "sep # ''builds'' @ sep # ''..''"]
  by (simp add: path_join3_def walk_Clean) (simp add: walk_def Split_append clean_step_def)

lemma remove_all_files: "dir \<noteq> ''.'' \<Longrightarrow> file_at (remove_all cwd dir f) (walk cwd dir @ q) = None"
proof -
  assume "dir \<noteq> ''.''"
  then have "(walk cwd dir @ q, n) \<notin> set (remove_all cwd dir f)" for n by (auto simp: remove_all_def Let_def)
  then have "map_of (remove_all cwd dir f) (walk cwd dir @ q) = None"
    by (metis map_of_SomeD option.exhaust)
  then show ?thesis by (auto simp: file_at_def node_at_def)
qed

text \<open>(C40) The directory of a build is derived from its identifier without a check and removed at
  the end: with the identifier \<open>..\<close> it is the working directory of the worker itself, and no
  file of it survives the attempt.\<close>

theorem worker_wipes_workdir:
  assumes "network e (reqs w) (GetNext (wkID (wk w))) = Some resp" "code resp = 200" "jbuild resp = Some b"
    and "ID b = ''..''" "16 \<le> length (Fingerprint b)" "\<not> mkdir_fault e"
    and "WorkDir (wk w) \<noteq> []" "path_join3 (WorkDir (wk w)) ''builds'' ''..'' \<noteq> ''.''"
    and "fst (mkdir_all [] (walk (getwd e) (WorkDir (wk w))) (files w))"
  shows "\<exists>w'. tryExecuteBuild e w = (True, w') \<and> (\<forall>q. file_at (files w') (walk (getwd e) (WorkDir (wk w)) @ q) = None)"
proof -
  let ?w = "w\<lparr>reqs := reqs w @ [GetNext (wkID (wk w))]\<rparr>" and ?dir = "path_join3 (WorkDir (wk w)) ''builds'' ''..''"
  obtain f where m: "mkdir_all [] (walk (getwd e) ?dir) (files w) = (True, f)"
    using assms(9) walk_up [OF assms(7)] by (cases "mkdir_all [] (walk (getwd e) ?dir) (files w)") auto
  obtain w' where w': "build_in_dir e b ?dir (?w\<lparr>files := f\<rparr>) = (True, w')"
    using build_in_dir_attempted [of e b "?w\<lparr>files := f\<rparr>" ?dir] assms(5)
    by (cases "build_in_dir e b ?dir (?w\<lparr>files := f\<rparr>)") (auto simp: attempted_def split: if_splits)
  have "tryExecuteBuild e w = (True, w'\<lparr>files := remove_all (getwd e) ?dir (files w')\<rparr>)"
    using assms(1-6) m w' by (simp add: tryExecuteBuild_def do_req_def run_assigned_def slice_to_def Let_def)
  moreover have "file_at (remove_all (getwd e) ?dir (files w')) (walk (getwd e) (WorkDir (wk w)) @ q) = None" for q
    using remove_all_files [OF assms(8), of "getwd e" "files w'" q] walk_up [OF assms(7)] by simp
  ultimately show ?thesis by simp
qed

theorem worker_wipes_workdir_witness:
  "\<exists>w'. tryExecuteBuild (sample_wk_env\<lparr>network := (\<lambda>_ _. Some \<lparr>code = 200,
        jbuild = Some (zero_build\<lparr>ID := ''..'', Fingerprint := replicate 64 (CHR ''a'')\<rparr>), payload = []\<rparr>)\<rparr>)
      (sample_world\<lparr>files := [([''work''], Directory), ([''work'', ''keep''], File ''x'')]\<rparr>) = (True, w') \<and>
    file_at (files w') [''work'', ''keep''] = None"
proof -
  let ?b = "zero_build\<lparr>ID := ''..'', Fingerprint := replicate 64 (CHR ''a'')\<rparr>"
  let ?e = "sample_wk_env\<lparr>network := (\<lambda>_ _. Some \<lparr>code = 200, jbuild = Some ?b, payload = []\<rparr>)\<rparr>"
  let ?w = "sample_world\<lparr>files := [([''work''], Directory), ([''work'', ''keep''], File ''x'')]\<rparr>"
  have d: "WorkDir (wk sample_world) = ''/work''" by (simp add: sample_world_def NewWorker_def)
  have p: "walk [] ''/work'' = [''work'']" "path_join3 ''/work'' ''builds'' ''..'' \<noteq> ''.''"
    by (simp_all add: walk_def rooted_def clean_step_def path_join3_def Clean_def)
  have "\<exists>w'. tryExecuteBuild ?e ?w = (True, w') \<and> (\<forall>q. file_at (files w') (walk (getwd ?e) (WorkDir (wk ?w)) @ q) = None)"
    by (rule worker_wipes_workdir [of ?e ?w "\<lparr>code = 200, jbuild = Some ?b, payload = []\<rparr>" ?b])
      (simp_all add: d p sample_wk_env_def node_at_def)
  then show ?thesis by (auto simp: d p sample_wk_env_def dest: spec [of _ "[''keep'']"])
qed

end
