(* ===== verification/Cli.thy ===== *)
theory Cli
  imports Worker
begin

text \<open>
  The command-line client of \<open>src/server/cmd/dtbuild/main.go\<close>. A command is a function of its
  arguments and of the environment: the variables, the files, the server (\<open>http\<close>, nothing
  when a request fails) and the encoding of an archive (\<open>tar_gz\<close>, from \<open>archive/tar\<close> and
  \<open>compress/gzip\<close>). Its result is the exit code, the text printed to the standard output and
  the kind of error printed to the error output. A decoded JSON value keeps a string apart
  from everything else, of which it keeps the text that \<open>fmt\<close> prints for it.
\<close>

subsection \<open>Requests and responses\<close>

datatype jval = JStr string | JOther string string

type_synonym jobj = "(string \<times> jval) list"

record cresp =
  ccode :: nat
  cbody :: string
  cobj :: "jobj option"
  carr :: "jobj list option"

record creq =
  cmethod :: string
  curl :: string
  ctype :: string
  xkey :: "string option"
  archive :: "string option"
  form_fields :: "(string \<times> string) list"

record cli_env =
  getenv :: "string \<Rightarrow> string"
  cli_cwd :: "string list"
  disk :: fs
  http :: "creq \<Rightarrow> cresp option"
  tar_gz :: "tar_entry list \<Rightarrow> string"
  unreadable :: "string list \<Rightarrow> bool"
  boundary :: string

datatype cli_error = UnknownCommand string | Usage string | ReadDockerfile | ArchiveError | RequestError
  | DecodeError | ServerReturned nat | ServerSaid string

record cli_result =
  exit_code :: nat
  stdout :: string
  problem :: "cli_error option"

definition fail :: "cli_error \<Rightarrow> cli_result" where
  "fail e = \<lparr>exit_code = 1, stdout = [], problem = Some e\<rparr>"

definition okay :: "string \<Rightarrow> cli_result" where
  "okay txt = \<lparr>exit_code = 0, stdout = txt, problem = None\<rparr>"

definition defaultServer :: string where
  "defaultServer = ''http://localhost:8640''"

definition apiKey :: "cli_env \<Rightarrow> string" where
  "apiKey e = getenv e ''DTBUILD_API_KEY''"

definition key_header :: "cli_env \<Rightarrow> string option" where
  "key_header e = (if apiKey e \<noteq> [] then Some (apiKey e) else None)"

definition doGet :: "cli_env \<Rightarrow> string \<Rightarrow> cresp option" where
  "doGet e url = http e \<lparr>cmethod = ''GET'', curl = url, ctype = [], xkey = key_header e, archive = None, form_fields = []\<rparr>"

definition doPost_form :: "cli_env \<Rightarrow> string \<Rightarrow> string \<Rightarrow> (string \<times> string) list \<Rightarrow> cresp option" where
  "doPost_form e url data flds =
     http e \<lparr>cmethod = ''POST'', curl = url, ctype = ''multipart/form-data; boundary='' @ boundary e,
       xkey = key_header e, archive = Some data, form_fields = flds\<rparr>"

subsection \<open>Arguments\<close>

fun flag_server :: "string list \<Rightarrow> string option" where
  "flag_server (a # b # r) = (if a = ''--server'' then Some b else flag_server (b # r))"
| "flag_server _ = None"

definition getServerURL :: "cli_env \<Rightarrow> string list \<Rightarrow> string" where
  "getServerURL e args =
     (case flag_server args of
        Some u \<Rightarrow> u
      | None \<Rightarrow> if getenv e ''DTBUILD_SERVER'' \<noteq> [] then getenv e ''DTBUILD_SERVER'' else defaultServer)"

fun kvFlag :: "string list \<Rightarrow> string \<Rightarrow> string" where
  "kvFlag (a # b # r) key = (if a = key \<and> \<not> HasPrefix b ''--'' then b else kvFlag (b # r) key)"
| "kvFlag _ key = []"

definition arg_pair :: "string \<Rightarrow> (string \<times> string) option" where
  "arg_pair a =
     (if HasPrefix a ''--arg.'' then
        (case SplitN2 (CHR ''='') (drop 6 a) of [k, v] \<Rightarrow> Some (k, v) | _ \<Rightarrow> None)
      else None)"

fun parseArgs :: "string list \<Rightarrow> (string \<rightharpoonup> string) \<times> string list" where
  "parseArgs [] = (Map.empty, [])"
| "parseArgs (a # r) =
     (if HasPrefix a ''--arg.'' then
        (case parseArgs r of
           (kv, pos) \<Rightarrow> (case arg_pair a of None \<Rightarrow> kv | Some (k, v) \<Rightarrow> (\<lambda>x. if x = k \<and> kv x = None then Some v else kv x), pos))
      else if \<not> HasPrefix a ''--'' then
        (case parseArgs r of (kv, pos) \<Rightarrow> (kv, a # pos))
      else
        (case r of
           b # r' \<Rightarrow> if \<not> HasPrefix b ''--'' then parseArgs r' else parseArgs r
         | [] \<Rightarrow> (Map.empty, [])))"

subsection \<open>The archive\<close>

text \<open>\<open>filepath.Walk\<close> visits a directory before what it holds and names in order: the
  lexicographic order of the paths.\<close>

definition below :: "string list \<Rightarrow> fs \<Rightarrow> (string list \<times> node) list" where
  "below d f = sort_key fst (filter (\<lambda>(q, n). take (length d) q = d \<and> q \<noteq> d) f)"

definition tar_header :: "string list \<Rightarrow> string list \<times> node \<Rightarrow> tar_entry" where
  "tar_header d qn =
     \<lparr>hName = Join [sep] (drop (length d) (fst qn)),
      Typeflag = (case snd qn of Directory \<Rightarrow> TypeDir | File _ \<Rightarrow> TypeReg),
      content = (case snd qn of Directory \<Rightarrow> [] | File c \<Rightarrow> c)\<rparr>"

definition tarGz :: "cli_env \<Rightarrow> string \<Rightarrow> string option" where
  "tarGz e dir =
     (let d = walk (cli_cwd e) dir in
      if node_at (disk e) d = None then None
      else if list_ex (\<lambda>(q, n). unreadable e q) (below d (disk e)) then None
      else Some (tar_gz e (map (tar_header d) (below d (disk e)))))"

subsection \<open>Commands\<close>

definition line :: "string \<Rightarrow> string" where
  "line s = s @ [CHR 0x0A]"

definition server_url :: "cli_env \<Rightarrow> string list \<Rightarrow> string" where
  "server_url e args = TrimRight (getServerURL e args) (CHR ''/'')"

text \<open>\<open>%v\<close> and \<open>%s\<close> of a field of a decoded object.\<close>

definition show_v :: "jobj \<Rightarrow> string \<Rightarrow> string" where
  "show_v ob k = (case map_of ob k of None \<Rightarrow> ''<nil>'' | Some (JStr s) \<Rightarrow> s | Some (JOther v _) \<Rightarrow> v)"

definition show_s :: "jobj \<Rightarrow> string \<Rightarrow> string" where
  "show_s ob k = (case map_of ob k of None \<Rightarrow> ''%!s(<nil>)'' | Some (JStr s) \<Rightarrow> s | Some (JOther _ t) \<Rightarrow> t)"

function rune_count :: "string \<Rightarrow> nat" where
  "rune_count s = (if s = [] then 0 else Suc (rune_count (drop (snd (decode_rune s)) s)))"
  by pat_completeness auto
termination
proof (relation "measure length")
  fix s :: string assume "s \<noteq> []"
  then show "(drop (snd (decode_rune s)) s, s) \<in> measure length" using decode_rune_width [of s] by (cases s) auto
qed simp

declare rune_count.simps [simp del]

definition pad12 :: "string \<Rightarrow> string" where
  "pad12 s = s @ replicate (12 - rune_count s) (CHR '' '')"

definition read_file :: "cli_env \<Rightarrow> string \<Rightarrow> string option" where
  "read_file e path = (let q = walk (cli_cwd e) path in if unreadable e q then None else file_at (disk e) q)"

definition arg_fields :: "string list \<Rightarrow> (string \<times> string) list" where
  "arg_fields args = List.map_filter (\<lambda>a. map_option (\<lambda>(k, v). (''arg.'' @ k, v)) (arg_pair a)) args"

definition cmdSubmit :: "cli_env \<Rightarrow> string list \<Rightarrow> cli_result" where
  "cmdSubmit e args =
     (case snd (parseArgs args) of
        [] \<Rightarrow> fail (Usage ''submit'')
      | folder # _ \<Rightarrow>
         (let tag = kvFlag args ''--tag'';
              dockerfile = (if kvFlag args ''--dockerfile'' = [] then ''Dockerfile'' else kvFlag args ''--dockerfile'')
          in case read_file e (path_join folder dockerfile) of
               None \<Rightarrow> fail ReadDockerfile
             | Some df \<Rightarrow>
                (case tarGz e folder of
                   None \<Rightarrow> fail ArchiveError
                 | Some data \<Rightarrow>
                    (case doPost_form e (server_url e args @ ''/api/v1/builds'') data
                            ([(''dockerfile'', df), (''image_tag'', tag)] @ arg_fields args) of
                       None \<Rightarrow> fail RequestError
                     | Some resp \<Rightarrow>
                        (case cobj resp of
                           None \<Rightarrow> fail DecodeError
                         | Some ob \<Rightarrow>
                             if ccode resp \<noteq> 201 then fail (ServerReturned (ccode resp))
                             else okay (line (''Build submitted: '' @ show_s ob ''id'')))))))"

text \<open>The bulk response: its count and the identifier and tag of each build.\<close>

record bulk_resp =
  bCount :: int
  bBuilds :: "(string \<times> string) list"

definition cmdSubmitBulk :: "cli_env \<Rightarrow> (string \<Rightarrow> bulk_resp option) \<Rightarrow> string list \<Rightarrow> cli_result" where
  "cmdSubmitBulk e decode args =
     (case snd (parseArgs args) of
        [] \<Rightarrow> fail (Usage ''submit-bulk'')
      | folder # _ \<Rightarrow>
         (let tagPrefix = (if kvFlag args ''--tag-prefix'' = [] then ''registry:80/bulk'' else kvFlag args ''--tag-prefix'')
          in case tarGz e folder of
               None \<Rightarrow> fail ArchiveError
             | Some data \<Rightarrow>
                (case doPost_form e (server_url e args @ ''/api/v1/builds/bulk'') data [(''tag_prefix'', tagPrefix)] of
                   None \<Rightarrow> fail RequestError
                 | Some resp \<Rightarrow>
                     if ccode resp \<noteq> 201 then fail (ServerSaid (cbody resp))
                     else case decode (cbody resp) of
                       None \<Rightarrow> fail DecodeError
                     | Some r \<Rightarrow>
                         okay (line (''Created '' @ show_int (bCount r) @ '' builds:'') @
                           concat (map (\<lambda>(i, t). line (''  '' @ i @ ''  '' @ t)) (bBuilds r))))))"

definition status_text :: "jobj \<Rightarrow> string" where
  "status_text ob =
     line (''ID:      '' @ show_v ob ''id'') @ line (''Status:  '' @ show_v ob ''status'') @
     line (''Image:   '' @ show_v ob ''image_tag'') @
     (if map_of ob ''error'' \<noteq> Some (JStr []) then line (''Error:   '' @ show_v ob ''error'') else [])"

definition cmdStatus :: "cli_env \<Rightarrow> string list \<Rightarrow> cli_result" where
  "cmdStatus e args =
     (case snd (parseArgs args) of
        [] \<Rightarrow> fail (Usage ''status'')
      | i # _ \<Rightarrow>
         (case doGet e (server_url e args @ ''/api/v1/builds/'' @ i) of
            None \<Rightarrow> fail RequestError
          | Some resp \<Rightarrow>
              if ccode resp = 404 then okay (line ''build not found'')
              else case cobj resp of
                None \<Rightarrow> fail DecodeError
              | Some ob \<Rightarrow> okay (status_text ob)))"

definition cmdLogs :: "cli_env \<Rightarrow> string list \<Rightarrow> cli_result" where
  "cmdLogs e args =
     (case snd (parseArgs args) of
        [] \<Rightarrow> fail (Usage ''logs'')
      | i # _ \<Rightarrow>
         (case doGet e (server_url e args @ ''/api/v1/builds/'' @ i @ ''/logs'') of
            None \<Rightarrow> fail RequestError
          | Some resp \<Rightarrow> okay (cbody resp)))"

definition cmdList :: "cli_env \<Rightarrow> string list \<Rightarrow> cli_result" where
  "cmdList e args =
     (case doGet e (server_url e args @ ''/api/v1/builds'') of
        None \<Rightarrow> fail RequestError
      | Some resp \<Rightarrow>
         (case carr resp of
            None \<Rightarrow> fail DecodeError
          | Some bs \<Rightarrow>
              okay (concat (map (\<lambda>b. line (show_v b ''id'' @ ''  '' @ pad12 (show_v b ''status'') @ ''  '' @ show_v b ''image_tag'')) bs))))"

definition main :: "cli_env \<Rightarrow> (string \<Rightarrow> bulk_resp option) \<Rightarrow> string list \<Rightarrow> cli_result" where
  "main e decode os_args =
     (case tl os_args of
        [] \<Rightarrow> fail (Usage [])
      | cmd # args \<Rightarrow>
          if cmd = ''submit'' then cmdSubmit e args
          else if cmd = ''submit-bulk'' then cmdSubmitBulk e decode args
          else if cmd = ''status'' then cmdStatus e args
          else if cmd = ''logs'' then cmdLogs e args
          else if cmd = ''list'' then cmdList e args
          else fail (UnknownCommand cmd))"

subsection \<open>Properties\<close>

lemma flag_prefix: "HasPrefix a ''--arg.'' \<Longrightarrow> HasPrefix a ''--''"
  by (auto simp: HasPrefix_append)

lemma arg_fields_Cons:
  "arg_fields (a # r) = (case arg_pair a of None \<Rightarrow> arg_fields r | Some (k, v) \<Rightarrow> (''arg.'' @ k, v) # arg_fields r)"
  by (auto simp: arg_fields_def List.map_filter_simps split: option.splits)

lemma no_arg_pair: "\<not> HasPrefix a ''--arg.'' \<Longrightarrow> arg_fields (a # r) = arg_fields r"
  by (simp add: arg_fields_Cons arg_pair_def)

text \<open>The two scans of the client's arguments agree: the form fields of a submission hold, for
  every key, the value that the argument map has for it, the last one given when a key is
  repeated, and no others; what follows any other flag is not mistaken for a build argument.\<close>

theorem arg_fields_agree:
  "map_of (rev (arg_fields args)) (''arg.'' @ k) = fst (parseArgs args) k"
proof (induction args rule: parseArgs.induct)
  case 1
  then show ?case by (simp add: arg_fields_def)
next
  case (2 a r)
  show ?case
  proof (cases "HasPrefix a ''--arg.''")
    case True
    then show ?thesis using 2(1)
      by (auto simp: arg_fields_Cons map_of_append map_add_def split: option.splits prod.splits)
  next
    case False
    note na = no_arg_pair [OF False]
    show ?thesis
    proof (cases "HasPrefix a ''--''")
      case no: False
      then show ?thesis using 2(2) False na by (auto split: prod.splits)
    next
      case yes: True
      show ?thesis
      proof (cases r)
        case (Cons b r')
        have "\<not> HasPrefix b ''--'' \<Longrightarrow> arg_fields r = arg_fields r'"
          using no_arg_pair flag_prefix Cons by blast
        then show ?thesis using 2(3,4) [OF False _ Cons] yes False na Cons by auto
      qed (use yes False na in \<open>simp add: arg_fields_def\<close>)
    qed
  qed
qed

end
