(* ===== verification/Upload.thy ===== *)
theory Upload
  imports Cli Api
begin

text \<open>
  The way of a build context: the client packs a folder (\<open>tarGz\<close> of \<open>cmd/dtbuild\<close>), the
  server stores the archive (\<open>submitBuild\<close>, \<open>LocalStore.Put\<close>) and serves it (\<open>serveBlob\<close>),
  and the worker unpacks it into the directory of the build (\<open>extractTarGz\<close>). The theorem at
  the end says that the files arrive as they were.
\<close>

subsection \<open>Cleaned paths once more\<close>

lemma Join_append: "as \<noteq> [] \<Longrightarrow> bs \<noteq> [] \<Longrightarrow> Join d (as @ bs) = Join d as @ d @ Join d bs"
proof (induction as)
  case (Cons a as)
  then show ?case by (cases "as = []") (auto simp: Join_Cons)
qed simp

lemma fold_ups: "fold (clean_step False) (replicate k ''..'') (replicate j ''..'') = replicate (k + j) ''..''"
proof (induction k arbitrary: j)
  case (Suc k)
  have "clean_step False ''..'' (replicate j ''..'') = replicate (Suc j) ''..''"
    by (cases j) (auto simp: clean_step_def)
  then show ?case using Suc [of "Suc j"] by simp
qed simp

lemma clean_comps_Clean: "clean_comps (Clean p) = clean_comps p"
proof (cases "rooted p")
  case True
  then show ?thesis using fold_plain [of "clean_comps p" True "[]"] rooted_plain [OF True]
    by (auto simp: clean_comps_def [of "Clean p"] rooted_Clean Split_Clean clean_step_def)
next
  case False
  obtain k ps where k: "clean_comps p = replicate k ''..'' @ ps" "\<forall>q \<in> set ps. plain q" using relative_comps [OF False] by blast
  have "fold (clean_step False) (clean_comps p) [] = rev (clean_comps p)"
    using fold_plain [of ps False "replicate k ''..''"] fold_ups [of k 0] k by simp
  then show ?thesis using False
    by (auto simp: clean_comps_def [of "Clean p"] rooted_Clean Split_Clean clean_step_def)
qed

lemma Clean_Clean: "Clean (Clean p) = Clean p"
  by (simp add: Clean_def [of "Clean p"] rooted_Clean clean_comps_Clean) (simp add: Clean_def)

lemma clean_comps_below:
  assumes "dest \<noteq> []" "ns \<noteq> []" "\<And>c. c \<in> set ns \<Longrightarrow> plain c"
  shows "clean_comps (dest @ sep # Join [sep] ns) = clean_comps dest @ ns"
proof -
  have "Split sep (Join [sep] ns) = ns" using Split_Join_kept [of ns] assms(2,3) by (auto simp: plain_def)
  then show ?thesis using fold_plain [of ns] assms rooted_append [of dest "sep # Join [sep] ns"]
    by (simp add: clean_comps_def Split_append)
qed

lemma Clean_below:
  assumes "dest \<noteq> []" "clean_comps dest \<noteq> []" "ns \<noteq> []" "\<And>c. c \<in> set ns \<Longrightarrow> plain c"
  shows "Clean (path_join dest (Join [sep] ns)) = Clean dest @ sep # Join [sep] ns"
    and "path_join dest (Join [sep] ns) = Clean dest @ sep # Join [sep] ns"
proof -
  have r: "rooted (dest @ sep # Join [sep] ns) = rooted dest" using rooted_append [OF assms(1)] by blast
  have c: "Clean (dest @ sep # Join [sep] ns) = Clean dest @ sep # Join [sep] ns"
    using clean_comps_below [OF assms(1,3,4)] assms(2,3) Join_append [of "clean_comps dest" ns "[sep]"]
    by (simp add: Clean_def r)
  then show "path_join dest (Join [sep] ns) = Clean dest @ sep # Join [sep] ns" using assms(1) by (simp add: path_join_def)
  then show "Clean (path_join dest (Join [sep] ns)) = Clean dest @ sep # Join [sep] ns" using c Clean_Clean by metis
qed

lemma walk_below:
  assumes "ns \<noteq> []" "\<And>c. c \<in> set ns \<Longrightarrow> plain c"
  shows "walk cwd (path_join dest (Join [sep] ns)) = walk cwd dest @ ns"
proof -
  have s: "Split sep (Join [sep] ns) = ns" using Split_Join_kept [of ns] assms by (auto simp: plain_def)
  have "\<not> rooted (Join [sep] ns)" using Join_rooted [of ns False] assms by (auto simp: plain_def kept_def)
  then show ?thesis using walk_join_plain [of "Join [sep] ns" cwd dest] s assms by simp
qed

lemma dir_below:
  assumes "dest \<noteq> []" "clean_comps dest \<noteq> []" "ns \<noteq> []" "\<And>c. c \<in> set ns \<Longrightarrow> plain c"
  shows "walk cwd (path_dir (path_join dest (Join [sep] ns))) = walk cwd dest @ butlast ns"
proof -
  have l: "ns = butlast ns @ [last ns]" using assms(3) by simp
  have "\<exists>a. path_join dest (Join [sep] ns) = a @ sep # last ns"
  proof (cases "butlast ns = []")
    case True
    then have "ns = [last ns]" using l by simp
    then have "Join [sep] ns = last ns" by (metis Join.simps(2))
    then show ?thesis using Clean_below(2) [OF assms] by auto
  next
    case False
    then have "Join [sep] ns = Join [sep] (butlast ns) @ sep # last ns"
      using Join_append [of "butlast ns" "[last ns]" "[sep]"] l by simp
    then show ?thesis using Clean_below(2) [OF assms] by (intro exI [of _ "Clean dest @ sep # Join [sep] (butlast ns)"]) simp
  qed
  moreover have "plain (last ns)" using assms(3,4) by simp
  ultimately have "walk cwd (path_dir (path_join dest (Join [sep] ns))) = butlast (walk cwd (path_join dest (Join [sep] ns)))"
    using walk_dir by blast
  then show ?thesis using walk_below [OF assms(3,4)] assms(3) by (simp add: butlast_append)
qed

subsection \<open>Packing and unpacking\<close>

text \<open>A folder as the client finds it: names are plain and no file has anything below it.\<close>

definition fs_tree :: "fs \<Rightarrow> bool" where
  "fs_tree f \<longleftrightarrow> distinct (map fst f) \<and>
     (\<forall>(q, n) \<in> set f. (\<forall>c \<in> set q. plain c) \<and> (\<forall>i < length q. file_at f (take i q) = None))"

definition rel_nodes :: "string list \<Rightarrow> fs \<Rightarrow> (string list \<times> node) set" where
  "rel_nodes d f = {(ns, n). ns \<noteq> [] \<and> (d @ ns, n) \<in> set f}"

lemma fs_tree_map_of: "fs_tree f \<Longrightarrow> (q, n) \<in> set f \<Longrightarrow> map_of f q = Some n"
  by (simp add: fs_tree_def)

lemma rel_nodes_file:
  assumes "fs_tree f" "ns \<noteq> []"
  shows "file_at f (d @ ns) = Some c \<longleftrightarrow> (ns, File c) \<in> rel_nodes d f"
  using fs_tree_map_of [OF assms(1), of "d @ ns" "File c"] assms(2)
  by (auto simp: file_at_Some rel_nodes_def dest: map_of_SomeD)

lemma rel_nodes_unique: "fs_tree f \<Longrightarrow> (ns, n) \<in> rel_nodes d f \<Longrightarrow> (ns, m) \<in> rel_nodes d f \<Longrightarrow> n = m"
  using fs_tree_map_of [of f "d @ ns" n] fs_tree_map_of [of f "d @ ns" m] by (simp add: rel_nodes_def)

lemma rel_nodes_plain: "fs_tree f \<Longrightarrow> (ns, n) \<in> rel_nodes d f \<Longrightarrow> c \<in> set ns \<Longrightarrow> plain c"
  unfolding fs_tree_def rel_nodes_def by fastforce

lemma fs_tree_prefix: "fs_tree f \<Longrightarrow> (q, n) \<in> set f \<Longrightarrow> i < length q \<Longrightarrow> file_at f (take i q) = None"
  unfolding fs_tree_def by blast

lemma rel_nodes_leaf:
  assumes "fs_tree f" "(ns @ ms, n) \<in> rel_nodes d f" "ms \<noteq> []" "ns \<noteq> []"
  shows "(ns, File c) \<notin> rel_nodes d f"
proof -
  have "(d @ ns @ ms, n) \<in> set f" using assms(2) by (simp add: rel_nodes_def)
  then have "file_at f (take (length (d @ ns)) (d @ ns @ ms)) = None"
    by (rule fs_tree_prefix [OF assms(1)]) (use assms(3) in simp)
  then show ?thesis using rel_nodes_file [OF assms(1,4), of d c] by simp
qed

lemma mkdir_all_new:
  "node_at (snd (mkdir_all dir ns f)) p = Some Directory \<Longrightarrow>
   node_at f p = Some Directory \<or> (\<exists>i. 0 < i \<and> i \<le> length ns \<and> p = dir @ take i ns)"
proof (induction ns arbitrary: dir f)
  case (Cons n ns)
  let ?g = "case node_at f (dir @ [n]) of None \<Rightarrow> AList.update (dir @ [n]) Directory f | Some _ \<Rightarrow> f"
  have shift: "\<exists>i. 0 < i \<and> i \<le> length (n # ns) \<and> p = dir @ take i (n # ns)"
    if "\<exists>i. 0 < i \<and> i \<le> length ns \<and> p = (dir @ [n]) @ take i ns"
    using that by (metis Suc_le_mono append.assoc append_Cons append_Nil length_Cons take_Suc_Cons zero_less_Suc)
  have one: "\<exists>i. 0 < i \<and> i \<le> length (n # ns) \<and> dir @ [n] = dir @ take i (n # ns)"
    by (intro exI [of _ 1]) simp
  show ?case
  proof (cases "node_at f (dir @ [n])")
    case None
    then have "node_at (snd (mkdir_all (dir @ [n]) ns ?g)) p = Some Directory" using Cons.prems by simp
    then have "node_at ?g p = Some Directory \<or> (\<exists>i. 0 < i \<and> i \<le> length ns \<and> p = (dir @ [n]) @ take i ns)"
      by (rule Cons.IH)
    moreover have "node_at ?g p = (if p = dir @ [n] then Some Directory else node_at f p)"
      using None by (simp add: node_at_def update_conv')
    ultimately show ?thesis using shift one by (auto split: if_splits)
  next
    case (Some x)
    then show ?thesis using Cons.prems Cons.IH [of "dir @ [n]" f] shift by (cases x) auto
  qed
qed simp

text \<open>What the destination holds after some entries: exactly their files, and directories only
  where an entry needs them.\<close>

definition dirs_needed :: "string list \<Rightarrow> (string list \<times> node) set \<Rightarrow> fs \<Rightarrow> bool" where
  "dirs_needed D S g \<longleftrightarrow>
     (\<forall>ns. ns \<noteq> [] \<longrightarrow> node_at g (D @ ns) = Some Directory \<longrightarrow>
        (\<exists>ms n. (ns @ ms, n) \<in> S \<and> (ms = [] \<longrightarrow> n = Directory)))"

definition unpacked :: "string list \<Rightarrow> (string list \<times> node) set \<Rightarrow> fs \<Rightarrow> bool" where
  "unpacked D S g \<longleftrightarrow> dirs_needed D S g \<and> (\<forall>i \<le> length D. file_at g (take i D) = None) \<and>
     (\<forall>ns c. ns \<noteq> [] \<longrightarrow> (file_at g (D @ ns) = Some c \<longleftrightarrow> (ns, File c) \<in> S))"

lemma dirs_needed_mkdir:
  assumes "dirs_needed D S g" "(ns @ ms, n) \<in> T" "S \<subseteq> T" "ms = [] \<longrightarrow> n = Directory"
  shows "dirs_needed D T (snd (mkdir_all [] (D @ ns) g))"
  unfolding dirs_needed_def
proof (intro allI impI)
  fix rs assume rs: "rs \<noteq> []" "node_at (snd (mkdir_all [] (D @ ns) g)) (D @ rs) = Some Directory"
  consider "node_at g (D @ rs) = Some Directory" | i where "D @ rs = take i (D @ ns)"
    using mkdir_all_new [OF rs(2)] by auto
  then show "\<exists>ks n. (rs @ ks, n) \<in> T \<and> (ks = [] \<longrightarrow> n = Directory)"
  proof cases
    case 1
    then show ?thesis using assms(1,3) rs(1) unfolding dirs_needed_def by blast
  next
    case 2
    then have "D @ ns = D @ rs @ drop i (D @ ns)" by (metis append.assoc append_take_drop_id)
    then obtain ks where "ns = rs @ ks" by (metis same_append_eq)
    then show ?thesis using assms(2,4) by (intro exI [of _ "ks @ ms"] exI [of _ n]) auto
  qed
qed

lemma unpacked_prefix:
  assumes "unpacked D S g" "fs_tree f" "S \<subseteq> rel_nodes d f" "(ns @ ms, n) \<in> rel_nodes d f" "ms \<noteq> []" "i \<le> length (D @ ns)"
  shows "file_at g (take i (D @ ns)) = None"
proof (cases "i \<le> length D")
  case True
  then show ?thesis using assms(1) by (simp add: unpacked_def)
next
  case False
  let ?k = "i - length D"
  have k: "take ?k ns \<noteq> []" using False assms(6) by auto
  have "(take ?k ns @ (drop ?k ns @ ms), n) \<in> rel_nodes d f" using assms(4) by (simp add: append.assoc [symmetric])
  then have "(take ?k ns, File c) \<notin> rel_nodes d f" for c
    by (rule rel_nodes_leaf [OF assms(2)]) (use assms(5) k in auto)
  then have "file_at g (D @ take ?k ns) \<noteq> Some c" for c using assms(1,3) k unfolding unpacked_def by blast
  then show ?thesis using False by (cases "file_at g (D @ take ?k ns)") auto
qed

lemma extract_file:
  assumes "unpacked D S g" "fs_tree f" "S \<subseteq> rel_nodes d f" "(ns, File c) \<in> rel_nodes d f"
    and g': "g1 = snd (mkdir_all [] (D @ butlast ns) g)"
  shows "\<exists>g2. os_create (D @ ns) g1 = Some g2 \<and> unpacked D (insert (ns, File c) S) (AList.update (D @ ns) (File c) g2)"
proof -
  have ns: "ns \<noteq> []" "ns = butlast ns @ [last ns]" using assms(4) by (auto simp: rel_nodes_def)
  have "file_at g (take i (D @ butlast ns)) = None" if "i \<le> length (D @ butlast ns)" for i
    using unpacked_prefix [OF assms(1-3), of "butlast ns" "[last ns]" "File c" i] assms(4) ns that by simp
  then have par: "node_at g1 (D @ butlast ns) = Some Directory"
    using mkdir_all_ok [of g "[]" "D @ butlast ns"] by (simp add: g' node_at_def)
  have "node_at g (D @ ns) \<noteq> Some Directory"
  proof
    assume "node_at g (D @ ns) = Some Directory"
    then obtain ms n where ms: "(ns @ ms, n) \<in> S" "ms = [] \<longrightarrow> n = Directory"
      using assms(1) ns(1) unfolding unpacked_def dirs_needed_def by blast
    then show False using rel_nodes_leaf [OF assms(2), of ns ms n d c] rel_nodes_unique [OF assms(2), of ns n d "File c"]
      assms(3,4) ns(1) by (cases "ms = []") auto
  qed
  moreover have "node_at g1 (D @ ns) = node_at g (D @ ns)"
    unfolding g' by (rule mkdir_all_deeper) (use ns in \<open>simp add: length_butlast\<close>)
  ultimately have cr: "os_create (D @ ns) g1 = Some (AList.update (D @ ns) (File []) g1)"
    using par ns(1) by (simp add: os_create_Some butlast_append)
  let ?h = "AList.update (D @ ns) (File c) (AList.update (D @ ns) (File []) g1)"
  have fl: "file_at ?h p = (if p = D @ ns then Some c else file_at g p)" for p
    using ns(1) by (simp add: file_at_update g')
  have nd: "node_at ?h p = Some Directory \<Longrightarrow> node_at g1 p = Some Directory" for p
    by (auto simp: node_at_def update_conv' split: if_splits)
  have "dirs_needed D (insert (ns, File c) S) g1"
    unfolding g' by (rule dirs_needed_mkdir [of D S g "butlast ns" "[last ns]" "File c"]) (use assms(1) ns in \<open>auto simp: unpacked_def\<close>)
  then have "dirs_needed D (insert (ns, File c) S) ?h" using nd unfolding dirs_needed_def by blast
  moreover have "file_at ?h (take i D) = None" if "i \<le> length D" for i
    using assms(1) that ns(1) unfolding fl unpacked_def by (auto dest: arg_cong [where f = length])
  moreover have "file_at ?h (D @ ks) = Some c' \<longleftrightarrow> (ks, File c') \<in> insert (ns, File c) S" if "ks \<noteq> []" for ks c'
    using assms(1-4) that rel_nodes_unique [OF assms(2), of ns "File c'" d "File c"]
    unfolding fl unpacked_def by auto
  ultimately show ?thesis using cr unfolding unpacked_def by blast
qed

lemma extract_step:
  assumes "unpacked (walk cwd dest) S g" "fs_tree f" "S \<subseteq> rel_nodes d f" "(ns, n) \<in> rel_nodes d f"
    and dest: "dest \<noteq> []" "clean_comps dest \<noteq> []"
  shows "\<exists>g'. extract_entry cwd dest no_faults (tar_header d (d @ ns, n)) g = (True, g') \<and>
           unpacked (walk cwd dest) (insert (ns, n) S) g'"
proof -
  have ns: "ns \<noteq> []" "\<And>c. c \<in> set ns \<Longrightarrow> plain c"
    using assms(4) rel_nodes_plain [OF assms(2,4)] by (auto simp: rel_nodes_def)
  let ?p = "path_join dest (Join [sep] ns)" and ?D = "walk cwd dest"
  have w: "walk cwd ?p = ?D @ ns" using walk_below [OF ns] .
  have wd: "walk cwd (path_dir ?p) = ?D @ butlast ns" using dir_below [OF dest ns] .
  have chk: "HasPrefix (Clean ?p) (Clean dest @ [sep])" using Clean_below(1) [OF dest ns] by (simp add: HasPrefix_append)
  show ?thesis
  proof (cases n)
    case Directory
    let ?g = "snd (mkdir_all [] (?D @ ns) g)"
    have "dirs_needed ?D (insert (ns, n) S) ?g"
      by (rule dirs_needed_mkdir [of ?D S g ns "[]" n]) (use assms(1) Directory in \<open>auto simp: unpacked_def\<close>)
    then have "unpacked ?D (insert (ns, n) S) ?g" using assms(1) Directory by (simp add: unpacked_def)
    then show ?thesis using chk w Directory by (simp add: extract_entry_def tar_header_def try_mkdir_def no_faults_def)
  next
    case (File c)
    then show ?thesis
      using extract_file [OF assms(1-3) assms(4) [unfolded File] refl] chk w wd
      by (auto simp: extract_entry_def tar_header_def try_mkdir_def no_faults_def Let_def)
  qed
qed

lemma extract_all:
  assumes "unpacked (walk cwd dest) S g" "fs_tree f" "S \<subseteq> rel_nodes d f" "dest \<noteq> []" "clean_comps dest \<noteq> []"
    and "\<And>q n. (q, n) \<in> set xs \<Longrightarrow> (q, n) \<in> set f \<and> take (length d) q = d \<and> q \<noteq> d"
  shows "\<exists>g'. extract_entries cwd dest (\<lambda>_. no_faults) k (map (tar_header d) xs) g = (True, g') \<and>
           unpacked (walk cwd dest) (S \<union> {(ns, n). (d @ ns, n) \<in> set xs}) g'"
  using assms(1,3,6)
proof (induction xs arbitrary: S g k)
  case (Cons x xs)
  obtain q n where x: "x = (q, n)" by (cases x)
  obtain ns where q: "q = d @ ns" "ns \<noteq> []" using Cons.prems(3) [of q n] x by (metis append_Nil2 append_take_drop_id list.set_intros(1))
  have rel: "(ns, n) \<in> rel_nodes d f" using Cons.prems(3) [of q n] x q by (simp add: rel_nodes_def)
  obtain g1 where g1: "extract_entry cwd dest no_faults (tar_header d (d @ ns, n)) g = (True, g1)"
    "unpacked (walk cwd dest) (insert (ns, n) S) g1"
    using extract_step [OF Cons.prems(1) assms(2) Cons.prems(2) rel assms(4,5)] by blast
  obtain g2 where g2: "extract_entries cwd dest (\<lambda>_. no_faults) (k + 1) (map (tar_header d) xs) g1 = (True, g2)"
    "unpacked (walk cwd dest) (insert (ns, n) S \<union> {(ns, n). (d @ ns, n) \<in> set xs}) g2"
    using Cons.IH [OF g1(2)] Cons.prems(2,3) rel by (metis insert_subset list.set_intros(2))
  have "insert (ns, n) S \<union> {(ns, n). (d @ ns, n) \<in> set xs} = S \<union> {(ns, n). (d @ ns, n) \<in> set (x # xs)}"
    using x q by auto
  then show ?case using g1(1) g2 x q by simp
qed simp

text \<open>An empty destination: an existing directory with nothing below it.\<close>

definition empty_dest :: "string list \<Rightarrow> fs \<Rightarrow> bool" where
  "empty_dest D g \<longleftrightarrow> (\<forall>i \<le> length D. file_at g (take i D) = None) \<and> (\<forall>ns. ns \<noteq> [] \<longrightarrow> node_at g (D @ ns) = None)"

lemma unpack_all:
  assumes "fs_tree f" "empty_dest (walk cwd dest) g" "dest \<noteq> []" "clean_comps dest \<noteq> []"
  shows "\<exists>g'. extract_entries cwd dest (\<lambda>_. no_faults) 0 (map (tar_header d) (below d f)) g = (True, g') \<and>
           unpacked (walk cwd dest) (rel_nodes d f) g'"
proof -
  have u: "unpacked (walk cwd dest) {} g"
    using assms(2) by (auto simp: unpacked_def dirs_needed_def empty_dest_def file_at_def)
  have mem: "(q, n) \<in> set (below d f) \<longleftrightarrow> (q, n) \<in> set f \<and> take (length d) q = d \<and> q \<noteq> d" for q n
    by (auto simp: below_def)
  then have "{} \<union> {(ns, n). (d @ ns, n) \<in> set (below d f)} = rel_nodes d f" by (auto simp: rel_nodes_def)
  then show ?thesis using extract_all [OF u assms(1) _ assms(3,4), of d "below d f" 0] mem by auto
qed

lemma unpacked_file:
  assumes "unpacked D (rel_nodes d f) g" "fs_tree f" "ns \<noteq> []"
  shows "file_at g (D @ ns) = file_at f (d @ ns)"
proof -
  have "file_at g (D @ ns) = Some c \<longleftrightarrow> file_at f (d @ ns) = Some c" for c
    using assms rel_nodes_file [OF assms(2,3), of d c] by (simp add: unpacked_def)
  then show ?thesis by (metis not_None_eq)
qed

lemma mkdir_all_keeps: "node_at f p = Some Directory \<Longrightarrow> node_at (snd (mkdir_all dir ns f)) p = Some Directory"
  by (induction ns arbitrary: dir f) (auto simp: node_at_def update_conv' split: option.splits node.splits)

lemma file_update_keeps:
  "node_at f q \<noteq> Some Directory \<Longrightarrow> node_at f p = Some Directory \<Longrightarrow> node_at (AList.update q (File c) f) p = Some Directory"
  by (auto simp: node_at_def update_conv')

lemma os_create_keeps:
  assumes "os_create q f = Some f'" "node_at f p = Some Directory"
  shows "node_at (AList.update q (File c) f') p = Some Directory"
proof -
  have "node_at f q \<noteq> Some Directory" "f' = AList.update q (File []) f" using assms(1) by (auto simp: os_create_Some)
  moreover have "node_at (AList.update q (File []) f) q \<noteq> Some Directory" using os_create_file [OF assms(1)]
    by (simp add: node_at_def update_conv')
  ultimately show ?thesis using assms(2) by (simp add: file_update_keeps)
qed

lemma extract_entry_keeps:
  assumes "node_at f p = Some Directory"
  shows "node_at (snd (extract_entry cwd dest flt h f)) p = Some Directory"
proof -
  have m: "node_at (try_mkdir flt q f) p = Some Directory" for q using assms by (simp add: try_mkdir_def mkdir_all_keeps)
  show ?thesis using assms m os_create_keeps [OF _ m]
    by (cases "Typeflag h") (auto simp: extract_entry_def Let_def split: option.splits)
qed

lemma extract_entries_keeps:
  "node_at f p = Some Directory \<Longrightarrow> node_at (snd (extract_entries cwd dest flt k hs f)) p = Some Directory"
proof (induction hs arbitrary: f k)
  case (Cons h hs)
  then show ?case using extract_entry_keeps [OF Cons.prems, of cwd dest "flt k" h] by (auto split: prod.splits)
qed simp

subsection \<open>Properties\<close>

text \<open>(C15) A build context arrives as it was sent. When the client has packed a folder, and the
  server has stored the archive under the key of the build, every later download of it gives
  the archive, whatever is stored under other keys meanwhile, and unpacking it into an empty
  directory on the worker recreates exactly the files of the folder. The archive
  packages give back the entries that were packed (as \<open>archive/tar\<close> promises), the folder has
  plain file names and the file systems do not fail.\<close>

theorem context_roundtrip:
  assumes "fs_tree (disk ce)" "\<And>q. \<not> unreadable ce q" "node_at (disk ce) (walk (cli_cwd ce) folder) \<noteq> None"
    and tar: "hs = map (tar_header (walk (cli_cwd ce) folder)) (below (walk (cli_cwd ce) folder) (disk ce))"
      "unpack (tar_gz ce hs) = Some (hs, True)"
    and key: "\<not> key_rejected (context_key i)"
    and way: "\<And>j. j < length q \<Longrightarrow> file_at f (take j q) = None" "node_at f q \<noteq> Some Directory"
      "q = walk cwd (resolveKey st (context_key i))"
    and ops: "\<And>x. x \<in> set ops \<Longrightarrow> \<not> key_rejected (op_key x) \<and> op_key x \<noteq> context_key i"
    and dest: "empty_dest (walk wcwd dest) g" "dest \<noteq> []" "clean_comps dest \<noteq> []"
  shows "\<exists>data f' g'. tarGz ce folder = Some data \<and> Put_local cwd st no_faults (context_key i) data f = ((length data, True), f') \<and>
    serveBlob (\<lambda>k. Get_local cwd st no_faults k (blob_run (Put_local cwd st) (Delete_local cwd st) ops f'))
       (''/api/v1/blobs/contexts/'' @ i @ ''.tar.gz'') = (200, data) \<and>
    extractTarGz unpack wcwd (\<lambda>_. no_faults) data dest g = (True, g') \<and>
    (\<forall>ns. ns \<noteq> [] \<longrightarrow> file_at g' (walk wcwd dest @ ns) = file_at (disk ce) (walk (cli_cwd ce) folder @ ns))"
proof -
  let ?d = "walk (cli_cwd ce) folder"
  let ?hs = "map (tar_header ?d) (below ?d (disk ce))"
  let ?data = "tar_gz ce ?hs"
  have pack: "tarGz ce folder = Some ?data" using assms(2,3) by (auto simp: tarGz_def Let_def list_ex_iff)
  have dot: "context_key i \<noteq> ''.''" by (simp add: context_key_def)
  have "fst (Put_local cwd st no_faults (context_key i) ?data f) = (length ?data, True)"
    using Put_ok [OF key dot, of no_faults q cwd st f ?data] way by (simp add: no_faults_def)
  then obtain f' where f': "Put_local cwd st no_faults (context_key i) ?data f = ((length ?data, True), f')"
    by (metis prod.collapse)
  have "Get_local cwd st no_faults (context_key i) (blob_run (Put_local cwd st) (Delete_local cwd st) ops f') = (?data, True)"
    using local_store.stored_stays [OF f' key ops] by simp
  moreover have "TrimPrefix (''/api/v1/blobs/contexts/'' @ i @ ''.tar.gz'') ''/api/v1/blobs/'' = context_key i"
    by (simp add: TrimPrefix_def HasPrefix_def context_key_def)
  ultimately have serve: "serveBlob (\<lambda>k. Get_local cwd st no_faults k (blob_run (Put_local cwd st) (Delete_local cwd st) ops f'))
       (''/api/v1/blobs/contexts/'' @ i @ ''.tar.gz'') = (200, ?data)"
    using key accepted_key(1) [OF key] by (simp add: serveBlob_def Let_def)
  obtain g' where "extract_entries wcwd dest (\<lambda>_. no_faults) 0 ?hs g = (True, g')"
    "\<forall>ns. ns \<noteq> [] \<longrightarrow> file_at g' (walk wcwd dest @ ns) = file_at (disk ce) (?d @ ns)"
    using unpack_all [OF assms(1) dest, of ?d] unpacked_file [OF _ assms(1)] by blast
  then show ?thesis using pack f' serve tar by (auto simp: extractTarGz_def)
qed

definition sample_cli :: cli_env where
  "sample_cli = \<lparr>getenv = (\<lambda>_. []), cli_cwd = [''home''], disk = [([''home''], Directory), ([''home'', ''app''], Directory),
       ([''home'', ''app'', ''Dockerfile''], File ''FROM a'')], http = (\<lambda>_. None),
     tar_gz = (\<lambda>hs. concat (map content hs)), unreadable = (\<lambda>_. False), boundary = ''b''\<rparr>"

definition sample_unpack :: "string \<Rightarrow> (tar_entry list \<times> bool) option" where
  "sample_unpack s = Some ([\<lparr>hName = ''Dockerfile'', Typeflag = TypeReg, content = s\<rparr>], True)"

lemma sample_tree: "fs_tree (disk sample_cli)"
  by (auto simp: fs_tree_def sample_cli_def plain_def file_at_def node_at_def less_Suc_eq)

theorem context_roundtrip_witness:
  "\<exists>data f' g'. tarGz sample_cli ''app'' = Some data \<and>
    Put_local [] \<lparr>basePath = ''/data''\<rparr> no_faults (context_key ''b1'') data [] = ((length data, True), f') \<and>
    serveBlob (\<lambda>k. Get_local [] \<lparr>basePath = ''/data''\<rparr> no_faults k f') ''/api/v1/blobs/contexts/b1.tar.gz'' = (200, data) \<and>
    extractTarGz sample_unpack [] (\<lambda>_. no_faults) data ''/work/b1'' [] = (True, g') \<and>
    file_at g' [''work'', ''b1'', ''Dockerfile''] = Some ''FROM a''"
proof -
  have w: "walk [''home''] ''app'' = [''home'', ''app'']" "walk [] ''/work/b1'' = [''work'', ''b1'']" by code_simp+
  have b: "below [''home'', ''app''] (disk sample_cli) = [([''home'', ''app'', ''Dockerfile''], File ''FROM a'')]"
    by (simp add: below_def sample_cli_def)
  have fn: "file_at [] q = None" for q by (simp add: file_at_def node_at_def)
  have e: "empty_dest (walk [] ''/work/b1'') []" by (simp add: empty_dest_def file_at_def node_at_def)
  have k: "\<not> key_rejected (context_key ''b1'')"
    by (simp add: context_key_def key_rejected_def Contains_def Clean_def clean_comps_def rooted_def clean_step_def)
  have q: "node_at [] (walk [] (resolveKey \<lparr>basePath = ''/data''\<rparr> (context_key ''b1''))) \<noteq> Some Directory" by code_simp
  have c: "clean_comps ''/work/b1'' \<noteq> []" by code_simp
  have u: "\<not> unreadable sample_cli q" for q by (simp add: sample_cli_def)
  have cw: "cli_cwd sample_cli = [''home'']" by (simp add: sample_cli_def)
  have n: "node_at (disk sample_cli) (walk (cli_cwd sample_cli) ''app'') \<noteq> None"
    by (simp add: cw w) (simp add: sample_cli_def node_at_def)
  have p: "sample_unpack (tar_gz sample_cli (map (tar_header (walk (cli_cwd sample_cli) ''app''))
      (below (walk (cli_cwd sample_cli) ''app'') (disk sample_cli)))) =
      Some (map (tar_header (walk (cli_cwd sample_cli) ''app'')) (below (walk (cli_cwd sample_cli) ''app'') (disk sample_cli)), True)"
    by (simp add: cw w b tar_header_def sample_unpack_def) (simp add: sample_cli_def)
  have f: "file_at (disk sample_cli) [''home'', ''app'', ''Dockerfile''] = Some ''FROM a''" by (simp add: sample_cli_def file_at_def node_at_def)
  obtain data f' g' where r: "tarGz sample_cli ''app'' = Some data"
    "Put_local [] \<lparr>basePath = ''/data''\<rparr> no_faults (context_key ''b1'') data [] = ((length data, True), f')"
    "serveBlob (\<lambda>k. Get_local [] \<lparr>basePath = ''/data''\<rparr> no_faults k f') ''/api/v1/blobs/contexts/b1.tar.gz'' = (200, data)"
    "extractTarGz sample_unpack [] (\<lambda>_. no_faults) data ''/work/b1'' [] = (True, g')"
    "\<forall>ns. ns \<noteq> [] \<longrightarrow> file_at g' ([''work'', ''b1''] @ ns) = file_at (disk sample_cli) ([''home'', ''app''] @ ns)"
    using context_roundtrip [where ce = sample_cli and folder = "''app''" and unpack = sample_unpack and i = "''b1''"
        and wcwd = "[]" and dest = "''/work/b1''" and g = "[]" and ops = "[]" and cwd = "[]" and st = "\<lparr>basePath = ''/data''\<rparr>" and f = "[]", OF sample_tree u n refl p k fn q refl _ e _ c]
    by (auto simp: w cw)
  then show ?thesis using f r(5) [rule_format, of "[''Dockerfile'']"] by auto
qed

text \<open>(C37) Which Dockerfile a build uses, once its context is unpacked, by the field of the build. A field
  that is neither empty nor has a space or a line feed is a file name, and that file of
  the packed folder is used. Otherwise the field is the text of a Dockerfile, and the
  worker uses the file \<open>Dockerfile\<close> of the folder whenever there is one, and the submitted text only
  when there is none (then a failing write fails the build). So \<open>--dockerfile\<close> of the client,
  which sends the text of another file with the whole folder, has no effect on a folder that has a
  \<open>Dockerfile\<close>.\<close>

theorem dockerfile_used:
  assumes "fs_tree f" "empty_dest (walk (getwd e) dir) g" "dir \<noteq> []" "clean_comps dir \<noteq> []"
    and "node_at g (walk (getwd e) dir) = Some Directory"
    and nodir: "\<And>ms n. (d @ ''Dockerfile'' # ms, n) \<in> set f \<Longrightarrow> ms = [] \<and> n \<noteq> Directory"
  shows "\<exists>g1. extract_entries (getwd e) dir (\<lambda>_. no_faults) 0 (map (tar_header d) (below d f)) g = (True, g1) \<and>
    (\<forall>ns. ns \<noteq> [] \<longrightarrow> file_at g1 (walk (getwd e) dir @ ns) = file_at f (d @ ns)) \<and>
    (if Dockerfile b \<noteq> [] \<and> CHR '' '' \<notin> set (Dockerfile b) \<and> CHR 0x0A \<notin> set (Dockerfile b)
     then place_dockerfile e b dir g1 = (Some (Dockerfile b), g1)
     else case file_at f (d @ [''Dockerfile'']) of
       Some c \<Rightarrow> place_dockerfile e b dir g1 = (Some ''Dockerfile'', g1)
     | None \<Rightarrow> if write_fault e then place_dockerfile e b dir g1 = (None, g1)
         else \<exists>g2. place_dockerfile e b dir g1 = (Some ''Dockerfile'', g2) \<and>
           file_at g2 (walk (getwd e) dir @ [''Dockerfile'']) = Some (Dockerfile b))"
proof -
  let ?D = "walk (getwd e) dir"
  obtain g1 where g1: "extract_entries (getwd e) dir (\<lambda>_. no_faults) 0 (map (tar_header d) (below d f)) g = (True, g1)"
    "unpacked ?D (rel_nodes d f) g1" using unpack_all [OF assms(1-4)] by blast
  have w: "walk (getwd e) (path_join dir ''Dockerfile'') = ?D @ [''Dockerfile'']"
    using walk_below [of "[''Dockerfile'']"] by (simp add: plain_def)
  have all: "\<forall>ns. ns \<noteq> [] \<longrightarrow> file_at g1 (?D @ ns) = file_at f (d @ ns)" using unpacked_file [OF g1(2) assms(1)] by blast
  then have fl: "file_at g1 (?D @ [''Dockerfile'']) = file_at f (d @ [''Dockerfile''])" by blast
  have df: "Dockerfile b \<noteq> [] \<and> CHR '' '' \<notin> set (Dockerfile b) \<and> CHR 0x0A \<notin> set (Dockerfile b) \<longleftrightarrow> \<not> inline_df (Dockerfile b)"
    by (auto simp: inline_df_def Contains_char)
  have own: "place_dockerfile e b dir g1 = (Some ''Dockerfile'', g1)" if "file_at f (d @ [''Dockerfile'']) = Some c" "inline_df (Dockerfile b)" for c
    using that fl file_at_Some [of g1 "?D @ [''Dockerfile'']" c] w by (simp add: place_dockerfile_def node_at_def)
  have sent: "if write_fault e then place_dockerfile e b dir g1 = (None, g1)
      else \<exists>g2. place_dockerfile e b dir g1 = (Some ''Dockerfile'', g2) \<and> file_at g2 (?D @ [''Dockerfile'']) = Some (Dockerfile b)"
    if none: "file_at f (d @ [''Dockerfile'']) = None" "inline_df (Dockerfile b)"
  proof -
    have "node_at g1 (?D @ [''Dockerfile'']) \<noteq> Some Directory"
    proof
      assume "node_at g1 (?D @ [''Dockerfile'']) = Some Directory"
      then obtain ms n where "([''Dockerfile''] @ ms, n) \<in> rel_nodes d f" "ms = [] \<longrightarrow> n = Directory"
        using g1(2) unfolding unpacked_def dirs_needed_def by blast
      then show False using nodir [of ms n] by (simp add: rel_nodes_def)
    qed
    then have no: "node_at g1 (?D @ [''Dockerfile'']) = None" using none(1) fl
      by (auto simp: file_at_def split: option.splits node.splits)
    have "node_at g1 ?D = Some Directory" using extract_entries_keeps [OF assms(5)] g1(1) by (metis snd_conv)
    then have "os_create (?D @ [''Dockerfile'']) g1 = Some (AList.update (?D @ [''Dockerfile'']) (File []) g1)"
      using no by (simp add: os_create_Some)
    then show ?thesis using w no none by (simp add: place_dockerfile_def file_at_update)
  qed
  show ?thesis unfolding df
    using g1(1) all own sent by (intro exI [of _ g1]) (auto simp: place_dockerfile_def split: option.split)
qed

theorem dockerfile_used_witness:
  "\<exists>g1. extract_entries [] ''/work/b1'' (\<lambda>_. no_faults) 0
      (map (tar_header [''home'', ''app'']) (below [''home'', ''app''] (disk sample_cli))) [([''work''], Directory), ([''work'', ''b1''], Directory)] = (True, g1) \<and>
    place_dockerfile sample_wk_env (zero_build\<lparr>Dockerfile := ''FROM other''\<rparr>) ''/work/b1'' g1 = (Some ''Dockerfile'', g1) \<and>
    file_at g1 [''work'', ''b1'', ''Dockerfile''] = Some ''FROM a''"
proof -
  let ?g = "[([''work''], Directory), ([''work'', ''b1''], Directory)]"
  have w: "walk [] ''/work/b1'' = [''work'', ''b1'']" "getwd sample_wk_env = []" by code_simp (simp_all add: sample_wk_env_def)
  have e: "empty_dest [''work'', ''b1''] ?g" by (auto simp: empty_dest_def file_at_def node_at_def le_Suc_eq)
  have c: "clean_comps ''/work/b1'' \<noteq> []" by code_simp
  have f: "file_at (disk sample_cli) ([''home'', ''app''] @ [''Dockerfile'']) = Some ''FROM a''"
    by (simp add: sample_cli_def file_at_def node_at_def)
  have m: "ms = [] \<and> n \<noteq> Directory" if "([''home'', ''app''] @ ''Dockerfile'' # ms, n) \<in> set (disk sample_cli)" for ms n
    using that by (simp add: sample_cli_def)
  have dr: "node_at ?g [''work'', ''b1''] = Some Directory" by (simp add: node_at_def)
  obtain g1 where "extract_entries [] ''/work/b1'' (\<lambda>_. no_faults) 0
      (map (tar_header [''home'', ''app'']) (below [''home'', ''app''] (disk sample_cli))) ?g = (True, g1)"
    "\<forall>ns. ns \<noteq> [] \<longrightarrow> file_at g1 ([''work'', ''b1''] @ ns) = file_at (disk sample_cli) ([''home'', ''app''] @ ns)"
    "place_dockerfile sample_wk_env (zero_build\<lparr>Dockerfile := ''FROM other''\<rparr>) ''/work/b1'' g1 = (Some ''Dockerfile'', g1)"
    using dockerfile_used [where d = "[''home'', ''app'']" and g = ?g and e = sample_wk_env and dir = "''/work/b1''"
        and b = "zero_build\<lparr>Dockerfile := ''FROM other''\<rparr>", OF sample_tree _ _ c _ m] e dr
    unfolding w f by auto
  then show ?thesis using f by (metis append_Cons append_Nil list.distinct(1))
qed

end
