(* ===== verification/Startup.thy ===== *)
theory Startup
  imports Api Worker
begin

text \<open>
  Starting the programs: the command-line flags as the \<open>flag\<close> package parses them, opening the
  database with its migrations (\<open>Open\<close>, \<open>migrate\<close> of \<open>internal/repo\<close>), and the \<open>main\<close>
  functions of \<open>cmd/dtbuild-server\<close> and \<open>cmd/dtbuild-worker\<close>. The database behind a connection
  string, the listener and the signals are parameters.
\<close>

subsection \<open>Flags\<close>

text \<open>One flag of the command line, as \<open>FlagSet.parseOne\<close> reads it when every flag takes a string;
  the flags are pairs of a name and the current value. \<open>FlagExit\<close> is the exit status of
  \<open>ExitOnError\<close>, 0 when help was asked for.\<close>

datatype flag_result = Flags "(string \<times> string) list" | FlagExit nat

definition cut_value :: "string \<Rightarrow> string \<times> string option" where
  "cut_value s =
     (case s of
        [] \<Rightarrow> ([], None)
      | c # r \<Rightarrow> let n = takeWhile (\<lambda>x. x \<noteq> CHR ''='') r in
          (c # n, if length n < length r then Some (drop (Suc (length n)) r) else None))"

definition flag_name :: "string \<Rightarrow> string" where
  "flag_name s = (if HasPrefix s ''--'' then drop 2 s else drop 1 s)"

fun flag_parse :: "(string \<times> string) list \<Rightarrow> string list \<Rightarrow> flag_result" where
  "flag_parse fl [] = Flags fl"
| "flag_parse fl (s # r) =
     (if length s < 2 \<or> \<not> HasPrefix s ''-'' \<or> s = ''--'' then Flags fl
      else if flag_name s = [] \<or> HasPrefix (flag_name s) ''-'' \<or> HasPrefix (flag_name s) ''='' then FlagExit 2
      else case cut_value (flag_name s) of
        (n, v) \<Rightarrow>
          if map_of fl n = None then FlagExit (if n = ''help'' \<or> n = ''h'' then 0 else 2)
          else case v of
            Some x \<Rightarrow> flag_parse (AList.update n x fl) r
          | None \<Rightarrow> (case r of [] \<Rightarrow> FlagExit 2 | x # r' \<Rightarrow> flag_parse (AList.update n x fl) r'))"

definition flag_value :: "(string \<times> string) list \<Rightarrow> string \<Rightarrow> string" where
  "flag_value fl n = (case map_of fl n of Some v \<Rightarrow> v | None \<Rightarrow> [])"

subsection \<open>Opening the database\<close>

text \<open>The tables of a model database have the current columns, so the statements of \<open>migrate\<close>
  change no rows; the first may fail, the failures of the others are ignored.\<close>

definition ddl :: "database \<Rightarrow> unit Repo.reply" where
  "ddl = run_stmt (\<lambda>d. (Ret (), d))"

definition migrate :: "database \<Rightarrow> unit Repo.reply" where
  "migrate d =
     (case ddl d of
        (Ret _, d1) \<Rightarrow> (Ret (), snd (ddl (snd (ddl (snd (ddl (snd (ddl (snd (ddl d1))))))))))
      | (e, d1) \<Rightarrow> (e, d1))"

text \<open>The driver: whether it accepts a connection string, whether the database answers, and the
  database behind the string.\<close>

record driver =
  accepts :: "string \<Rightarrow> bool"
  answers :: "string \<Rightarrow> bool"
  behind :: "string \<Rightarrow> database"

datatype open_error = OpenPostgres | PingPostgres | Migrate repo_error

definition Open :: "driver \<Rightarrow> string \<Rightarrow> (open_error, database) outcome" where
  "Open drv dsn =
     (if \<not> accepts drv dsn then Err OpenPostgres
      else if \<not> answers drv dsn then Err PingPostgres
      else case migrate (behind drv dsn) of
        (Err e, _) \<Rightarrow> Err (Migrate e)
      | (Panic, _) \<Rightarrow> Panic
      | (Ret _, d) \<Rightarrow> Ret d)"

subsection \<open>The server\<close>

definition server_flags :: "(string \<times> string) list" where
  "server_flags = [(''addr'', '':8640''), (''db'', ''./data/dtbuildkit.db''), (''blobs'', ''./data/blobs'')]"

datatype stop = Signal | ListenError

text \<open>The exit status and, when the server came up, its last state; \<open>xs\<close> are the requests and
  ticks it handles before it stops, \<open>mk_blobs\<close> is \<open>NewStoreFromEnv\<close>. \<open>ListenAndServe\<close> returns
  only with an error.\<close>

definition server_main ::
    "'b env \<Rightarrow> driver \<Rightarrow> (string \<Rightarrow> 'b option) \<Rightarrow> ('b env \<times> api_op) list \<Rightarrow> stop \<Rightarrow> string list \<Rightarrow> nat \<times> 'b server option" where
  "server_main e drv mk_blobs xs how args =
     (case flag_parse server_flags args of
        FlagExit n \<Rightarrow> (n, None)
      | Flags fl \<Rightarrow>
         (case Open drv (flag_value fl ''db'') of
            Ret d \<Rightarrow>
              (case NewServer e (Some d) (mk_blobs (flag_value fl ''blobs'')) of
                 None \<Rightarrow> (1, None)
               | Some s \<Rightarrow> (case how of Signal \<Rightarrow> 0 | ListenError \<Rightarrow> 1, Some (history xs s)))
          | _ \<Rightarrow> (1, None)))"

subsection \<open>The worker\<close>

definition worker_flags :: "(string \<times> string) list" where
  "worker_flags = [(''server'', ''http://localhost:8640''), (''buildkit'', ''unix:///run/buildkit/buildkitd.sock''),
     (''workdir'', ''./data/worker''), (''cache-registry'', [])]"

definition ensureBuildkitd :: "string option \<Rightarrow> bool" where
  "ensureBuildkitd buildctl_path \<longleftrightarrow> buildctl_path \<noteq> None"

text \<open>The error of \<open>Run\<close>: \<open>buildctl\<close> is missing, or the context has ended.\<close>

datatype run_error = NoBuildctlFound | Canceled

definition Run :: "string option \<Rightarrow> run_error" where
  "Run buildctl_path = (if ensureBuildkitd buildctl_path then Canceled else NoBuildctlFound)"

text \<open>A signal cancels the context, and \<open>Run\<close> always returns an error.\<close>

definition worker_main ::
    "string \<Rightarrow> string \<Rightarrow> string option \<Rightarrow> string list \<Rightarrow> nat \<times> (Worker \<times> run_error) option" where
  "worker_main new_uuid hostname buildctl_path args =
     (case flag_parse worker_flags args of
        FlagExit n \<Rightarrow> (n, None)
      | Flags fl \<Rightarrow>
          (1, Some (NewWorker new_uuid hostname (flag_value fl ''server'') (flag_value fl ''buildkit'')
                      (flag_value fl ''workdir'') (flag_value fl ''cache-registry''), Run buildctl_path)))"

subsection \<open>Facts\<close>

lemma ddl_frame [frame]: "builds (snd (ddl d)) = builds d" "workers (snd (ddl d)) = workers d"
  unfolding ddl_def by (rule run_read_frame)+

lemma migrate_frame: "builds (snd (migrate d)) = builds d" "workers (snd (migrate d)) = workers d"
  using ddl_frame [of d] by (cases "ddl d", auto simp: migrate_def frame split: outcome.split)+

lemma Open_Ret: "Open drv dsn = Ret d \<Longrightarrow> builds d = builds (behind drv dsn) \<and> workers d = workers (behind drv dsn)"
  using migrate_frame [of "behind drv dsn"]
  by (auto simp: Open_def split: if_splits prod.splits outcome.splits)

lemma mset_take_le: "mset (take n xs) \<subseteq># mset xs"
  by (metis append_take_drop_id mset_append mset_subset_eq_add_left)

text \<open>The queue of a new server: pending builds of the database, none twice, or nothing.\<close>

lemma warm_start:
  assumes "call (WarmQueue (repo_persister rsort)) s = (x, s')" "que (core s) = New 10000"
  shows "builds (store (core s')) = builds (store (core s)) \<and>
    (\<exists>n. queued (que (core s')) = mset (take n (map scan_row (pending_rows rsort (store (core s))))))"
proof -
  let ?d = "store (core s)"
  obtain l d where l: "ListPending rsort ?d = (l, d)" by fastforce
  have d: "builds d = builds ?d" using query_frame [of _ ?d] l by (metis ListPending_eq snd_conv)
  show ?thesis
  proof (cases l)
    case (Ret bs)
    then obtain fs where "bs = map scan_row (pending_rows rsort (?d\<lparr>faults := fs\<rparr>))"
      using l query_Ret [of _ ?d bs d] by (auto simp: ListPending_eq)
    then have bs: "bs = map scan_row (pending_rows rsort ?d)" by (simp add: pending_rows_def)
    obtain m q where q: "push_while Push bs 0 (New 10000) = (m, q)" by fastforce
    then have "queued q = mset (take m bs)" using bq.push_while_spec [OF q] by (auto simp: queued_def)
    moreover have "s' = s\<lparr>core := (core s)\<lparr>store := d, que := q\<rparr>\<rparr>"
      using assms l Ret q by (auto simp: call_def WarmQueue_def on_store_def refill_run)
    ultimately show ?thesis using d bs by auto
  next
    case (Err e)
    then show ?thesis using assms l d by (auto simp: call_def WarmQueue_def on_store_def intro!: exI [of _ 0])
  next
    case Panic
    then show ?thesis using assms l d by (auto simp: call_def WarmQueue_def on_store_def intro!: exI [of _ 0])
  qed
qed

subsection \<open>Properties\<close>

text \<open>(C36) Starting a server loses nothing: whatever flags it is given and whichever migrations fail,
  a server that comes up has exactly the stored builds of its database, its queue
  holds builds that are pending there, each once, and its state satisfies the invariants of the
  requests that follow.\<close>

theorem server_start:
  assumes "env_ok e" "\<And>dsn. ids_ok (behind drv dsn) \<and> rows_ok (behind drv dsn)"
    and "server_main e drv mk_blobs [] how args = (n, Some s)"
  shows "server_ok True s \<and> (\<exists>dsn. accepts drv dsn \<and> answers drv dsn \<and>
    builds (store (core s)) = builds (behind drv dsn) \<and>
    queued (que (core s)) \<subseteq># mset (map scan_row (filter is_pending (builds (behind drv dsn)))))"
proof -
  obtain fl d b where f: "Open drv (flag_value fl ''db'') = Ret d" "NewServer e (Some d) (Some b) = Some s"
    using assms(3) by (auto simp: server_main_def NewServer_def split: flag_result.splits outcome.splits option.splits)
  let ?D = "behind drv (flag_value fl ''db'')"
  have D: "builds d = builds ?D" "workers d = workers ?D" using Open_Ret [OF f(1)] by auto
  have "ids_ok d" "rows_ok d" using assms(2) [of "flag_value fl ''db''"] D by (auto simp: ids_ok_def rows_ok_def)
  then have ok: "server_ok True s" using NewServer_ok [OF assms(1) _ _ f(2)] by blast
  let ?s = "\<lparr>core = \<lparr>store = d, que = New 10000, sched = New_scheduler\<rparr>, blobs = b, broker = newLogBroker, BuildsTotal = 0\<rparr>"
  obtain x where "call (WarmQueue (pers e)) ?s = (x, s)" using f(2) by (cases "call (WarmQueue (pers e)) ?s") (simp add: NewServer_def)
  then obtain m where w: "builds (store (core s)) = builds d"
    "queued (que (core s)) = mset (take m (map scan_row (pending_rows (row_sort e) d)))"
    using warm_start [of "row_sort e" ?s x s] by auto
  have "sorter pending_key (row_sort e)"
    using assms(1) by (auto simp: env_ok_def service_env_def pending_sorter_def)
  then have "mset (row_sort e (filter is_pending (builds d))) = mset (filter is_pending (builds d))"
    by (rule sorter.sort_mset)
  then have "mset (take 100 (row_sort e (filter is_pending (builds d)))) \<subseteq># mset (filter is_pending (builds d))"
    using mset_take_le by metis
  then have "mset (map scan_row (pending_rows (row_sort e) d)) \<subseteq># mset (map scan_row (filter is_pending (builds d)))"
    by (simp add: pending_rows_def image_mset_subseteq_mono)
  then have "queued (que (core s)) \<subseteq># mset (map scan_row (filter is_pending (builds d)))"
    unfolding w(2) using mset_take_le subset_mset.order_trans by blast
  then show ?thesis using ok w(1) D f(1) by (auto simp: Open_def split: if_splits)
qed

definition sample_driver :: driver where
  "sample_driver = \<lparr>accepts = (\<lambda>s. HasPrefix s ''postgres://''), answers = (\<lambda>_. True), behind = (\<lambda>_. sample_db)\<rparr>"

theorem server_start_witness:
  "\<exists>s dsn. server_main local_env sample_driver (\<lambda>_. Some []) [] Signal [''-db'', ''postgres://d''] = (0, Some s) \<and>
     answers sample_driver dsn \<and> builds (store (core s)) = builds sample_db"
proof -
  have ok: "rows_ok sample_db" "ids_ok sample_db"
    by (simp_all add: rows_ok_def row_ok_def ids_ok_def sample_db_eq new_row_def sample_def)
  have fl: "flag_parse server_flags [''-db'', ''postgres://d''] =
      Flags [(''addr'', '':8640''), (''db'', ''postgres://d''), (''blobs'', ''./data/blobs'')]"
    by (simp add: server_flags_def flag_name_def cut_value_def Let_def)
  have "\<exists>d. Open sample_driver ''postgres://d'' = Ret d"
    by (simp add: Open_def sample_driver_def migrate_def ddl_def run_stmt_def sample_db_eq)
  then obtain s where s: "server_main local_env sample_driver (\<lambda>_. Some []) [] Signal [''-db'', ''postgres://d''] = (0, Some s)"
    by (auto simp: server_main_def fl flag_value_def NewServer_def simp del: flag_parse.simps)
  have "ids_ok (behind sample_driver dsn) \<and> rows_ok (behind sample_driver dsn)" for dsn using ok by (simp add: sample_driver_def)
  then show ?thesis using server_start [OF local_env_ok _ s] s by (auto simp: sample_driver_def)
qed

text \<open>A flag is given as two arguments with one dash, or as one argument with two.\<close>

fun flag_args :: "bool \<times> string \<times> string \<Rightarrow> string list" where
  "flag_args (True, n, v) = [''--'' @ n @ ''='' @ v]"
| "flag_args (False, n, v) = [''-'' @ n, v]"

definition good_name :: "string \<Rightarrow> bool" where
  "good_name n \<longleftrightarrow> n \<noteq> [] \<and> hd n \<noteq> CHR ''-'' \<and> CHR ''='' \<notin> set n"

lemma cut_value_none: "good_name n \<Longrightarrow> cut_value n = (n, None)"
proof (cases n)
  case (Cons c r)
  assume "good_name n"
  then have "takeWhile (\<lambda>x. x \<noteq> CHR ''='') r = r" using Cons by (auto simp: takeWhile_eq_all_conv good_name_def)
  then show ?thesis unfolding Cons cut_value_def by (simp only: list.case append_Cons Let_def) simp
qed (simp add: good_name_def)

lemma cut_value_some: "good_name n \<Longrightarrow> cut_value (n @ CHR ''='' # v) = (n, Some v)"
proof (cases n)
  case (Cons c r)
  assume "good_name n"
  then have "takeWhile (\<lambda>x. x \<noteq> CHR ''='') (r @ CHR ''='' # v) = r"
    using Cons by (intro takeWhile_tail [THEN trans]) (auto simp: takeWhile_append good_name_def takeWhile_eq_all_conv)
  then show ?thesis unfolding Cons cut_value_def by (simp only: list.case append_Cons Let_def) simp
qed (simp add: good_name_def)

lemma flag_step:
  assumes "good_name n" "map_of fl n \<noteq> None"
  shows "flag_parse fl (flag_args (b, n, v) @ r) = flag_parse (AList.update n v fl) r"
proof -
  obtain c m where n: "n = c # m" "c \<noteq> CHR ''-''" "c \<noteq> CHR ''=''" using assms(1) by (cases n) (auto simp: good_name_def)
  have one: "flag_name (''-'' @ n) = n" and two: "flag_name (''--'' @ n @ ''='' @ v) = n @ CHR ''='' # v"
    using n by (simp_all add: flag_name_def)
  show ?thesis using assms n one two cut_value_none [OF assms(1)] cut_value_some [OF assms(1), of v]
    by (cases b) auto
qed

text \<open>Flags round trip: whatever values are given to known flags, in either of the two forms,
  parsing the command line yields exactly these values, the last one when a flag is repeated.\<close>

theorem flags_roundtrip:
  assumes "\<And>n. n \<in> fst ` set fl \<Longrightarrow> good_name n" "\<And>b n v. (b, n, v) \<in> set us \<Longrightarrow> n \<in> fst ` set fl"
  shows "flag_parse fl (concat (map flag_args us)) = Flags (fold (\<lambda>(b, n, v). AList.update n v) us fl)"
  using assms
proof (induction us arbitrary: fl)
  case (Cons u us)
  obtain b n v where u: "u = (b, n, v)" by (cases u)
  have n: "n \<in> fst ` set fl" using Cons.prems(2) u by (metis list.set_intros(1))
  have k: "fst ` set (AList.update n v fl) = fst ` set fl" using n by (simp add: dom_update insert_absorb)
  have "flag_parse fl (concat (map flag_args (u # us))) = flag_parse (AList.update n v fl) (concat (map flag_args us))"
    using flag_step [OF Cons.prems(1) [OF n], of fl b v] n u by (simp add: map_of_eq_None_iff)
  also have "\<dots> = Flags (fold (\<lambda>(b, n, v). AList.update n v) us (AList.update n v fl))"
    by (rule Cons.IH) (use Cons.prems(1) k in simp, use Cons.prems(2) k in \<open>metis list.set_intros(2)\<close>)
  finally show ?case using u by simp
qed simp

theorem flags_roundtrip_witness:
  "flag_parse worker_flags [''-server'', ''http://s'', ''--workdir=/w''] =
     Flags [(''server'', ''http://s''), (''buildkit'', ''unix:///run/buildkit/buildkitd.sock''), (''workdir'', ''/w''), (''cache-registry'', [])]"
proof -
  let ?us = "[(False, ''server'', ''http://s''), (True, ''workdir'', ''/w'')]"
  have g: "good_name n" if "n \<in> fst ` set worker_flags" for n using that by (auto simp: worker_flags_def good_name_def)
  have m: "n \<in> fst ` set worker_flags" if "(b, n, v) \<in> set ?us" for b n v using that by (auto simp: worker_flags_def)
  show ?thesis using flags_roundtrip [of worker_flags ?us, OF g m] by (simp add: worker_flags_def del: flag_parse.simps)
qed

end
