(* ===== verification/Go_Time.thy ===== *)
theory Go_Time
  imports Go_Parse "HOL-Library.Product_Lexorder"
begin

text \<open>
  Points in time as text: \<open>Format(time.RFC3339)\<close> in a zone and \<open>time.Parse\<close> for what it writes,
  on the proleptic Gregorian calendar. A point in time is the number of seconds since 1970.
  For the years 0 to 9999 parsing is the inverse of formatting, and the texts of one zone are
  ordered as the times are.
\<close>

subsection \<open>The calendar\<close>

text \<open>Days are counted from the first of January of the year 1.\<close>

definition leap :: "int \<Rightarrow> bool" where
  "leap y \<longleftrightarrow> 4 dvd y \<and> (\<not> 100 dvd y \<or> 400 dvd y)"

definition days_before_year :: "int \<Rightarrow> int" where
  "days_before_year y = 365 * (y - 1) + (y - 1) div 4 - (y - 1) div 100 + (y - 1) div 400"

text \<open>The year of a day, by cutting off cycles of 400, 100, 4 years and one year; the last day of the
  longest cycle of each kind would start another one, which \<open>x - x div 4\<close> corrects.\<close>

definition year_of :: "int \<Rightarrow> int" where
  "year_of d = (let n = d div 146097; d1 = d mod 146097; c = d1 div 36524 - d1 div 36524 div 4;
     d2 = d1 - 36524 * c; q = d2 div 1461; d3 = d2 mod 1461; r = d3 div 365 - d3 div 365 div 4
   in 400 * n + 100 * c + 4 * q + r + 1)"

definition days_before_month :: "bool \<Rightarrow> int \<Rightarrow> int" where
  "days_before_month l m = [0, 31, 59, 90, 120, 151, 181, 212, 243, 273, 304, 334, 365] ! nat (m - 1) + (if l \<and> 2 < m then 1 else 0)"

definition month_of :: "bool \<Rightarrow> int \<Rightarrow> int" where
  "month_of l yd = int (length (filter (\<lambda>m. days_before_month l m \<le> yd) [1 .. 12]))"

definition civil :: "int \<Rightarrow> int \<times> int \<times> int" where
  "civil d = (let y = year_of d; yd = d - days_before_year y; m = month_of (leap y) yd in
     (y, m, yd - days_before_month (leap y) m + 1))"

definition days_of_civil :: "int \<times> int \<times> int \<Rightarrow> int" where
  "days_of_civil = (\<lambda>(y, m, d). days_before_year y + days_before_month (leap y) m + d - 1)"

definition days_in_month :: "int \<Rightarrow> int \<Rightarrow> int" where
  "days_in_month y m = days_before_month (leap y) (m + 1) - days_before_month (leap y) m"

lemma days_of_civil_civil: "days_of_civil (civil d) = d"
  by (simp add: civil_def days_of_civil_def Let_def)

lemma div_cycle: "0 \<le> r \<Longrightarrow> r < k \<Longrightarrow> (k * x + r) div k = (x :: int)"
  by (simp add: div_pos_pos_trivial)

lemma days_before_year_cycles:
  assumes "0 \<le> c" "c \<le> 3" "0 \<le> q" "q \<le> 24" "0 \<le> r" "r \<le> 3"
  shows "days_before_year (400 * n + 100 * c + 4 * q + r + 1) = 146097 * n + 36524 * c + 1461 * q + 365 * r"
proof -
  let ?y = "400 * n + 100 * c + 4 * q + r"
  have "?y div 4 = 100 * n + 25 * c + q" using div_cycle [of r 4 "100 * n + 25 * c + q"] assms by (simp add: algebra_simps)
  moreover have "?y div 100 = 4 * n + c" using div_cycle [of "4 * q + r" 100 "4 * n + c"] assms by (simp add: algebra_simps)
  moreover have "?y div 400 = n" using div_cycle [of "100 * c + 4 * q + r" 400 n] assms by (simp add: algebra_simps)
  ultimately show ?thesis by (simp add: days_before_year_def)
qed

lemma div_step:
  assumes "1 < k"
  shows "y div k = (y - 1) div k + (if k dvd y then 1 else 0 :: int)"
proof (cases "k dvd y")
  case True
  then obtain x where x: "y = k * x" by blast
  have "k * x - 1 = k * (x - 1) + (k - 1)" by (simp add: algebra_simps)
  then have "(k * x - 1) div k = x - 1" using div_cycle [of "k - 1" k "x - 1"] assms by (metis diff_ge_0_iff_ge less_diff_eq order_less_imp_le add.commute less_add_one diff_less_eq)
  then show ?thesis using x assms by simp
next
  case False
  then have "0 \<le> y mod k - 1" "y mod k < k" using pos_mod_sign [of k y] pos_mod_bound [of k y] assms
    by (simp_all add: dvd_eq_mod_eq_0 order_less_le)
  moreover have "y - 1 = k * (y div k) + (y mod k - 1)" by simp
  ultimately have "(y - 1) div k = y div k" using div_cycle [of "y mod k - 1" k "y div k"] by (metis diff_less_eq less_add_one order_less_trans)
  then show ?thesis using False by simp
qed

lemma indicator_chain:
  "(q \<Longrightarrow> p) \<Longrightarrow> (r \<Longrightarrow> q) \<Longrightarrow>
     (if p \<and> (\<not> q \<or> r) then 1 else 0 :: int) = (if p then 1 else 0) - (if q then 1 else 0) + (if r then 1 else 0)"
  by (cases p; cases q; cases r) simp_all

lemma leap_dvd: "(if leap y then 1 else 0 :: int) = (if 4 dvd y then 1 else 0) - (if 100 dvd y then 1 else 0) + (if 400 dvd y then 1 else 0)"
  unfolding leap_def
proof (rule indicator_chain)
  have d: "4 dvd (100 :: int)" "100 dvd (400 :: int)" by simp_all
  show "100 dvd y \<Longrightarrow> 4 dvd y" "400 dvd y \<Longrightarrow> 100 dvd y" by (erule dvd_trans [OF d(1)], erule dvd_trans [OF d(2)])
qed

lemma days_before_year_Suc: "days_before_year (y + 1) = days_before_year y + (if leap y then 366 else 365)"
proof -
  have "365 * y + a - b + c = (365 * (y - 1) + a' - b' + c') + (365 + l)"
    if "a = a' + i" "b = b' + j" "c = c' + k" "l = i - j + k" for a b c a' b' c' i j k l :: int
    using that by simp
  note sum = this
  have k: "1 < (4 :: int)" "1 < (100 :: int)" "1 < (400 :: int)" by simp_all
  note step = sum [OF div_step [OF k(1), of y] div_step [OF k(2), of y] div_step [OF k(3), of y] leap_dvd [of y]]
  have "days_before_year (y + 1) = days_before_year y + (365 + (if leap y then 1 else 0))"
    unfolding days_before_year_def add_diff_cancel_right' by (rule step)
  moreover have "365 + (if leap y then 1 else 0) = (if leap y then 366 else 365 :: int)" by simp
  ultimately show ?thesis by (simp only:)
qed

lemma days_before_year_mono: "y \<le> z \<Longrightarrow> days_before_year y \<le> days_before_year z"
proof (induction "nat (z - y)" arbitrary: z)
  case (Suc k)
  then have "days_before_year y \<le> days_before_year (z - 1)" by (intro Suc.hyps(1)) auto
  moreover have "days_before_year (z - 1) \<le> days_before_year z" using days_before_year_Suc [of "z - 1"] by simp
  ultimately show ?case by simp
qed simp

text \<open>Cutting off one of four cycles of \<open>p\<close> days, the last of which may have a day more.\<close>

lemma cut_cycle:
  fixes d p :: int
  assumes "0 < p" "0 \<le> d" "d \<le> 4 * p" "c = d div p - d div p div 4"
  shows "0 \<le> c \<and> c \<le> 3 \<and> p * c \<le> d \<and> (d < p * c + p \<or> c = 3 \<and> d = 4 * p)"
proof -
  define k e where "k = d div p" and "e = d mod p"
  have d: "d = p * k + e" "0 \<le> e" "e < p" using assms(1) by (simp_all add: k_def e_def)
  have "0 \<le> k" using assms(1,2) by (simp add: k_def pos_imp_zdiv_nonneg_iff)
  moreover have "k < 5"
  proof (rule ccontr)
    assume "\<not> k < 5"
    then have "p * 5 \<le> p * k" using assms(1) by simp
    then show False using d assms(1,3) by linarith
  qed
  ultimately consider "k = 0" | "k = 1" | "k = 2" | "k = 3" | "k = 4" by linarith
  then show ?thesis using d assms(3,4) by cases (simp_all flip: k_def)
qed

lemma year_of_bounds: "days_before_year (year_of d) \<le> d \<and> d < days_before_year (year_of d + 1)"
proof -
  define n d1 where "n = d div 146097" and "d1 = d mod 146097"
  define c where "c = d1 div 36524 - d1 div 36524 div 4"
  define d2 where "d2 = d1 - 36524 * c"
  define q d3 where "q = d2 div 1461" and "d3 = d2 mod 1461"
  define r where "r = d3 div 365 - d3 div 365 div 4"
  have year: "year_of d = 400 * n + 100 * c + 4 * q + r + 1"
    unfolding year_of_def Let_def n_def d1_def c_def d2_def q_def d3_def r_def by (rule refl)
  have d: "d = 146097 * n + d1" and d1: "0 \<le> d1" "d1 < 146097" by (simp_all add: n_def d1_def)
  have c: "0 \<le> c" "c \<le> 3" "0 \<le> d2" "d2 < 36524 \<or> c = 3 \<and> d2 = 36524"
    using cut_cycle [OF _ d1(1) _ c_def] d1(2) unfolding d2_def by auto
  have d2: "d2 = 1461 * q + d3" and d3: "0 \<le> d3" "d3 < 1461" by (simp_all add: q_def d3_def)
  have q: "0 \<le> q" "q \<le> 24" "q = 24 \<Longrightarrow> c < 3 \<Longrightarrow> d3 < 1460" using c(3,4) d2 d3 by linarith+
  have r: "0 \<le> r" "r \<le> 3" "365 * r \<le> d3" "d3 < 365 * r + 365 \<or> r = 3 \<and> d3 = 1460"
    using cut_cycle [OF _ d3(1) _ r_def] d3(2) by auto
  have before: "days_before_year (year_of d) = 146097 * n + 36524 * c + 1461 * q + 365 * r"
    unfolding year using days_before_year_cycles c(1,2) q(1,2) r(1,2) by blast
  have "leap (year_of d)" if "r = 3" "d3 = 1460"
  proof -
    have "year_of d = 4 * (100 * n + 25 * c + q + 1)" using year that(1) by simp
    moreover have "\<not> 100 dvd year_of d" if "q < 24"
    proof
      assume "100 dvd year_of d"
      then obtain x where "year_of d = 100 * x" by blast
      then have "q + 1 = 25 * (x - 4 * n - c)" using year \<open>r = 3\<close> by simp
      moreover have "z \<le> 0 \<or> 1 \<le> z" for z :: int by linarith
      ultimately show False using \<open>q < 24\<close> q(1) by (smt (verit))
    qed
    moreover have "year_of d = 400 * (n + 1)" if "q = 24" "c = 3" using year \<open>r = 3\<close> that by simp
    moreover have "q < 24 \<or> q = 24 \<and> c = 3" using q that(2) c(2) by fastforce
    ultimately show ?thesis unfolding leap_def by auto
  qed
  then show ?thesis using r(3,4) d d2 before unfolding d2_def by (auto simp: days_before_year_Suc)
qed

lemma year_of_mono: "d \<le> e \<Longrightarrow> year_of d \<le> year_of e"
  using year_of_bounds [of d] year_of_bounds [of e] days_before_year_mono [of "year_of e + 1" "year_of d"] by linarith

text \<open>Months.\<close>

lemma year_day_bounds: "0 \<le> d - days_before_year (year_of d)" "d - days_before_year (year_of d) \<le> (if leap (year_of d) then 365 else 364)"
  using year_of_bounds [of d] by (auto simp: days_before_year_Suc)

lemma length_filter_mono: "(\<And>x. P x \<Longrightarrow> Q x) \<Longrightarrow> length (filter P xs) \<le> length (filter Q xs)"
  by (induction xs) (auto intro: le_SucI)

lemma month_of_mono: "x \<le> y \<Longrightarrow> month_of l x \<le> month_of l y"
  unfolding month_of_def by (auto intro!: length_filter_mono)

lemma month_list: "[1 .. 12] = [1, 2, 3, 4, 5, 6, 7, 8, 9, 10, 11, 12 :: int]"
  by (simp add: upto.simps)

lemma days_before_months:
  "days_before_month l 1 = 0" "days_before_month l 2 = 31" "days_before_month False 3 = 59" "days_before_month True 3 = 60"
  "days_before_month False 4 = 90" "days_before_month True 4 = 91" "days_before_month False 5 = 120" "days_before_month True 5 = 121"
  "days_before_month False 6 = 151" "days_before_month True 6 = 152" "days_before_month False 7 = 181" "days_before_month True 7 = 182"
  "days_before_month False 8 = 212" "days_before_month True 8 = 213" "days_before_month False 9 = 243" "days_before_month True 9 = 244"
  "days_before_month False 10 = 273" "days_before_month True 10 = 274" "days_before_month False 11 = 304" "days_before_month True 11 = 305"
  "days_before_month False 12 = 334" "days_before_month True 12 = 335" "days_before_month False 13 = 365" "days_before_month True 13 = 366"
  by (simp_all add: days_before_month_def)

lemma month_of_bounds:
  assumes "0 \<le> x" "x \<le> (if l then 365 else 364)"
  shows "1 \<le> month_of l x \<and> month_of l x \<le> 12 \<and> days_before_month l (month_of l x) \<le> x \<and> x < days_before_month l (month_of l x + 1)"
proof (cases l)
  case True
  consider "x < 31" | "31 \<le> x" "x < 60" | "60 \<le> x" "x < 91" | "91 \<le> x" "x < 121" | "121 \<le> x" "x < 152" | "152 \<le> x" "x < 182"
    | "182 \<le> x" "x < 213" | "213 \<le> x" "x < 244" | "244 \<le> x" "x < 274" | "274 \<le> x" "x < 305" | "305 \<le> x" "x < 335" | "335 \<le> x" by linarith
  then show ?thesis using assms True unfolding month_of_def month_list by cases (simp_all add: days_before_months)
next
  case False
  consider "x < 31" | "31 \<le> x" "x < 59" | "59 \<le> x" "x < 90" | "90 \<le> x" "x < 120" | "120 \<le> x" "x < 151" | "151 \<le> x" "x < 181"
    | "181 \<le> x" "x < 212" | "212 \<le> x" "x < 243" | "243 \<le> x" "x < 273" | "273 \<le> x" "x < 304" | "304 \<le> x" "x < 334" | "334 \<le> x" by linarith
  then show ?thesis using assms False unfolding month_of_def month_list by cases (simp_all add: days_before_months)
qed

text \<open>Later days have later dates, and every date is one of the calendar.\<close>

lemma civil_valid:
  assumes "civil d = (y, m, md)"
  shows "1 \<le> m" "m \<le> 12" "1 \<le> md" "md \<le> days_in_month y m"
  using assms month_of_bounds [OF year_day_bounds, of d] by (auto simp: civil_def Let_def days_in_month_def)

lemma civil_mono:
  assumes "d < e"
  shows "civil d < civil e"
proof -
  consider "year_of d < year_of e" | "year_of d = year_of e" using year_of_mono [of d e] assms by linarith
  then show ?thesis
  proof cases
    case 2
    then have "month_of (leap (year_of d)) (d - days_before_year (year_of d)) \<le> month_of (leap (year_of d)) (e - days_before_year (year_of d))"
      using assms by (intro month_of_mono) simp
    then show ?thesis using 2 assms by (auto simp: civil_def Let_def less_prod_def less_le)
  qed (simp add: civil_def Let_def less_prod_def)
qed

lemma civil_less_iff: "civil d < civil e \<longleftrightarrow> d < e"
  using civil_mono [of d e] civil_mono [of e d] by (metis less_asym less_irrefl not_less_iff_gr_or_eq)

subsection \<open>Texts\<close>

text \<open>\<open>appendInt\<close> pads with zeros to a width; more digits and a sign are written as they come.\<close>

definition appendInt :: "int \<Rightarrow> nat \<Rightarrow> string" where
  "appendInt x w = (let ds = Itoa (nat \<bar>x\<bar>) in
     (if x < 0 then [CHR ''-''] else []) @ replicate (w - length ds) (CHR ''0'') @ ds)"

text \<open>\<open>Format(time.RFC3339)\<close> in a zone that is \<open>tz\<close> seconds ahead of UTC.\<close>

definition zone_text :: "int \<Rightarrow> string" where
  "zone_text tz = (if tz = 0 then ''Z'' else
     (let z = \<bar>tz\<bar> div 60 in (if tz < 0 then CHR ''-'' else CHR ''+'') # appendInt (z div 60) 2 @ '':'' @ appendInt (z mod 60) 2))"

definition clock_text :: "int \<Rightarrow> string" where
  "clock_text s = (case civil (s div 86400 + 719162) of (y, m, d) \<Rightarrow> let t = s mod 86400 in
     appendInt y 4 @ ''-'' @ appendInt m 2 @ ''-'' @ appendInt d 2 @ ''T'' @
     appendInt (t div 3600) 2 @ '':'' @ appendInt (t mod 3600 div 60) 2 @ '':'' @ appendInt (t mod 60) 2)"

definition rfc3339 :: "int \<Rightarrow> int \<Rightarrow> string" where
  "rfc3339 tz s = clock_text (s + tz) @ zone_text tz"

text \<open>\<open>time.Parse(time.RFC3339, \<dots>)\<close> on texts without a fraction of a second.\<close>

definition parseUint :: "string \<Rightarrow> int \<Rightarrow> int \<Rightarrow> int option" where
  "parseUint s lo hi = (if list_all is_digit s \<and> lo \<le> int (digits_val s) \<and> int (digits_val s) \<le> hi then Some (int (digits_val s)) else None)"

definition parse_zone :: "string \<Rightarrow> int option" where
  "parse_zone s = (if s = ''Z'' then Some 0
     else if length s = 6 \<and> s ! 0 \<in> {CHR ''+'', CHR ''-''} \<and> s ! 3 = CHR '':'' then
       (case (parseUint (take 2 (drop 1 s)) 0 23, parseUint (drop 4 s) 0 59) of
          (Some h, Some m) \<Rightarrow> Some ((if s ! 0 = CHR ''-'' then -1 else 1) * (h * 60 + m) * 60)
        | _ \<Rightarrow> None)
     else None)"

definition parse_rfc3339 :: "string \<Rightarrow> int option" where
  "parse_rfc3339 s =
     (if length s < 19 \<or> \<not> (s ! 4 = CHR ''-'' \<and> s ! 7 = CHR ''-'' \<and> s ! 10 = CHR ''T'' \<and> s ! 13 = CHR '':'' \<and> s ! 16 = CHR '':'') then None
      else case (parseUint (take 4 s) 0 9999, parseUint (take 2 (drop 5 s)) 1 12) of
        (Some y, Some m) \<Rightarrow>
          (case (parseUint (take 2 (drop 8 s)) 1 (days_in_month y m), parseUint (take 2 (drop 11 s)) 0 23,
              parseUint (take 2 (drop 14 s)) 0 59, parseUint (take 2 (drop 17 s)) 0 59, parse_zone (drop 19 s)) of
            (Some d, Some h, Some mi, Some sec, Some tz) \<Rightarrow>
              Some ((days_of_civil (y, m, d) - 719162) * 86400 + h * 3600 + mi * 60 + sec - tz)
          | _ \<Rightarrow> None)
      | _ \<Rightarrow> None)"

subsection \<open>Order of texts\<close>


lemma digits_val_append: "digits_val (xs @ ys) = digits_val xs * 10 ^ length ys + digits_val ys"
proof (induction ys rule: rev_induct)
  case (snoc y ys)
  have "digits_val (zs @ [y]) = 10 * digits_val zs + (of_char y - 48)" for zs by (simp add: digits_val_def)
  from this [of "xs @ ys"] this [of ys] show ?case using snoc by (simp add: algebra_simps)
qed (simp add: digits_val_def)

lemma digits_val_zeros: "digits_val (replicate n (CHR ''0'')) = 0"
  by (induction n) (simp_all add: digits_val_def)

lemma Itoa_length: "n < 10 ^ w \<Longrightarrow> 0 < w \<Longrightarrow> length (Itoa n) \<le> w"
proof (induction n arbitrary: w rule: Itoa.induct)
  case (1 n)
  show ?case
  proof (cases "n < 10")
    case True
    then show ?thesis using 1(3) by (subst Itoa.simps) simp
  next
    case False
    then obtain v where v: "w = Suc v" "0 < v" using 1(2) by (cases w; cases "w - 1") auto
    have "length (Itoa (n div 10)) \<le> v" using False 1(2) v by (intro 1(1)) auto
    then show ?thesis using False v by (subst Itoa.simps) simp
  qed
qed

lemma appendInt_digits:
  assumes "0 \<le> x" "x < 10 ^ w" "0 < w"
  shows "length (appendInt x w) = w" "list_all is_digit (appendInt x w)" "digits_val (appendInt x w) = nat x"
proof -
  have "nat x < 10 ^ w" using assms(1,2) by (simp add: nat_less_iff)
  then show "length (appendInt x w) = w" using Itoa_length [of "nat x" w] assms by (simp add: appendInt_def Let_def)
  show "list_all is_digit (appendInt x w)" "digits_val (appendInt x w) = nat x"
    using assms(1) Itoa_digits [of "nat x"] by (auto simp: appendInt_def Let_def digits_val_append digits_val_zeros list_all_iff is_digit_def)
qed

lemma parse_appendInt:
  assumes "0 \<le> x" "x < 10 ^ w" "0 < w" "lo \<le> x" "x \<le> hi"
  shows "parseUint (appendInt x w) lo hi = Some x"
  using appendInt_digits [OF assms(1-3)] assms by (simp add: parseUint_def)

lemma append_less:
  fixes a b c d :: string
  assumes "length a = length c"
  shows "a @ b < c @ d \<longleftrightarrow> a < c \<or> a = c \<and> b < d"
  using assms by (induction a c rule: list_induct2) auto

lemma digits_bound: "list_all is_digit xs \<Longrightarrow> digits_val xs < 10 ^ length xs"
proof (induction xs rule: rev_induct)
  case (snoc x xs)
  then have "digits_val xs < 10 ^ length xs" "of_char x - 48 \<le> (9 :: nat)" by (auto simp: is_digit_def)
  then show ?case by (simp add: digits_val_append) (simp add: digits_val_def)
qed (simp add: digits_val_def)

lemma digits_less:
  assumes "length xs = length ys" "list_all is_digit xs" "list_all is_digit ys"
  shows "xs < ys \<longleftrightarrow> digits_val xs < digits_val ys"
  using assms
proof (induction xs ys rule: list_induct2)
  case (Cons x xs y ys)
  let ?k = "10 ^ length xs :: nat"
  have v: "digits_val (c # cs) = (of_char c - 48) * 10 ^ length cs + digits_val cs" for c cs
    using digits_val_append [of "[c]" cs] by (simp add: digits_val_def)
  have b: "digits_val xs < ?k" "digits_val ys < ?k" using digits_bound [of xs] digits_bound [of ys] Cons by auto
  have d: "x < y \<longleftrightarrow> (of_char x :: nat) < of_char y" by (simp add: less_char_def)
  consider "x = y" | "(of_char x :: nat) < of_char y" | "(of_char y :: nat) < of_char x" by (metis linorder_neqE_nat of_char_eq_iff)
  then show ?case
  proof cases
    case 2
    then have "of_char x - 48 + 1 \<le> (of_char y - 48 :: nat)" using Cons.prems by (auto simp: is_digit_def)
    then have "(of_char x - 48 + 1) * ?k \<le> (of_char y - 48) * ?k" by (rule mult_right_mono) simp
    then show ?thesis using 2 b Cons.hyps d by (simp add: v algebra_simps)
  next
    case 3
    then have "of_char y - 48 + 1 \<le> (of_char x - 48 :: nat)" using Cons.prems by (auto simp: is_digit_def)
    then have "(of_char y - 48 + 1) * ?k \<le> (of_char x - 48) * ?k" by (rule mult_right_mono) simp
    then show ?thesis using 3 b Cons.hyps d by (auto simp add: v algebra_simps)
  qed (use Cons v in simp)
qed simp

text \<open>Texts that start with a field of fixed width compare by the field first.\<close>

lemma field_less:
  assumes "0 < w" "0 \<le> x" "x < 10 ^ w" "0 \<le> y" "y < 10 ^ w"
  shows "appendInt x w @ a < appendInt y w @ b \<longleftrightarrow> x < y \<or> x = y \<and> a < b"
proof -
  note dx = appendInt_digits [OF assms(2,3,1)] and dy = appendInt_digits [OF assms(4,5,1)]
  have "appendInt x w < appendInt y w \<longleftrightarrow> x < y" using digits_less dx dy assms by (auto simp: nat_less_eq_zless)
  moreover have "appendInt x w = appendInt y w \<longleftrightarrow> x = y" using dx(3) dy(3) assms by force
  ultimately show ?thesis using append_less [of "appendInt x w" "appendInt y w" a b] dx(1) dy(1) by simp
qed

lemma div_mod_less:
  assumes "0 < (k :: int)"
  shows "a < b \<longleftrightarrow> a div k < b div k \<or> a div k = b div k \<and> a mod k < b mod k"
proof -
  have "a - b = k * (a div k - b div k) + (a mod k - b mod k)" by (simp add: algebra_simps)
  moreover have "a div k \<le> b div k" if "a \<le> b" using that assms by (rule zdiv_mono1)
  moreover have "b div k \<le> a div k" if "b \<le> a" using that assms by (rule zdiv_mono1)
  ultimately show ?thesis by (cases "a div k = b div k") force+
qed

lemma div_bound:
  assumes "0 < (k :: int)" "0 \<le> t" "t < k * n"
  shows "0 \<le> t div k \<and> t div k < n"
proof -
  have "t \<le> k * (n - 1) + (k - 1)" using assms by (simp add: algebra_simps)
  then have "t div k \<le> n - 1" using zdiv_mono1 [of t "k * (n - 1) + (k - 1)" k] div_cycle [of "k - 1" k "n - 1"] assms by simp
  then show ?thesis using assms by (simp add: pos_imp_zdiv_nonneg_iff)
qed

definition dated :: "int \<Rightarrow> bool" where
  "dated s \<longleftrightarrow> - 62167219200 \<le> s \<and> s < 253402300800"

abbreviation date_of :: "int \<Rightarrow> int \<times> int \<times> int" where
  "date_of s \<equiv> civil (s div 86400 + 719162)"

lemma days_in_month_le: "1 \<le> m \<Longrightarrow> m \<le> 12 \<Longrightarrow> days_in_month y m \<le> 31"
proof -
  assume "1 \<le> m" "m \<le> 12"
  then have "m \<in> set [1 .. 12]" by simp
  then show ?thesis unfolding month_list by (auto simp: days_in_month_def days_before_month_def)
qed

lemma dated_fields:
  assumes "dated s" "date_of s = (y, m, d)"
  shows "0 \<le> y" "y < 10 ^ 4" "0 \<le> m" "m < 10 ^ 2" "0 \<le> d" "d < 10 ^ 2"
proof -
  have "-366 \<le> s div 86400 + 719162" "s div 86400 + 719162 \<le> 3652058"
    using assms(1) zdiv_mono1 [of "- 62167219200" s 86400] zdiv_mono1 [of s 253402300799 86400] by (simp_all add: dated_def)
  then have "year_of (-366) \<le> y" "y \<le> year_of 3652058" using assms(2) by (auto simp: civil_def Let_def intro: year_of_mono)
  then show "0 \<le> y" "y < 10 ^ 4" by (simp_all add: year_of_def Let_def)
  note v = civil_valid [OF assms(2)]
  show "0 \<le> m" "m < 10 ^ 2" using v by simp_all
  show "0 \<le> d" "d < 10 ^ 2" using v days_in_month_le [OF v(1,2), of y] by simp_all
qed

lemma day_fields:
  fixes t :: int
  assumes "0 \<le> t" "t < 86400"
  shows "0 \<le> t div 3600" "t div 3600 \<le> 23" "0 \<le> t mod 3600 div 60" "t mod 3600 div 60 \<le> 59" "0 \<le> t mod 60" "t mod 60 \<le> 59"
  using div_bound [of 3600 t 24] div_bound [of 60 "t mod 3600" 60] pos_mod_bound [of 60 t] assms by simp_all

lemma day_less:
  fixes t u :: int
  shows "t < u \<longleftrightarrow> t div 3600 < u div 3600 \<or> t div 3600 = u div 3600 \<and>
    (t mod 3600 div 60 < u mod 3600 div 60 \<or> t mod 3600 div 60 = u mod 3600 div 60 \<and> t mod 60 < u mod 60)"
  using div_mod_less [of 3600 t u] div_mod_less [of 60 "t mod 3600" "u mod 3600"] by (simp add: mod_mod_cancel)

lemma day_eq:
  fixes t u :: int
  shows "t = u \<longleftrightarrow> t div 3600 = u div 3600 \<and> t mod 3600 div 60 = u mod 3600 div 60 \<and> t mod 60 = u mod 60"
  using day_less [of t u] day_less [of u t] by (metis less_irrefl linorder_neqE)

lemma civil_inj: "civil d = civil e \<longleftrightarrow> d = e"
  by (metis days_of_civil_civil)

lemma clock_text_less:
  assumes "dated s" "dated t"
  shows "clock_text s @ a < clock_text t @ b \<longleftrightarrow> s < t \<or> s = t \<and> a < b"
proof -
  obtain y m d y' m' d' where c: "date_of s = (y, m, d)" "date_of t = (y', m', d')" by (metis prod_cases3)
  let ?t = "s mod 86400" and ?u = "t mod 86400"
  have tu: "0 \<le> ?t" "?t < 86400" "0 \<le> ?u" "?u < 86400" by simp_all
  have w: "0 < (2 :: nat)" "0 < (4 :: nat)" "x \<le> 59 \<Longrightarrow> x < 10 ^ 2" "x \<le> 23 \<Longrightarrow> x < 10 ^ 2" for x :: int by simp_all
  note f = dated_fields [OF assms(1) c(1)] and f' = dated_fields [OF assms(2) c(2)]
  note g = day_fields [OF tu(1,2)] and g' = day_fields [OF tu(3,4)]
  note fields = field_less [OF w(2) f(1,2) f'(1,2)] field_less [OF w(1) f(3,4) f'(3,4)] field_less [OF w(1) f(5,6) f'(5,6)]
    field_less [OF w(1) g(1) w(4) [OF g(2)] g'(1) w(4) [OF g'(2)]] field_less [OF w(1) g(3) w(3) [OF g(4)] g'(3) w(3) [OF g'(4)]]
    field_less [OF w(1) g(5) w(3) [OF g(6)] g'(5) w(3) [OF g'(6)]]
  have "clock_text s @ a < clock_text t @ b \<longleftrightarrow> y < y' \<or> y = y' \<and> (m < m' \<or> m = m' \<and> (d < d' \<or> d = d' \<and>
     (?t div 3600 < ?u div 3600 \<or> ?t div 3600 = ?u div 3600 \<and> (?t mod 3600 div 60 < ?u mod 3600 div 60 \<or>
       ?t mod 3600 div 60 = ?u mod 3600 div 60 \<and> (?t mod 60 < ?u mod 60 \<or> ?t mod 60 = ?u mod 60 \<and> a < b)))))"
    unfolding clock_text_def c Let_def prod.case append_assoc append.simps fields
    by (simp only: Cons_less_Cons fields less_irrefl simp_thms)
  also have "\<dots> \<longleftrightarrow> (y, m, d) < (y', m', d') \<or> (y, m, d) = (y', m', d') \<and> (?t < ?u \<or> ?t = ?u \<and> a < b)"
    unfolding day_less [of ?t ?u] day_eq [of ?t ?u] less_prod_simp prod.inject le_less by blast
  also have "\<dots> \<longleftrightarrow> s < t \<or> s = t \<and> a < b"
  proof -
    have "(y, m, d) < (y', m', d') \<longleftrightarrow> s div 86400 < t div 86400" "(y, m, d) = (y', m', d') \<longleftrightarrow> s div 86400 = t div 86400"
      unfolding c [symmetric] by (simp_all only: civil_less_iff civil_inj add_less_cancel_right add_right_cancel)
    moreover have "s < t \<longleftrightarrow> s div 86400 < t div 86400 \<or> s div 86400 = t div 86400 \<and> ?t < ?u" by (rule div_mod_less) simp
    moreover have "s = t \<longleftrightarrow> s div 86400 = t div 86400 \<and> ?t = ?u" by (metis mult_div_mod_eq)
    ultimately show ?thesis by blast
  qed
  finally show ?thesis .
qed

lemma rfc3339_less: "dated s \<Longrightarrow> dated t \<Longrightarrow> rfc3339 0 s < rfc3339 0 t \<longleftrightarrow> s < t"
  using clock_text_less [of s t "zone_text 0" "zone_text 0"] by (simp add: rfc3339_def)

lemma rfc3339_less_zone: "dated s \<Longrightarrow> dated (t + tz) \<Longrightarrow> rfc3339 0 s < rfc3339 tz t \<longleftrightarrow> s < t + tz"
proof -
  have "\<not> zone_text 0 < zone_text tz"
    by (auto simp: zone_text_def Let_def less_char_def)
  then show "dated s \<Longrightarrow> dated (t + tz) \<Longrightarrow> rfc3339 0 s < rfc3339 tz t \<longleftrightarrow> s < t + tz"
    using clock_text_less [of s "t + tz" "zone_text 0" "zone_text tz"] by (simp add: rfc3339_def)
qed

text \<open>Parsing is the inverse of formatting.\<close>

lemma parse_format:
  assumes "dated s"
  shows "parse_rfc3339 (rfc3339 0 s) = Some s"
proof -
  obtain y m d where c: "date_of s = (y, m, d)" by (metis prod_cases3)
  let ?t = "s mod 86400"
  have t: "0 \<le> ?t" "?t < 86400" by simp_all
  note f = dated_fields [OF assms(1) c] and v = civil_valid [OF c] and g = day_fields [OF t]
  obtain Y1 Y2 Y3 Y4 where Y: "appendInt y 4 = [Y1, Y2, Y3, Y4]"
    using appendInt_digits(1) [OF f(1,2)] by (auto simp: length_Suc_conv eval_nat_numeral)
  have two: "\<exists>x1 x2. appendInt x 2 = [x1, x2]" if "0 \<le> x" "x < 10 ^ 2" for x
    using appendInt_digits(1) [OF that] by (auto simp: length_Suc_conv eval_nat_numeral)
  have w: "x \<le> 59 \<Longrightarrow> x < 10 ^ 2" "x \<le> 23 \<Longrightarrow> x < 10 ^ 2" for x :: int by simp_all
  obtain M1 M2 D1 D2 where MD: "appendInt m 2 = [M1, M2]" "appendInt d 2 = [D1, D2]" using two f by metis
  obtain H1 H2 N1 N2 S1 S2 where T: "appendInt (?t div 3600) 2 = [H1, H2]" "appendInt (?t mod 3600 div 60) 2 = [N1, N2]" "appendInt (?t mod 60) 2 = [S1, S2]"
    using two [OF g(1) w(2) [OF g(2)]] two [OF g(3) w(1) [OF g(4)]] two [OF g(5) w(1) [OF g(6)]] by blast
  have p: "parseUint [Y1, Y2, Y3, Y4] 0 9999 = Some y" "parseUint [M1, M2] 1 12 = Some m" "parseUint [D1, D2] 1 (days_in_month y m) = Some d"
    "parseUint [H1, H2] 0 23 = Some (?t div 3600)" "parseUint [N1, N2] 0 59 = Some (?t mod 3600 div 60)" "parseUint [S1, S2] 0 59 = Some (?t mod 60)"
  proof -
    show "parseUint [Y1, Y2, Y3, Y4] 0 9999 = Some y" "parseUint [M1, M2] 1 12 = Some m" "parseUint [D1, D2] 1 (days_in_month y m) = Some d"
      unfolding Y [symmetric] MD [symmetric] using f v by (simp_all add: parse_appendInt)
    show "parseUint [H1, H2] 0 23 = Some (?t div 3600)"
      unfolding T [symmetric] by (rule parse_appendInt [OF g(1) w(2) [OF g(2)] _ g(1,2)]) simp
    show "parseUint [N1, N2] 0 59 = Some (?t mod 3600 div 60)"
      unfolding T [symmetric] by (rule parse_appendInt [OF g(3) w(1) [OF g(4)] _ g(3,4)]) simp
    show "parseUint [S1, S2] 0 59 = Some (?t mod 60)"
      unfolding T [symmetric] by (rule parse_appendInt [OF g(5) w(1) [OF g(6)] _ g(5,6)]) simp
  qed
  have days: "days_of_civil (y, m, d) - 719162 = s div 86400" using days_of_civil_civil [of "s div 86400 + 719162"] c by simp
  have m: "?t mod 60 = ?t mod 3600 mod 60" by (simp add: mod_mod_cancel)
  have add: "q * 86400 + h * 3600 + n * 60 + x = z" if "q * 86400 + t = z" "h * 3600 + k = t" "n * 60 + x = k" for q h n x z t k :: int
    using that by simp
  note sum = add [OF div_mult_mod_eq div_mult_mod_eq div_mult_mod_eq, of s, folded m]
  have written: "rfc3339 0 s = [Y1, Y2, Y3, Y4, CHR ''-'', M1, M2, CHR ''-'', D1, D2, CHR ''T'', H1, H2, CHR '':'', N1, N2, CHR '':'', S1, S2, CHR ''Z'']"
    by (simp add: rfc3339_def clock_text_def zone_text_def c Let_def Y MD T)
  show ?thesis unfolding written parse_rfc3339_def
    by (simp add: p days parse_zone_def sum del: div_mult_mod_eq)
qed

end
