(* ===== verification/Timestamps.thy ===== *)
theory Timestamps
  imports Repo Go_Time
begin

text \<open>
  The timestamp columns as the tables hold them. \<open>Repo\<close> keeps a timestamp as its seconds; the code
  writes RFC 3339 text and compares texts. Here the statements of \<open>internal/repo\<close> that look at
  timestamps are given once more, on the texts of the columns and with the comparisons as the
  queries have them, and proved to be the operations of \<open>Repo\<close> for the years 0 to 9999.
  Texts are compared byte by byte, the casts to \<open>timestamptz\<close> read the text back.
\<close>

subsection \<open>Columns\<close>

definition stamp :: "time \<Rightarrow> string" where
  "stamp t = rfc3339 0 (secs t)"

definition created_text :: "build_row \<Rightarrow> string" where
  "created_text r = rfc3339 0 (c_created_at r)"

definition updated_text :: "build_row \<Rightarrow> string" where
  "updated_text r = rfc3339 0 (c_updated_at r)"

definition completed_text :: "build_row \<Rightarrow> string option" where
  "completed_text r = map_option (rfc3339 0) (c_completed_at r)"

definition heartbeat_text :: "worker_row \<Rightarrow> string" where
  "heartbeat_text w = rfc3339 0 (w_last_heartbeat w)"

text \<open>All timestamps of a database are of the years 0 to 9999.\<close>

definition dated_row :: "build_row \<Rightarrow> bool" where
  "dated_row r \<longleftrightarrow> dated (c_created_at r) \<and> dated (c_updated_at r) \<and> (\<forall>t. c_completed_at r = Some t \<longrightarrow> dated t)"

definition dated_db :: "database \<Rightarrow> bool" where
  "dated_db d \<longleftrightarrow> (\<forall>r \<in> set (builds d). dated_row r) \<and> (\<forall>w \<in> set (workers d). dated (w_last_heartbeat w))"

subsection \<open>Statements on texts\<close>

text \<open>\<open>ORDER BY priority DESC, created_at ASC\<close>, and \<open>ORDER BY created_at DESC\<close> read backwards.\<close>

definition pending_text_key :: "build_row \<Rightarrow> int \<times> string" where
  "pending_text_key r = (- c_priority r, created_text r)"

definition timed_out_text :: "string \<Rightarrow> build_row \<Rightarrow> bool" where
  "timed_out_text nowStr r \<longleftrightarrow> c_status r = StatusBuilding \<and>
     (case (parse_rfc3339 nowStr, parse_rfc3339 (updated_text r)) of
        (Some n, Some u) \<Rightarrow> n - u > c_timeout_seconds r
      | _ \<Rightarrow> False)"

definition orphan_text :: "worker_row list \<Rightarrow> string \<Rightarrow> build_row \<Rightarrow> bool" where
  "orphan_text ws cutoff r \<longleftrightarrow> c_status r = StatusBuilding \<and>
     c_worker_id r \<in> w_id ` set (filter (\<lambda>w. heartbeat_text w < cutoff) ws)"

definition ReassignStale_text :: "time \<Rightarrow> int \<Rightarrow> int \<Rightarrow> database \<Rightarrow> unit reply" where
  "ReassignStale_text now workerTimeout buildTimeout d =
     (let nowStr = stamp now; cutoff = stamp (now - workerTimeout) in
      case update_stmt (timed_out_text nowStr) (timed_out_set (secs now)) d of
        (Err e, d1) \<Rightarrow> (Err e, d1)
      | (Panic, d1) \<Rightarrow> (Panic, d1)
      | (Ret _, d1) \<Rightarrow>
         (case update_stmt (orphan_text (workers d1) cutoff) (orphan_set (secs now)) d1 of
            (Err e, d2) \<Rightarrow> (Err e, d2)
          | (Panic, d2) \<Rightarrow> (Panic, d2)
          | (Ret _, d2) \<Rightarrow> (Ret (), d2)))"

text \<open>The cutoff of \<open>GC\<close> is formatted in the zone of its \<open>Time\<close> value, \<open>tz\<close> seconds ahead of UTC.\<close>

definition gc_text :: "string \<Rightarrow> build_row \<Rightarrow> bool" where
  "gc_text cutoff r \<longleftrightarrow> IsTerminal (c_status r) \<and>
     (case completed_text r of None \<Rightarrow> False | Some t \<Rightarrow> t < cutoff)"

definition GC_text :: "int \<Rightarrow> time \<Rightarrow> database \<Rightarrow> nat reply" where
  "GC_text tz before = run_stmt (\<lambda>d. let p = gc_text (rfc3339 tz (secs before)) in
     (Ret (length (filter p (builds d))), d\<lparr>builds := filter (\<lambda>r. \<not> p r) (builds d)\<rparr>))"

definition CountUserDaily_text :: "time \<Rightarrow> string \<Rightarrow> database \<Rightarrow> nat reply" where
  "CountUserDaily_text now u = (let today = stamp (now - now mod 86400000000000) in
     count_where (\<lambda>r. c_user_id r = u \<and> created_text r \<ge> today))"

definition CountActive_text :: "time \<Rightarrow> int \<Rightarrow> database \<Rightarrow> nat reply" where
  "CountActive_text now maxAge = (let cutoff = stamp (now - maxAge) in
     query (\<lambda>d. length (filter (\<lambda>w. heartbeat_text w > cutoff \<and> w_status w \<noteq> ''offline'') (workers d))))"

definition MarkOffline_text :: "time \<Rightarrow> int \<Rightarrow> database \<Rightarrow> unit reply" where
  "MarkOffline_text now maxAge = (let cutoff = stamp (now - maxAge) in
     run_stmt (\<lambda>d. (Ret (), d\<lparr>workers := map (\<lambda>w.
       if heartbeat_text w < cutoff \<and> w_status w \<noteq> ''offline'' then w\<lparr>w_status := ''offline''\<rparr> else w)
       (workers d)\<rparr>)))"

subsection \<open>Every statement keeps the years in range\<close>

lemma dated_faults [simp]: "dated_db (d\<lparr>faults := fs\<rparr>) = dated_db d"
  by (simp add: dated_db_def)

lemma dated_stmt:
  "dated_db d \<Longrightarrow> (\<And>d. dated_db d \<Longrightarrow> dated_db (snd (f d))) \<Longrightarrow> dated_db (snd (run_stmt f d))"
  by (rule run_stmt_inv) simp_all

lemma dated_update:
  assumes "dated_db d" "\<And>r. dated_row r \<Longrightarrow> dated_row (g r)"
  shows "dated_db (snd (update_stmt p g d))"
  unfolding update_stmt_snd by (rule dated_stmt [OF assms(1)]) (use assms(2) in \<open>auto simp: dated_db_def\<close>)

lemma dated_sets:
  assumes "dated n" "dated_row r"
  shows "dated_row (update_set n st w l e r)" "dated_row (timed_out_set n r)" "dated_row (orphan_set n r)"
  using assms by (auto simp: dated_row_def update_set_def timed_out_set_def orphan_set_def)

lemma dated_statements:
  assumes "dated_db d" "dated (secs t)"
  shows "dated_db (snd (snd (Create t b d)))" "dated_db (snd (UpdateStatus t i st w l e d))" "dated_db (snd (SetCacheRate i x d))"
    "dated_db (snd (ReassignStale t wt bt d))" "dated_db (snd (GC tz before d))"
    "dated_db (snd (snd (Upsert t wk d)))" "dated_db (snd (MarkOffline now age d))"
proof -
  show "dated_db (snd (snd (Create t b d)))" unfolding Create_def insertBuild_def Let_def snd_conv
    by (rule dated_stmt [OF assms(1)]) (use assms(2) in \<open>auto simp: dated_db_def dated_row_def new_row_def\<close>)
  show "dated_db (snd (UpdateStatus t i st w l e d))" unfolding UpdateStatus_snd by (rule dated_update [OF assms(1) dated_sets(1) [OF assms(2)]])
  show "dated_db (snd (ReassignStale t wt bt d))"
    by (rule ReassignStale_inv) (use assms in \<open>auto intro: dated_update dated_sets\<close>)
  show "dated_db (snd (GC tz before d))"
    unfolding GC_def by (rule dated_stmt [OF assms(1)]) (auto simp: dated_db_def Let_def)
  show "dated_db (snd (snd (Upsert t wk d)))" unfolding Upsert_def Let_def snd_conv
    by (rule dated_stmt [OF assms(1)]) (use assms(2) in \<open>auto simp: dated_db_def new_worker_row_def\<close>)
  show "dated_db (snd (MarkOffline now age d))" unfolding MarkOffline_def Let_def
    by (rule dated_stmt [OF assms(1)]) (auto simp: dated_db_def)
  show "dated_db (snd (SetCacheRate i x d))"
    using dated_update [OF assms(1), of "\<lambda>r. r\<lparr>c_cache_hit_rate := f32 x\<rparr>" "\<lambda>r. c_id r = i"]
    by (auto simp: SetCacheRate_def dated_row_def split: prod.split outcome.split)
qed

subsection \<open>The comparisons\<close>

lemma stmt_cong:
  assumes "dated_db d" "\<And>d. dated_db d \<Longrightarrow> f d = g d"
  shows "run_stmt f d = run_stmt g d"
proof -
  have "f (d\<lparr>faults := fs\<rparr>) = g (d\<lparr>faults := fs\<rparr>)" for fs using assms by (simp add: dated_db_def)
  then show ?thesis using assms by (simp add: run_stmt_def split: list.split fault.split)
qed

lemma timed_out_text_eq: "dated_row r \<Longrightarrow> dated (secs now) \<Longrightarrow> timed_out_text (stamp now) r = timed_out_cond (secs now) r"
  by (auto simp: timed_out_text_def timed_out_cond_def stamp_def updated_text_def parse_format dated_row_def)

lemma orphan_text_eq:
  assumes "\<forall>w \<in> set ws. dated (w_last_heartbeat w)" "dated (secs t)"
  shows "orphan_text ws (stamp t) r = orphan_cond ws (secs t) r"
proof -
  have "filter (\<lambda>w. heartbeat_text w < stamp t) ws = filter (\<lambda>w. w_last_heartbeat w < secs t) ws"
    using assms by (intro filter_cong) (simp_all add: heartbeat_text_def stamp_def rfc3339_less)
  then show ?thesis by (simp add: orphan_text_def orphan_cond_def)
qed

lemma gc_text_eq: "dated_row r \<Longrightarrow> dated (secs before + tz) \<Longrightarrow> gc_text (rfc3339 tz (secs before)) r = gc_cond (secs before + tz) r"
  by (auto simp: gc_text_def gc_cond_def completed_text_def dated_row_def rfc3339_less_zone split: option.split)

lemma pending_text_less:
  "dated_row r \<Longrightarrow> dated_row r' \<Longrightarrow> pending_text_key r < pending_text_key r' \<longleftrightarrow> pending_key r < pending_key r'"
  by (auto simp: pending_text_key_def pending_key_def created_text_def dated_row_def rfc3339_less)

lemma count_cong:
  assumes "dated_db d" "\<And>r. dated_row r \<Longrightarrow> p r = q r"
  shows "count_where p d = count_where q d"
  unfolding count_where_def query_def
  by (rule stmt_cong [OF assms(1)]) (use assms(2) in \<open>simp add: dated_db_def cong: filter_cong\<close>)

lemma update_cong:
  assumes "dated_db d" "\<And>r. dated_row r \<Longrightarrow> p r = q r"
  shows "update_stmt p g d = update_stmt q g d"
  unfolding update_stmt_def
  by (rule stmt_cong [OF assms(1)]) (use assms(2) in \<open>simp add: dated_db_def update_rows_def cong: filter_cong map_cong\<close>)

lemma ReassignStale_text_eq:
  assumes "dated_db d" "dated (secs now)" "dated (secs (now - wt))"
  shows "ReassignStale_text now wt bt d = ReassignStale now wt bt d"
proof -
  let ?u = "update_stmt (timed_out_cond (secs now)) (timed_out_set (secs now)) d"
  have "update_stmt (timed_out_text (stamp now)) (timed_out_set (secs now)) d = ?u"
    by (rule update_cong [OF assms(1) timed_out_text_eq [OF _ assms(2)]])
  moreover have d1: "dated_db (snd ?u)" by (rule dated_update [OF assms(1) dated_sets(2) [OF assms(2)]])
  moreover have "update_stmt (orphan_text (workers (snd ?u)) (stamp (now - wt))) (orphan_set (secs now)) (snd ?u) =
      update_stmt (orphan_cond (workers (snd ?u)) (secs (now - wt))) (orphan_set (secs now)) (snd ?u)"
    by (rule update_cong [OF d1 orphan_text_eq [OF _ assms(3)]]) (use d1 in \<open>simp add: dated_db_def\<close>)
  ultimately show ?thesis unfolding ReassignStale_text_def ReassignStale_def Let_def
    by (cases ?u) (simp split: outcome.split)
qed

lemma GC_text_eq:
  assumes "dated_db d" "dated (secs before + tz)"
  shows "GC_text tz before d = GC tz before d"
  unfolding GC_text_def GC_def Let_def
proof (rule stmt_cong [OF assms(1)])
  fix d assume "dated_db d"
  then have "\<forall>r \<in> set (builds d). gc_text (rfc3339 tz (secs before)) r = gc_cond (secs before + tz) r"
    using gc_text_eq [OF _ assms(2)] by (simp add: dated_db_def)
  then show "(Ret (length (filter (gc_text (rfc3339 tz (secs before))) (builds d))),
      d\<lparr>builds := filter (\<lambda>r. \<not> gc_text (rfc3339 tz (secs before)) r) (builds d)\<rparr>) =
    (Ret (length (filter (gc_cond (secs before + tz)) (builds d))), d\<lparr>builds := filter (\<lambda>r. \<not> gc_cond (secs before + tz) r) (builds d)\<rparr>)"
    by (simp cong: filter_cong)
qed

lemma CountUserDaily_text_eq:
  assumes "dated_db d" "dated (secs (now - now mod 86400000000000))"
  shows "CountUserDaily_text now u d = CountUserDaily now u d"
  unfolding CountUserDaily_text_def CountUserDaily_def Let_def
  by (rule count_cong [OF assms(1)]) (use assms(2) in \<open>simp add: stamp_def created_text_def dated_row_def rfc3339_less flip: not_less\<close>)

lemma worker_text_eq:
  assumes "dated_db d" "dated (secs (now - age))"
  shows "CountActive_text now age d = CountActive now age d" "MarkOffline_text now age d = MarkOffline now age d"
proof -
  have less: "heartbeat_text w < stamp (now - age) \<longleftrightarrow> w_last_heartbeat w < secs (now - age)"
    "stamp (now - age) < heartbeat_text w \<longleftrightarrow> secs (now - age) < w_last_heartbeat w" if "dated (w_last_heartbeat w)" for w
    using that assms(2) by (simp_all add: heartbeat_text_def stamp_def rfc3339_less)
  show "CountActive_text now age d = CountActive now age d"
    unfolding CountActive_text_def CountActive_def Let_def query_def
    by (rule stmt_cong [OF assms(1)]) (simp add: dated_db_def less cong: filter_cong)
  show "MarkOffline_text now age d = MarkOffline now age d"
    unfolding MarkOffline_text_def MarkOffline_def Let_def
    by (rule stmt_cong [OF assms(1)]) (simp add: dated_db_def less cong: map_cong)
qed

text \<open>Midnight is in range with the day.\<close>

lemma dated_today:
  assumes "dated (secs now)"
  shows "dated (secs (now - now mod 86400000000000))"
proof -
  have s: "secs (now - now mod 86400000000000) = now div 86400000000000 * 86400"
    by (simp add: secs_def minus_mod_eq_div_mult)
  have "now div 86400000000000 = secs now div 86400" by (simp add: secs_def flip: zdiv_zmult2_eq)
  then have "-719528 \<le> now div 86400000000000" "now div 86400000000000 * 86400 \<le> secs now"
    using zdiv_mono1 [of "- 62167219200" "secs now" 86400] div_mult_mod_eq [of "secs now" 86400] assms
    by (simp_all add: dated_def del: div_mult_mod_eq)
  then show ?thesis using assms unfolding s dated_def by linarith
qed

subsection \<open>Properties\<close>

text \<open>(C6) Comparing timestamps as text is comparing times. The tables hold RFC 3339 text and the
  queries compare it as text: for the years 0 to 9999 each of these statements has, with its
  comparisons on texts, exactly the effect and answer it has on the times themselves (the cutoff of
  a garbage collection shifted by the zone it is written in), builds are ordered alike,
  and reading a timestamp back gives the second it was written at. Every statement that writes
  timestamps leaves them in that range.\<close>

theorem text_statements:
  assumes "dated_db d" "dated (secs now)" "dated (secs (now - age))" "dated (secs before + tz)"
  shows "ReassignStale_text now age bt d = ReassignStale now age bt d \<and> GC_text tz before d = GC tz before d \<and>
    CountUserDaily_text now u d = CountUserDaily now u d \<and> CountActive_text now age d = CountActive now age d \<and>
    MarkOffline_text now age d = MarkOffline now age d \<and>
    (\<forall>r \<in> set (builds d). parse_rfc3339 (created_text r) = Some (c_created_at r) \<and>
       (\<forall>r' \<in> set (builds d). (pending_text_key r < pending_text_key r') = (pending_key r < pending_key r'))) \<and>
    dated_db (snd (snd (Create now b d))) \<and> dated_db (snd (UpdateStatus now i st w l e d)) \<and>
    dated_db (snd (ReassignStale now age bt d)) \<and> dated_db (snd (snd (Upsert now wk d)))"
  using assms dated_statements [OF assms(1,2)] ReassignStale_text_eq [OF assms(1-3)] GC_text_eq [OF assms(1,4)]
    CountUserDaily_text_eq [OF assms(1) dated_today [OF assms(2)]] worker_text_eq [OF assms(1,3)]
    pending_text_less parse_format
  by (simp add: dated_db_def [of d] dated_row_def created_text_def)

theorem text_statements_witness:
  "CountUserDaily_text 1700000000000000000 ''me'' sample_db = CountUserDaily 1700000000000000000 ''me'' sample_db \<and>
   created_text (new_row (sample\<lparr>CreatedAt := 1700000000500000000\<rparr>)) = ''2023-11-14T22:13:20Z''"
proof
  have "dated_db sample_db" by (simp add: dated_db_def dated_row_def dated_def sample_db_eq new_row_def secs_def)
  then show "CountUserDaily_text 1700000000000000000 ''me'' sample_db = CountUserDaily 1700000000000000000 ''me'' sample_db"
    using text_statements [of sample_db 1700000000000000000 0 1700000000000000000 0] by (simp add: dated_def secs_def)
  have "created_text (new_row (sample\<lparr>CreatedAt := 1700000000500000000\<rparr>)) = rfc3339 0 1700000000"
    by (simp add: created_text_def new_row_def secs_def)
  also have "\<dots> = ''2023-11-14T22:13:20Z''" by code_simp
  finally show "created_text (new_row (sample\<lparr>CreatedAt := 1700000000500000000\<rparr>)) = ''2023-11-14T22:13:20Z''" .
qed

end
