(* ===== verification/Well_Formed.thy ===== *)
theory Well_Formed
  imports System
begin

text \<open>
  What is true of the data of every build: an identifier, a fingerprint of 64 lower-case
  hexadecimal digits, a timeout between a second and an hour, no priority and no retries. Called
  with a timeout in that range and an identifier, the service stores and queues only such builds and
  hands out no others, in every interleaving; \<open>Server_Types\<close> shows that the handlers call it so.
\<close>

subsection \<open>Well-formed builds\<close>

definition build_typed :: "build \<Rightarrow> bool" where
  "build_typed b \<longleftrightarrow> ID b \<noteq> [] \<and> length (Fingerprint b) = 64 \<and> (\<forall>c \<in> set (Fingerprint b). is_hex_char c) \<and>
     1 \<le> TimeoutSeconds b \<and> TimeoutSeconds b \<le> 3600 \<and> Priority b = 0 \<and> RetryCount b = 0 \<and> MaxRetries b = 0"

definition rows_typed :: "database \<Rightarrow> bool" where
  "rows_typed d \<longleftrightarrow> (\<forall>r \<in> set (builds d). build_typed (scan_row r))"

definition sys_typed :: "database sys \<Rightarrow> bool" where
  "sys_typed s \<longleftrightarrow> rows_typed (store s) \<and> queue_ok (que s) \<and> (\<forall>b \<in># queued (que s). build_typed b)"

lemma build_typed_simps [simp]:
  "build_typed (b\<lparr>Status := x\<rparr>) = build_typed b" "build_typed (b\<lparr>WorkerID := w\<rparr>) = build_typed b"
  "build_typed (b\<lparr>CreatedAt := t\<rparr>) = build_typed b" "build_typed (b\<lparr>UpdatedAt := t\<rparr>) = build_typed b"
  by (simp_all add: build_typed_def)

lemma scan_row_typed:
  "build_typed (scan_row r) \<longleftrightarrow> c_id r \<noteq> [] \<and> length (c_fingerprint r) = 64 \<and> (\<forall>c \<in> set (c_fingerprint r). is_hex_char c) \<and>
     1 \<le> c_timeout_seconds r \<and> c_timeout_seconds r \<le> 3600 \<and> c_priority r = 0 \<and> c_retry_count r = 0 \<and> c_max_retries r = 0"
  by (simp add: build_typed_def scan_row_def)

lemma scan_new_row [simp]: "build_typed (scan_row (new_row b)) = build_typed b"
  by (simp add: build_typed_def scan_row_def new_row_def)

lemma scan_updated [simp]:
  "build_typed (scan_row (update_set n st w l e r)) = build_typed (scan_row r)"
  "build_typed (scan_row (timed_out_set n r)) = build_typed (scan_row r)"
  "build_typed (scan_row (orphan_set n r)) = build_typed (scan_row r)"
  "build_typed (scan_row (r\<lparr>c_cache_hit_rate := x\<rparr>)) = build_typed (scan_row r)"
  by (simp_all add: build_typed_def scan_row_def update_set_def timed_out_set_def orphan_set_def)

lemma new_build_typed:
  assumes "FromDockerfile U df = Ret fp" "bid \<noteq> []" "1 \<le> tmo" "tmo \<le> 3600"
  shows "build_typed (new_build bid ctx df tag u tmo args fp)"
  using assms hex_chars FromDockerfile_Ret(1) [OF assms(1)]
  by (simp add: build_typed_def new_build_def zero_build_def)

subsection \<open>Statements and queue operations\<close>

lemma rows_typed_stmt:
  "rows_typed d \<Longrightarrow> (\<And>d. rows_typed d \<Longrightarrow> rows_typed (snd (f d))) \<Longrightarrow> rows_typed (snd (run_stmt f d))"
  by (rule run_stmt_inv) (simp_all add: rows_typed_def)

lemma rows_typed_update:
  assumes "rows_typed d" "\<And>r. build_typed (scan_row (g r)) = build_typed (scan_row r)"
  shows "rows_typed (snd (update_stmt p g d))"
  unfolding update_stmt_snd using assms by (intro rows_typed_stmt) (auto simp: rows_typed_def)

lemma rows_typed_statements:
  assumes "rows_typed d"
  shows "rows_typed (snd (UpdateStatus t i st w l e d))" "rows_typed (snd (Get i d))" "rows_typed (snd (ListPending rsort d))"
    "rows_typed (snd (snd (Upsert t x d)))" "rows_typed (snd (MarkOffline t age d))"
    "rows_typed (snd (ReassignStale t wt bt d))" "rows_typed (snd (GC tz t d))"
proof -
  show "rows_typed (snd (UpdateStatus t i st w l e d))" unfolding UpdateStatus_snd by (rule rows_typed_update [OF assms]) simp
  show "rows_typed (snd (Get i d))" "rows_typed (snd (ListPending rsort d))" "rows_typed (snd (snd (Upsert t x d)))"
    "rows_typed (snd (MarkOffline t age d))"
    using assms by (simp_all add: rows_typed_def Upsert_builds MarkOffline_builds Get_def ListPending_eq frame)
  show "rows_typed (snd (ReassignStale t wt bt d))"
    by (rule ReassignStale_inv) (use assms in \<open>auto intro: rows_typed_update\<close>)
  show "rows_typed (snd (GC tz t d))"
    unfolding GC_def by (rule rows_typed_stmt [OF assms]) (auto simp: rows_typed_def Let_def)
qed

lemma store_typed:
  "sys_typed s \<Longrightarrow> (rows_typed (store s) \<Longrightarrow> rows_typed (snd (f (store s)))) \<Longrightarrow> on_store f s = (x, s') \<Longrightarrow> sys_typed s'"
  by (auto simp: sys_typed_def on_store_def split: prod.splits)

lemma sched_typed: "sys_typed s \<Longrightarrow> on_sched f s = (x, s') \<Longrightarrow> sys_typed s'"
  by (auto simp: sys_typed_def on_sched_def)

lemma create_typed:
  assumes "sys_typed s" "build_typed b" "create_step (repo_persister rsort) t b s = ((b', res), s')"
  shows "sys_typed s' \<and> build_typed b'"
proof -
  have "rows_typed (snd (snd (Create t b (store s))))" unfolding Create_def insertBuild_def Let_def snd_conv
    by (rule rows_typed_stmt) (use assms(1,2) in \<open>auto simp: sys_typed_def rows_typed_def\<close>)
  moreover have "build_typed (fst (Create t b (store s)))" using assms(2) by (simp add: Create_def insertBuild_def Let_def)
  ultimately show ?thesis using assms(1,3) by (auto simp: create_step_def on_store_def sys_typed_def split: prod.splits)
qed

lemma push_typed:
  assumes "sys_typed s" "build_typed b" "on_que (Push b) s = (ok, s')"
  shows "sys_typed s'"
proof (cases "Full (que s)")
  case True
  then show ?thesis using assms(1,3) by (simp add: Push_full on_que_def)
next
  case False
  then show ?thesis using assms Push_queued [OF False, of b] Push_ok [of "que s" b]
    by (auto simp: sys_typed_def on_que_def split: prod.splits)
qed

lemma peek_typed:
  assumes "sys_typed s" "peek_step w s = (x, s')"
  shows "sys_typed s' \<and> (\<forall>b. x = Some b \<longrightarrow> build_typed b)"
proof (cases x)
  case None
  then show ?thesis using assms peek_None by blast
next
  case (Some b)
  then have "queue_ok (que s')" using assms PeekByScore_ok [of "que s"]
    by (auto simp: sys_typed_def peek_step_def on_que_def split: prod.splits) (metis snd_conv)
  then show ?thesis using assms Some peek_run [of s w b s'] by (auto simp: sys_typed_def dest: in_diffD)
qed

lemma remove_typed:
  assumes "sys_typed s" "on_que (Remove i) s = (x, s')"
  shows "sys_typed s'"
proof -
  obtain q where q: "Remove i (que s) = (x, q)" "s' = s\<lparr>que := q\<rparr>" using assms(2) by (auto simp: on_que_def split: prod.splits)
  have "queue_ok q" using Remove_ok [of "que s" i] assms(1) q(1) by (simp add: sys_typed_def)
  moreover have "set_mset (queued q) \<subseteq> set_mset (queued (que s))"
    using Remove_queued [of "que s" i, OF _ q(1)] assms(1) by (cases x) (auto simp: sys_typed_def dest: in_diffD)
  ultimately show ?thesis using assms(1) q(2) by (auto simp: sys_typed_def)
qed

subsection \<open>The calls\<close>

text \<open>A submission names its build, or the server has a name for it, and its timeout is in range, as
  the handlers see to.\<close>

fun request_typed :: "request \<Rightarrow> bool" where
  "request_typed (Submit uuid ts bid ctx df tag u tmo args) \<longleftrightarrow> (bid \<noteq> [] \<or> uuid \<noteq> []) \<and> 1 \<le> tmo \<and> tmo \<le> 3600"
| "request_typed _ \<longleftrightarrow> True"

fun response_typed :: "response \<Rightarrow> bool" where
  "response_typed (Submitted b) \<longleftrightarrow> build_typed b"
| "response_typed (Assigned (Some b)) \<longleftrightarrow> build_typed b"
| "response_typed _ \<longleftrightarrow> True"

definition ret_typed :: "('a \<Rightarrow> bool) \<Rightarrow> (svc_error, 'a) outcome \<Rightarrow> bool" where
  "ret_typed A res \<longleftrightarrow> (\<forall>x. res = Ret x \<longrightarrow> A x)"

lemma ret_typed_simps [simp]: "ret_typed A (Ret x) = A x" "ret_typed A (Err e)" "ret_typed A Panic"
  by (simp_all add: ret_typed_def)

lemma update_maintains:
  assumes "\<And>res. maintains sys_typed A (k res)"
  shows "maintains sys_typed A (atomic (update_step (repo_persister rsort) t i st w l e) k)"
  using assms store_typed [of _ "UpdateStatus t i st w l e"] rows_typed_statements(1)
  by (intro maintains_atomic) (auto simp: update_step_def)

lemma sched_maintains: "(\<And>u. maintains sys_typed A (k u)) \<Longrightarrow> maintains sys_typed A (atomic (on_sched f) k)"
  by (rule maintains_atomic) (auto intro: sched_typed)

lemma store_maintains:
  assumes "\<And>d. rows_typed d \<Longrightarrow> rows_typed (snd (f d))" "\<And>res. maintains sys_typed A (k res)"
  shows "maintains sys_typed A (atomic (on_store f) k)"
  using assms by (intro maintains_atomic) (auto intro: store_typed)

lemma push_or_cancel_maintains:
  "build_typed b \<Longrightarrow> maintains sys_typed (ret_typed build_typed) (push_or_cancel (repo_persister rsort) t b)"
  unfolding push_or_cancel_def by (rule maintains_atomic) (auto intro: push_typed update_maintains)

lemma submit_maintains:
  assumes "bid \<noteq> [] \<or> uuid \<noteq> []" "1 \<le> tmo" "tmo \<le> 3600"
  shows "maintains sys_typed (ret_typed build_typed) (SubmitBuild (repo_persister rsort) U uuid ts bid ctx df tag u tmo args)"
proof -
  let ?bid = "if bid = [] then uuid else bid"
  have created: "maintains sys_typed (ret_typed build_typed) (atomic (create_step (repo_persister rsort) (ts 0) b) (\<lambda>(b', res).
      case res of Err e \<Rightarrow> Done (Err (ErrCreate e)) | Panic \<Rightarrow> Done Panic | Ret _ \<Rightarrow> push_or_cancel (repo_persister rsort) (ts 1) b'))"
    if "build_typed b" for b
    using create_typed [OF _ that] push_or_cancel_maintains
    by (intro maintains_atomic) (auto split: prod.split outcome.split)
  have typed: "build_typed (new_build ?bid ctx df tag u tmo args fp)" if "FromDockerfile U df = Ret fp" for fp
    using new_build_typed [OF that, of ?bid] assms by simp
  show ?thesis
  proof (cases "FromDockerfile U df")
    case (Ret fp)
    show ?thesis unfolding SubmitBuild_def Let_def Ret outcome.case
      using created [OF typed [OF Ret]] by (auto split: option.split intro!: maintains_atomic [of _ "\<lambda>s. (Full (que s), s)"])
  qed (auto simp: SubmitBuild_def Let_def split: option.split)
qed

lemma claim_maintains:
  "build_typed b \<Longrightarrow> maintains sys_typed (ret_typed (\<lambda>x. \<forall>b. x = Some b \<longrightarrow> build_typed b)) (claim (repo_persister rsort) t w b)"
  unfolding claim_def by (intro update_maintains) (simp split: outcome.split)

lemma refill_maintains:
  assumes "\<forall>b \<in> set bs. build_typed b" "\<And>n. maintains sys_typed A (k n)"
  shows "maintains sys_typed A (refill bs n k)"
  using assms(1)
proof (induction bs arbitrary: n)
  case (Cons b bs)
  then show ?case using assms(2) push_typed by (auto intro!: maintains_atomic)
qed (simp add: assms(2))

context pending_sorter
begin

lemma list_typed:
  assumes "sys_typed s" "on_store (ListPending rsort) s = (x, s')"
  shows "sys_typed s' \<and> (\<forall>bs. x = Ret bs \<longrightarrow> (\<forall>b \<in> set bs. build_typed b))"
proof -
  obtain d where d: "ListPending rsort (store s) = (x, d)" using assms(2) by (auto simp: on_store_def split: prod.splits)
  have "build_typed b" if "x = Ret bs" "b \<in> set bs" for bs b
    using ListPending_Ret(1) [of rsort "store s" bs d] d that pending_rows_mem assms(1) by (auto simp: sys_typed_def rows_typed_def)
  then show ?thesis using store_typed [OF assms(1) rows_typed_statements(3) assms(2)] by blast
qed

lemma assign_maintains:
  "maintains sys_typed (ret_typed (\<lambda>x. \<forall>b. x = Some b \<longrightarrow> build_typed b)) (AssignBuild_svc (repo_persister rsort) t w)"
proof -
  let ?A = "ret_typed (\<lambda>x. \<forall>b. x = Some b \<longrightarrow> build_typed b)"
  have again: "maintains sys_typed ?A (refill bs 0 (\<lambda>_. atomic (peek_step w) (\<lambda>found.
      claim (repo_persister rsort) t w (case found of Some b \<Rightarrow> b | None \<Rightarrow> hd bs))))"
    if "\<forall>b \<in> set bs. build_typed b" "bs \<noteq> []" for bs
    using that peek_typed claim_maintains by (intro refill_maintains maintains_atomic) (auto split: option.split)
  have "maintains sys_typed ?A (atomic (on_store (ListPending rsort)) (\<lambda>res. case res of
      Ret bs \<Rightarrow> if bs = [] then Done (Ret None) else refill bs 0 (\<lambda>_. atomic (peek_step w) (\<lambda>found.
        claim (repo_persister rsort) t w (case found of Some b \<Rightarrow> b | None \<Rightarrow> hd bs)))
    | _ \<Rightarrow> Done (Ret None)))"
    using list_typed again by (intro maintains_atomic) (auto split: outcome.split)
  then show ?thesis unfolding AssignBuild_svc_def
    using peek_typed claim_maintains by (intro maintains_atomic) (auto split: option.split)
qed

lemma warm_maintains: "maintains sys_typed (ret_typed (\<lambda>_. True)) (WarmQueue (repo_persister rsort))"
  unfolding WarmQueue_def using list_typed
  by (intro maintains_atomic) (auto split: outcome.split intro!: refill_maintains)

end

lemma complete_maintains: "maintains sys_typed (ret_typed (\<lambda>_. True)) (CompleteBuild (repo_persister rsort) sortf t i st e)"
  unfolding CompleteBuild_def
  by (auto split: outcome.split intro!: update_maintains store_maintains sched_maintains rows_typed_statements)

lemma cancel_maintains: "maintains sys_typed (ret_typed (\<lambda>_. True)) (CancelBuild (repo_persister rsort) t i)"
  unfolding CancelBuild_def
  by (auto split: outcome.split intro!: store_maintains maintains_atomic [of _ "on_que (Remove i)"] update_maintains
      rows_typed_statements intro: remove_typed)

lemma log_maintains: "maintains sys_typed (ret_typed (\<lambda>_. True)) (AppendLog (repo_persister rsort) t i line)"
  unfolding AppendLog_def by (auto split: outcome.split intro!: update_maintains)

lemma reply_maintains: "maintains sys_typed (ret_typed (\<lambda>_. True)) (reply_call res)"
  by (simp add: reply_call_def ret_typed_def)

lemma worker_maintains:
  "maintains sys_typed (ret_typed (\<lambda>_. True)) (Heartbeat sortf t x)"
  "maintains sys_typed (ret_typed (\<lambda>_. True)) (PruneStale t age)"
  "maintains sys_typed (ret_typed (\<lambda>_. True)) (ReassignStaleBuilds t wt bt)"
  "maintains sys_typed (ret_typed (\<lambda>_. True)) (GCCompleted tz t)"
  unfolding Heartbeat_def PruneStale_def ReassignStaleBuilds_def GCCompleted_def
  by (auto split: outcome.split simp: snd_reassoc intro!: store_maintains sched_maintains reply_maintains rows_typed_statements)

lemma serve_maintains:
  assumes "pending_sorter rsort" "request_typed q"
  shows "maintains sys_typed response_typed (serve U rsort sortf q)"
proof -
  have "response_typed (answer f res)" if "ret_typed (\<lambda>x. response_typed (f x)) res" for f :: "'x \<Rightarrow> response" and res
    using that by (cases res) simp_all
  then have lift: "maintains sys_typed response_typed (map_prog (answer f) p)"
    if "maintains sys_typed (ret_typed (\<lambda>x. response_typed (f x))) p" for f :: "'x \<Rightarrow> response" and p
    using that by (auto intro: maintains_map)
  have "response_typed (Assigned x) \<longleftrightarrow> (\<forall>b. x = Some b \<longrightarrow> build_typed b)" for x by (cases x) simp_all
  then show ?thesis
    using assms pending_sorter.assign_maintains [OF assms(1)] pending_sorter.warm_maintains [OF assms(1)]
    by (cases q) (simp_all add: lift submit_maintains complete_maintains cancel_maintains log_maintains worker_maintains)
qed

subsection \<open>Properties\<close>

lemma sys_typed_empty: "builds d = [] \<Longrightarrow> sys_typed \<lparr>store = d, que = New n, sched = New_scheduler\<rparr>"
  by (simp add: sys_typed_def rows_typed_def)

text \<open>In every interleaving of calls with well-formed arguments, and with any database faults, every build
  that is stored, queued or answered is well-formed. (That the handlers pass only such arguments,
  whatever the requests, is shown in \<open>Server_Types\<close>.)\<close>

lemma concurrent_types:
  assumes "pending_sorter rsort" "\<forall>q \<in> set qs. request_typed q"
    and "pool_steps (\<lparr>store = empty_db\<lparr>faults := fs\<rparr>, que = New n, sched = New_scheduler\<rparr>, map (serve U rsort sortf) qs) (s', ps')"
  shows "(\<forall>r \<in> set (builds (store s')). c_id r \<noteq> [] \<and> length (c_fingerprint r) = 64 \<and> (\<forall>c \<in> set (c_fingerprint r). is_hex_char c) \<and>
      1 \<le> c_timeout_seconds r \<and> c_timeout_seconds r \<le> 3600 \<and> c_priority r = 0 \<and> c_retry_count r = 0 \<and> c_max_retries r = 0) \<and>
    (\<forall>b \<in># queued (que s'). build_typed b) \<and> (\<forall>a. Done a \<in> set ps' \<longrightarrow> response_typed a)"
proof -
  have ps: "\<forall>p \<in> set (map (serve U rsort sortf) qs). maintains sys_typed response_typed p"
    using serve_maintains [OF assms(1)] assms(2) by simp
  have "sys_typed \<lparr>store = empty_db\<lparr>faults := fs\<rparr>, que = New n, sched = New_scheduler\<rparr>"
    by (rule sys_typed_empty) (simp add: empty_db_def)
  then have s': "sys_typed s'" and ps': "\<forall>p \<in> set ps'. maintains sys_typed response_typed p"
    using pool_maintains [OF assms(3) _ ps] by blast+
  have "response_typed a" if "Done a \<in> set ps'" for a using bspec [OF ps' that] by simp
  then show ?thesis using s' unfolding sys_typed_def rows_typed_def scan_row_typed by blast
qed

end
