(* ===== verification/Server_Types.thy ===== *)
theory Server_Types
  imports Well_Formed Api
begin

text \<open>
  The handlers of \<open>Api\<close> keep the data of a server well-formed: what \<open>Well_Formed\<close> shows of the
  calls of the service, for every request that a server handles and every maintenance tick,
  and every build in a response is well-formed.
\<close>

abbreviation typed :: "'b server \<Rightarrow> bool" where
  "typed s \<equiv> sys_typed (core s)"

text \<open>The environment of a request: sorting sorts, fresh identifiers are not empty.\<close>

definition env_typed :: "'b env \<Rightarrow> bool" where
  "env_typed e \<longleftrightarrow> env_ok e \<and> sorter list_key (list_sort e) \<and> uuid e \<noteq> []"

fun body_typed :: "body \<Rightarrow> bool" where
  "body_typed (BuildJson b) \<longleftrightarrow> build_typed b"
| "body_typed (PageJson bs n l o') \<longleftrightarrow> (\<forall>b \<in> set bs. build_typed b)"
| "body_typed _ \<longleftrightarrow> True"

subsection \<open>Calls and statements\<close>

lemma serve_typed:
  assumes "env_typed e" "request_typed q" "serve (caseU e) (row_sort e) (node_sort e) q = map_prog g p"
    and "typed s" "call p s = (a, s')"
  shows "typed s' \<and> response_typed (g a)"
proof -
  have "pending_sorter (row_sort e)" using assms(1) by (auto simp: env_typed_def env_ok_def service_env_def)
  then have "maintains sys_typed response_typed (map_prog g p)" using serve_maintains [OF _ assms(2)] assms(3) by metis
  moreover have "run (map_prog g p) (core s) = (g a, core s')" using assms(5) by (auto simp: run_map call_def split: prod.splits)
  ultimately show ?thesis using run_maintains assms(4) by metis
qed

lemmas submit_typed = serve_typed [of _ "Submit u ts bid ctx df tag us tmo args" for u ts bid ctx df tag us tmo args,
    simplified, OF _ _ refl]
  and assign_typed = serve_typed [of _ "Assign t w" for t w, simplified, OF _ refl]
  and complete_typed = serve_typed [of _ "Complete t i st er" for t i st er, simplified, OF _ refl]
  and cancel_typed = serve_typed [of _ "Cancel t i" for t i, simplified, OF _ refl]
  and warm_typed = serve_typed [of _ Warm, simplified, OF _ refl]
  and log_typed = serve_typed [of _ "Log t i l" for t i l, simplified, OF _ refl]
  and beat_typed = serve_typed [of _ "Beat t w" for t w, simplified, OF _ refl]
  and prune_typed = serve_typed [of _ "Prune t a" for t a, simplified, OF _ refl]
  and reassign_typed = serve_typed [of _ "Reassign t a b" for t a b, simplified, OF _ refl]
  and collect_typed = serve_typed [of _ "Collect tz t" for tz t, simplified, OF _ refl]

lemma db_typed:
  assumes "typed s" "\<And>d. rows_typed d \<Longrightarrow> rows_typed (snd (f d))" "on_db f s = (x, s')"
  shows "typed s'"
  using assms(1) assms(2) [of "store (core s)"] on_db_snd(2) [of f s] assms(3) by (simp add: sys_typed_def)

lemma read_typed: "typed s \<Longrightarrow> (\<And>d. builds (snd (f d)) = builds d) \<Longrightarrow> on_db f s = (x, s') \<Longrightarrow> typed s'"
  by (erule db_typed) (simp_all add: rows_typed_def)

lemma count_typed: "typed s \<Longrightarrow> (\<And>d. builds (snd (f d)) = builds d) \<Longrightarrow> count_or_0 f s = (n, s') \<Longrightarrow> typed s'"
  using read_typed [of s f] by (cases "on_db f s") (auto simp: count_or_0_def split: outcome.splits)

lemma rate_typed: "typed s \<Longrightarrow> on_db (SetCacheRate i y) s = (x, s') \<Longrightarrow> typed s'"
proof (erule db_typed)
  fix d assume "rows_typed d"
  then have "rows_typed (snd (update_stmt (\<lambda>r. c_id r = i) (\<lambda>r. r\<lparr>c_cache_hit_rate := f32 y\<rparr>) d))"
    by (rule rows_typed_update) simp
  then show "rows_typed (snd (SetCacheRate i y d))" by (auto simp: SetCacheRate_def split: prod.split outcome.split)
qed

lemma get_typed:
  assumes "typed s" "on_db (Get i) s = (x, s')"
  shows "typed s' \<and> (\<forall>b. x = Ret b \<longrightarrow> build_typed b)"
proof -
  obtain d where d: "Get i (store (core s)) = (x, d)" using assms(2) by (auto simp: on_db_def split: prod.splits)
  have "build_typed b" if x: "x = Ret b" for b
  proof -
    obtain r where "row_of (store (core s)) i = Some r" "b = scan_row r" using Get_Ret [of i "store (core s)" b d] d x by blast
    moreover from this have "r \<in> set (builds (store (core s)))" by (auto simp: row_of_def find_Some_iff)
    ultimately show ?thesis using assms(1) by (simp add: sys_typed_def rows_typed_def)
  qed
  then show ?thesis using read_typed [OF assms(1) reads_builds(1) assms(2)] by blast
qed

lemma list_builds_typed:
  assumes "typed s" "sorter key srt" "on_db (List srt n) s = (Ret bs, s')"
  shows "\<forall>b \<in> set bs. build_typed b"
proof -
  obtain d where d: "List srt n (store (core s)) = (Ret bs, d)" using assms(3) by (auto simp: on_db_def split: prod.splits)
  then have "bs = map scan_row (take (nat n) (srt (builds (store (core s)))))"
    unfolding List_eq by (auto elim!: run_stmt_Ret split: if_splits)
  moreover have "set (srt (builds (store (core s)))) = set (builds (store (core s)))"
    using sorter.sort_mset [OF assms(2)] by (metis set_mset_mset)
  ultimately show ?thesis using assms(1) by (auto simp: sys_typed_def rows_typed_def dest: in_set_takeD)
qed

subsection \<open>Handlers\<close>

definition answered :: "http_response \<times> 'b server \<Rightarrow> bool" where
  "answered hs \<longleftrightarrow> typed (snd hs) \<and> body_typed (rbody (fst hs))"

lemma answered_pair [simp]: "answered (h, s) \<longleftrightarrow> typed s \<and> body_typed (rbody h)"
  by (simp add: answered_def)

lemma texts_typed [simp]: "body_typed (rbody (http_error n t))" "body_typed (rbody recovered)" "rbody (reply n x) = x"
  by (simp_all add: http_error_def recovered_def reply_def)

lemma submit_answered:
  assumes "env_typed e" "typed s" "bid \<noteq> []" "1 \<le> tmo" "tmo \<le> 3600"
    and "call (SubmitBuild (pers e) (caseU e) (uuid e) (clock e) bid ctx df tag us tmo args) s = (res, s')"
  shows "answered (submit_reply res, s')"
  using submit_typed [OF assms(1) _ assms(2) assms(6)] assms(3-5) by (cases res) (auto simp: submit_reply_def)

lemma submitBuild_answered:
  assumes "env_typed e" "typed s"
  shows "answered (submitBuild e ct key j f s)"
proof -
  have u: "or_else x (uuid e) \<noteq> []" for x using assms(1) by (simp add: or_else_def env_typed_def)
  have "answered (submit_json e key j s)"
    using submit_answered [OF assms u clamp_bounds [THEN conjunct1] clamp_bounds [THEN conjunct2]] assms(2)
    by (auto simp: submit_json_def split: sum.split prod.split)
  moreover have b: "typed (s\<lparr>blobs := b\<rparr>)" and t: "1 \<le> (600 :: int)" "600 \<le> (3600 :: int)" for b using assms(2) by simp_all
  have "answered (submit_form e key f s)"
    using submit_answered [OF assms(1) b u t] assms(2)
    by (auto simp: submit_form_def Let_def split: sum.split option.split prod.split bool.split)
  ultimately show ?thesis by (simp add: submitBuild_def)
qed

lemma listBuilds_answered:
  assumes "env_typed e" "typed s"
  shows "answered (listBuilds e l o' s)"
proof -
  obtain x s1 where 1: "on_db (List (list_sort e) (add_int (page_offset o') (page_limit l))) s = (x, s1)" by fastforce
  obtain y s2 where 2: "on_db CountAll s1 = (y, s2)" by fastforce
  have s: "typed s1" "typed s2" using read_typed [OF assms(2) reads_builds(2) 1] read_typed [OF _ reads_builds(3) 2] by blast+
  have "\<forall>b \<in> set (page_slice n m bs). build_typed b" if "x = Ret bs" for bs n m
    using list_builds_typed [OF assms(2), of list_key "list_sort e"] assms(1) 1 that
    by (auto simp: env_typed_def page_slice_def Let_def dest!: in_set_takeD in_set_dropD split: if_splits)
  then show ?thesis using 1 2 s by (auto simp: listBuilds_def Let_def split: outcome.split)
qed

lemma build_handlers_answered:
  assumes "env_typed e" "typed s"
  shows "answered (getNextBuild e w s)" "answered (getBuild i s)" "answered (getBuildLogs i stream s)"
    "answered (appendLog e i line s)" "answered (cancelBuild e i s)" "answered (workerHeartbeat e wo s)"
proof -
  show "answered (getNextBuild e w s)" using assign_typed [OF assms(1,2)] assms(2)
    by (fastforce simp: getNextBuild_def split: prod.split outcome.split option.split)
  show "answered (getBuild i s)" "answered (getBuildLogs i stream s)" using get_typed [OF assms(2)]
    by (auto simp: getBuild_def getBuildLogs_def split: prod.split outcome.split)
  show "answered (appendLog e i line s)" using log_typed [OF assms]
    by (auto simp: appendLog_def split: prod.split outcome.split option.split)
  show "answered (cancelBuild e i s)" using cancel_typed [OF assms] by (auto simp: cancelBuild_def split: prod.split outcome.split)
  show "answered (workerHeartbeat e wo s)" using beat_typed [OF assms] assms(2)
    by (auto simp: workerHeartbeat_def split: option.split prod.split outcome.split)
qed

lemma completeBuild_answered:
  assumes "env_typed e" "typed s"
  shows "answered (Api.completeBuild e i q s)"
proof (cases q)
  case (Some q')
  obtain x s1 where c: "call (CompleteBuild (pers e) (node_sort e) (clock e 0) i (qStatus q') (qError q')) s = (x, s1)" by fastforce
  have "typed s1" using complete_typed [OF assms c] by blast
  moreover from this have "typed (snd (on_db (SetCacheRate i (qCacheHitRate q')) s1))" using rate_typed by (metis prod.collapse)
  ultimately show ?thesis using Some c by (cases x) (auto simp: Api.completeBuild_def Let_def)
qed (use assms(2) in \<open>simp add: Api.completeBuild_def\<close>)

lemma admin_answered:
  assumes "typed s"
  shows "answered (adminHealth e s)" "answered (metricsHandler e s)" "answered (manualGC e s)"
proof -
  obtain x s1 where 1: "count_or_0 CountPending s = (x, s1)" by fastforce
  obtain y s2 where 2: "count_or_0 (CountActive (clock e 0) (30 * second)) s1 = (y, s2)" by fastforce
  have "typed s2" by (rule count_typed [OF count_typed [OF assms reads_builds(4) 1] reads_builds(5) 2])
  then show "answered (adminHealth e s)" "answered (metricsHandler e s)" using 1 2 by (simp_all add: adminHealth_def metricsHandler_def)
  show "answered (manualGC e s)" using db_typed [OF assms rows_typed_statements(7)]
    by (auto simp: manualGC_def split: prod.split outcome.split)
qed

lemma tick_typed:
  assumes "env_typed e" "typed s"
  shows "typed (maintenance_tick e k s)"
proof (cases k)
  case WorkerTick
  obtain x s1 where 1: "call (PruneStale (clock e 0) (30 * second)) s = (x, s1)" by fastforce
  obtain y s2 where 2: "call (ReassignStaleBuilds (clock e 1) (60 * second) (600 * second)) s1 = (y, s2)" by fastforce
  show ?thesis using reassign_typed [OF assms(1) _ 2] prune_typed [OF assms 1] WorkerTick 1 2 by (simp add: maintenance_tick_def)
next
  case GcTick
  then show ?thesis using collect_typed [OF assms] by (cases "call (GCCompleted (zone e) (clock e 0 - 86400 * second)) s") (auto simp: maintenance_tick_def)
qed

lemma handle_answered:
  assumes "env_typed e" "typed s"
  shows "answered (handle e x s)"
proof (cases x)
  case (OpBlob path)
  then show ?thesis using assms(2) by (simp split: prod.split)
qed (use assms submitBuild_answered [OF assms] listBuilds_answered [OF assms] build_handlers_answered [OF assms]
    completeBuild_answered [OF assms] admin_answered [OF assms(2)] tick_typed [OF assms] in \<open>simp_all add: on_broker_def split: option.split\<close>)

lemma history_typed: "\<forall>(e, x) \<in> set xs. env_typed e \<Longrightarrow> typed s \<Longrightarrow> typed (history xs s)"
proof (induction xs s rule: history.induct)
  case (2 e x xs s)
  then show ?case using handle_answered [of e s x] by (auto simp: answered_def)
qed simp

lemma start_typed:
  assumes "env_typed e" "rows_typed d" "NewServer e (Some d) (Some b) = Some s"
  shows "typed s"
proof -
  let ?s = "\<lparr>core = \<lparr>store = d, que = New 10000, sched = New_scheduler\<rparr>, blobs = b, broker = newLogBroker, BuildsTotal = 0\<rparr>"
  have "typed ?s" using assms(2) by (simp add: sys_typed_def)
  then show ?thesis using warm_typed [OF assms(1), of ?s] assms(3) by (cases "call (WarmQueue (pers e)) ?s") (auto simp: NewServer_def)
qed

subsection \<open>Properties\<close>

text \<open>(C5) Only well-formed builds are stored, queued and sent out, whatever the clients ask for. A server
  that starts on an empty database and handles any requests and maintenance ticks, one after the
  other and with any database faults, stores only builds with an identifier, a fingerprint of 64
  lower-case hexadecimal digits, a timeout of one second to one hour, priority 0 and no retries;
  the queue holds no others, and the next response, to whatever request, carries no others. (Of the
  environment: generated identifiers are not empty, and sorting sorts.)\<close>

theorem api_types:
  assumes "env_typed e\<^sub>0" "NewServer e\<^sub>0 (Some (empty_db\<lparr>faults := fs\<rparr>)) (Some b) = Some s"
    and "\<forall>(e, x) \<in> set xs. env_typed e" "env_typed e"
  defines "s' \<equiv> history xs s"
  shows "(\<forall>r \<in> set (builds (store (core s'))). c_id r \<noteq> [] \<and> length (c_fingerprint r) = 64 \<and> (\<forall>c \<in> set (c_fingerprint r). is_hex_char c) \<and>
      1 \<le> c_timeout_seconds r \<and> c_timeout_seconds r \<le> 3600 \<and> c_priority r = 0 \<and> c_retry_count r = 0 \<and> c_max_retries r = 0) \<and>
    (\<forall>b \<in># queued (que (core s')). build_typed b) \<and> (\<forall>x. body_typed (rbody (fst (handle e x s'))))"
proof -
  have "rows_typed (empty_db\<lparr>faults := fs\<rparr>)" by (simp add: rows_typed_def empty_db_def)
  then have s': "typed s'" unfolding s'_def by (intro history_typed assms start_typed [OF assms(1) _ assms(2)])
  then have "body_typed (rbody (fst (handle e x s')))" for x using handle_answered [OF assms(4)] by (simp add: answered_def)
  then show ?thesis using s' unfolding sys_typed_def rows_typed_def scan_row_typed by blast
qed

text \<open>A submission that asks for a negative time limit, on a server started on an empty database.\<close>

definition hasty_history :: "(fs env \<times> api_op) list" where
  "hasty_history = [(local_env, OpSubmit ''application/json'' [] (Inr (sample_req\<lparr>qTimeoutSeconds := -5\<rparr>)) (Inl []))]"

theorem api_types_witness:
  "\<exists>s. NewServer local_env (Some (empty_db\<lparr>faults := []\<rparr>)) (Some []) = Some s \<and>
     (\<forall>r \<in> set (builds (store (core (history hasty_history s)))). 1 \<le> c_timeout_seconds r)"
proof -
  have "sorter list_key (list_sort local_env)" "uuid local_env \<noteq> []" by (simp_all add: local_env_def sorter_def)
  then have e: "env_typed local_env" using local_env_ok by (simp add: env_typed_def)
  obtain s where s: "NewServer local_env (Some (empty_db\<lparr>faults := []\<rparr>)) (Some []) = Some s" by (simp add: NewServer_def)
  have "\<forall>(e, x) \<in> set hasty_history. env_typed e" using e by (simp add: hasty_history_def)
  then show ?thesis using api_types [OF e s _ e] s by blast
qed

end
