(* ===== verification/Cluster.thy ===== *)
theory Cluster
  imports Server_Types Worker
begin

text \<open>
  A worker and its server. The network of \<open>Worker\<close> becomes the handlers of \<open>Api\<close>: each request
  of the worker goes to the handler of its route, between two requests the server handles
  any others, and a request or its answer may be lost. A response reaches the worker as the
  value that was encoded.
\<close>

subsection \<open>Routes\<close>

text \<open>The worker writes identifiers into its URLs as they are. The characters that a URL leaves alone
  stand for themselves there; any other one (a slash, a question mark, a percent sign) can take
  the request to another route, to another identifier or to none.\<close>

definition unreserved :: "char \<Rightarrow> bool" where
  "unreserved c \<longleftrightarrow> c \<in> {CHR ''-'', CHR ''.'', CHR ''_'', CHR ''~''} \<or>
     (of_char c :: nat) \<in> {48..57} \<union> {65..90} \<union> {97..122}"

definition url_plain :: "string \<Rightarrow> bool" where
  "url_plain s \<longleftrightarrow> list_all unreserved s"

definition segment :: "string \<Rightarrow> bool" where
  "segment s \<longleftrightarrow> s \<noteq> [] \<and> url_plain s"

text \<open>The handler that the router finds for a request, where its path means what it says. The fixed
  route \<open>/builds/next\<close> precedes the one of the build \<open>next\<close>.\<close>

fun op_of :: "http_req \<Rightarrow> api_op option" where
  "op_of (GetNext w) = (if url_plain w then Some (OpNext w) else None)"
| "op_of (GetBuild i) = (if segment i then Some (if i = ''next'' then OpNext [] else OpGet i) else None)"
| "op_of (GetBlob path) = (if list_all (\<lambda>c. unreserved c \<or> c = sep) path then Some (OpBlob path) else None)"
| "op_of (PostLog i line) = (if segment i then Some (OpLog i line) else None)"
| "op_of (PostComplete i st err rate) =
     (if segment i then Some (OpComplete i (Some \<lparr>qStatus = st, qError = err, qCacheHitRate = rate\<rparr>)) else None)"
| "op_of (PostHeartbeat w) = Some (OpBeat (Some w))"

subsection \<open>The network\<close>

definition resp_of :: "http_response \<Rightarrow> http_resp" where
  "resp_of h = \<lparr>code = rstatus h, jbuild = (case rbody h of BuildJson b \<Rightarrow> Some b | _ \<Rightarrow> None),
     payload = (case rbody h of PlainText t \<Rightarrow> t | _ \<Rightarrow> [])\<rparr>"

datatype delivery = Delivered | RequestLost | AnswerLost

text \<open>What surrounds the \<open>n\<close>-th request of the worker: the requests that the server handles
  before it, its fate, the environment of its handler, and what becomes of a request that has no
  plain path.\<close>

record 'b link =
  before :: "nat \<Rightarrow> ('b env \<times> api_op) list"
  fate :: "nat \<Rightarrow> delivery"
  surroundings :: "nat \<Rightarrow> 'b env"
  astray :: "nat \<Rightarrow> http_req \<Rightarrow> 'b server \<Rightarrow> http_response \<times> 'b server"

definition arrive :: "'b link \<Rightarrow> nat \<Rightarrow> http_req \<Rightarrow> 'b server \<Rightarrow> http_response \<times> 'b server" where
  "arrive k n r s =
     (let s' = history (before k n) s in
      case op_of r of Some x \<Rightarrow> handle (surroundings k n) x s' | None \<Rightarrow> astray k n r s')"

fun served :: "'b link \<Rightarrow> nat \<Rightarrow> 'b server \<Rightarrow> http_req list \<Rightarrow> 'b server" where
  "served k n s [] = s"
| "served k n s (r # rs) =
     served k (Suc n) (if fate k n = RequestLost then history (before k n) s else snd (arrive k n r s)) rs"

definition server_net :: "'b link \<Rightarrow> 'b server \<Rightarrow> net" where
  "server_net k s hs r =
     (if fate k (length hs) = Delivered then Some (resp_of (fst (arrive k (length hs) r (served k 0 s hs)))) else None)"

lemma served_append: "served k n s (xs @ ys) = served k (n + length xs) (served k n s xs) ys"
  by (induction xs arbitrary: n s) simp_all

subsection \<open>Stored builds are kept\<close>

definition db_kept :: "database \<Rightarrow> database \<Rightarrow> bool" where
  "db_kept d d' \<longleftrightarrow> db_evolves d d' \<and> (ids_ok d \<longrightarrow> ids_ok d') \<and> (faults d = [] \<longrightarrow> faults d' = [])"

abbreviation rows_kept :: "'b server \<Rightarrow> 'b server \<Rightarrow> bool" where
  "rows_kept s s' \<equiv> db_kept (store (core s)) (store (core s'))"

lemma db_kept_refl [simp]: "db_kept d d"
  by (simp add: db_kept_def)

lemma db_kept_trans: "db_kept a b \<Longrightarrow> db_kept b c \<Longrightarrow> db_kept a c"
  by (auto simp: db_kept_def intro: db_evolves_trans)

text \<open>Requests that delete nothing and report no status but a final one, \<open>building\<close> or the empty one.\<close>

fun no_delete :: "api_op \<Rightarrow> bool" where
  "no_delete OpCleanup \<longleftrightarrow> False"
| "no_delete (OpTick k) \<longleftrightarrow> k \<noteq> GcTick"
| "no_delete (OpComplete i q) \<longleftrightarrow> (case q of None \<Rightarrow> True | Some r \<Rightarrow> legal_status (qStatus r))"
| "no_delete _ \<longleftrightarrow> True"

lemma run_stmt_quiet [frame]:
  "faults d = [] \<Longrightarrow> (\<And>d. faults (snd (f d)) = faults d) \<Longrightarrow> faults (snd (run_stmt f d)) = []"
  by (simp add: run_stmt_sound)

lemma update_quiet: "faults d = [] \<Longrightarrow> faults (snd (update_stmt p g d)) = []"
  unfolding update_stmt_def by (rule run_stmt_quiet) simp_all

lemma statements_quiet:
  assumes "faults d = []"
  shows "faults (snd (UpdateStatus t i st w l e d)) = []" "faults (snd (snd (Create t b d))) = []"
    "faults (snd (Get i d)) = []" "faults (snd (ListPending rsort d)) = []" "faults (snd (List srt n d)) = []"
    "faults (snd (snd (Upsert t x d))) = []" "faults (snd (MarkOffline t age d)) = []"
    "faults (snd (SetCacheRate i y d)) = []"
  using assms
  by (auto simp: UpdateStatus_snd update_stmt_def Create_def insertBuild_def Get_def ListPending_eq List_eq query_def Upsert_def
      MarkOffline_def SetCacheRate_def Let_def run_stmt_sound split: prod.split outcome.split)

lemma counts_quiet:
  assumes "faults d = []"
  shows "faults (snd (CountAll d)) = []" "faults (snd (CountPending d)) = []" "faults (snd (CountActive t a d)) = []"
  using assms by (simp_all add: CountAll_def CountPending_def CountActive_def count_where_def query_def Let_def run_stmt_sound)

lemma reassign_quiet: "faults d = [] \<Longrightarrow> faults (snd (ReassignStale t wt bt d)) = []"
  by (rule ReassignStale_inv) (simp_all add: update_quiet)

definition quiet_step :: "database sys \<Rightarrow> database sys \<Rightarrow> bool" where
  "quiet_step s s' \<longleftrightarrow> (faults (store s) = [] \<longrightarrow> faults (store s') = [])"

lemma quiet_step_preorder: "reflp quiet_step" "transp quiet_step"
  by (auto simp: quiet_step_def reflp_def transp_def)

sublocale service_env \<subseteq> quiet: guarded_db rsort sortf quiet_step legal_status
  by unfold_locales
    (auto simp: quiet_step_def create_step_def update_step_def peek_step_def on_store_store on_que_store on_sched_store
       snd_reassoc statements_quiet repo_persister_def)

context service_env
begin

lemma serve_quiet:
  assumes "reports legal_status q" and "\<not> deletes q"
  shows "all_steps quiet_step (serve U rsort sortf q)"
  by (rule quiet.g_serve [OF assms(1)]) (use assms(2) in \<open>simp_all add: quiet_step_def on_store_store reassign_quiet\<close>)

end

lemma serve_kept:
  assumes "env_ok e" "reports legal_status q" "\<not> deletes q" "serve (caseU e) (row_sort e) (node_sort e) q = map_prog g p"
  shows "rows_kept s (snd (call p s))"
proof -
  have env: "service_env (row_sort e) (node_sort e)" using assms(1) by (simp add: env_ok_def)
  have "safe_step (core s) (snd (run (serve (caseU e) (row_sort e) (node_sort e) q) (core s)))"
    by (rule run_respects [OF safe_step_preorder service_env.serve_safe [OF env assms(2,3)]])
  moreover have "quiet_step (core s) (snd (run (serve (caseU e) (row_sort e) (node_sort e) q) (core s)))"
    by (rule run_respects [OF quiet_step_preorder service_env.serve_quiet [OF env assms(2,3)]])
  ultimately show ?thesis using call_snd [of p s] run_map_snd [of g p "core s"] assms(4)
    by (simp add: safe_step_def quiet_step_def db_kept_def)
qed

lemmas submit_kept = serve_kept [of _ "Submit u ts bid ctx df tag us tmo args" for u ts bid ctx df tag us tmo args,
    simplified, OF _ refl]
  and assign_kept = serve_kept [of _ "Assign t w" for t w, simplified, OF _ refl]
  and complete_kept = serve_kept [of _ "Complete t i st er" for t i st er, simplified, OF _ _ refl]
  and cancel_kept = serve_kept [of _ "Cancel t i" for t i, simplified, OF _ refl]
  and log_kept = serve_kept [of _ "Log t i l" for t i l, simplified, OF _ refl]
  and beat_kept = serve_kept [of _ "Beat t w" for t w, simplified, OF _ refl]
  and prune_kept = serve_kept [of _ "Prune t a" for t a, simplified, OF _ refl]
  and reassign_kept = serve_kept [of _ "Reassign t a b" for t a b, simplified, OF _ refl]

lemma read_kept:
  "(\<And>d. builds (snd (f d)) = builds d) \<Longrightarrow> (\<And>d. workers (snd (f d)) = workers d) \<Longrightarrow>
   (\<And>d. faults d = [] \<Longrightarrow> faults (snd (f d)) = []) \<Longrightarrow> rows_kept s (snd (on_db f s))"
  by (simp add: on_db_snd db_kept_def db_evolves_same ids_ok_def)

lemma reads_kept:
  "rows_kept s (snd (on_db (Get i) s))" "rows_kept s (snd (on_db (List srt n) s))" "rows_kept s (snd (on_db CountAll s))"
  by (rule read_kept; simp add: reads_builds statements_quiet counts_quiet)+

lemma count_kept:
  assumes "\<And>d. builds (snd (f d)) = builds d" "\<And>d. workers (snd (f d)) = workers d"
    and "\<And>d. faults d = [] \<Longrightarrow> faults (snd (f d)) = []" "count_or_0 f s = (x, s')"
  shows "rows_kept s s'"
  using read_kept [of f s, OF assms(1-3)] assms(4) by (cases "on_db f s") (auto simp: count_or_0_def split: outcome.splits)

lemma rate_kept: "rows_kept s (snd (on_db (SetCacheRate i x) s))"
  by (simp add: on_db_snd db_kept_def SetCacheRate_evolves SetCacheRate_ids statements_quiet)

lemma submitted_kept:
  assumes "env_ok e" "call (SubmitBuild (pers e) (caseU e) u ts bid ctx df tag us tmo args) (s\<lparr>blobs := b\<rparr>) = (res, s')"
  shows "rows_kept s s'"
  using submit_kept [OF assms(1), of "s\<lparr>blobs := b\<rparr>" u ts bid ctx df tag us tmo args] assms(2) by simp

lemma submitBuild_kept:
  assumes "env_ok e"
  shows "rows_kept s (snd (submitBuild e ct key j f s))"
proof -
  have "rows_kept s (snd (submit_json e key j s))"
    using submitted_kept [OF assms, where s = s and b = "blobs s"] by (auto simp: submit_json_def split: sum.split prod.split)
  moreover have "rows_kept s (snd (submit_form e key f s))"
    using submitted_kept [OF assms] by (auto simp: submit_form_def Let_def split: sum.split option.split prod.split bool.split)
  ultimately show ?thesis by (simp add: submitBuild_def)
qed

lemma listBuilds_kept: "rows_kept s (snd (listBuilds e l o' s))"
proof -
  obtain x s1 where 1: "on_db (List (list_sort e) (add_int (page_offset o') (page_limit l))) s = (x, s1)" by fastforce
  obtain y s2 where 2: "on_db CountAll s1 = (y, s2)" by fastforce
  have "rows_kept s s1" "rows_kept s1 s2" using reads_kept(2) [of s] reads_kept(3) [of s1] 1 2 by (metis snd_conv)+
  then show ?thesis using 1 2 db_kept_trans by (auto simp: listBuilds_def Let_def split: outcome.split)
qed

lemma completeBuild_kept:
  assumes "env_ok e" "no_delete (OpComplete i q)"
  shows "rows_kept s (snd (Api.completeBuild e i q s))"
proof (cases q)
  case (Some q')
  obtain x s1 where c: "call (CompleteBuild (pers e) (node_sort e) (clock e 0) i (qStatus q') (qError q')) s = (x, s1)"
    by fastforce
  have "rows_kept s s1" using complete_kept [OF assms(1), of "qStatus q'" s "clock e 0" i "qError q'"] assms(2) Some c by simp
  moreover from this have "rows_kept s (snd (on_db (SetCacheRate i (qCacheHitRate q')) s1))" using rate_kept db_kept_trans by blast
  ultimately show ?thesis using Some c by (cases x) (auto simp: Api.completeBuild_def Let_def)
qed (simp add: Api.completeBuild_def)

lemma tick_kept: "env_ok e \<Longrightarrow> rows_kept s (maintenance_tick e WorkerTick s)"
  unfolding maintenance_tick_def Let_def tick.case by (rule db_kept_trans [OF prune_kept reassign_kept])

lemma admin_kept: "rows_kept s (snd (adminHealth e s))" "rows_kept s (snd (metricsHandler e s))"
proof -
  obtain x s1 where 1: "count_or_0 CountPending s = (x, s1)" by fastforce
  obtain y s2 where 2: "count_or_0 (CountActive (clock e 0) (30 * second)) s1 = (y, s2)" by fastforce
  have "rows_kept s s2" using db_kept_trans [OF count_kept [OF reads_builds(4,9) counts_quiet(2) 1] count_kept [OF reads_builds(5,10) counts_quiet(3) 2]] .
  then show "rows_kept s (snd (adminHealth e s))" "rows_kept s (snd (metricsHandler e s))"
    using 1 2 by (simp_all add: adminHealth_def metricsHandler_def)
qed

lemma handle_kept:
  assumes "env_ok e" "no_delete x"
  shows "rows_kept s (snd (handle e x s))"
proof (cases x)
  case (OpNext w)
  then show ?thesis using assign_kept [OF assms(1), of s "clock e 0" w]
    by (auto simp: getNextBuild_def split: prod.split outcome.split option.split)
next
  case (OpGet i)
  then show ?thesis using reads_kept(1) [of s i]
    by (auto simp: getBuild_def split: prod.split outcome.split)
next
  case (OpLogs i st)
  then show ?thesis using reads_kept(1) [of s i]
    by (auto simp: getBuildLogs_def split: prod.split outcome.split)
next
  case (OpLog i l)
  then show ?thesis using log_kept [OF assms(1), of s "clock e 0" i l]
    by (auto simp: appendLog_def split: prod.split outcome.split option.split)
next
  case (OpCancel i)
  then show ?thesis using cancel_kept [OF assms(1), of s "clock e 0" i]
    by (auto simp: cancelBuild_def split: prod.split outcome.split)
next
  case (OpBeat w)
  then show ?thesis using beat_kept [OF assms(1), of s "clock e 0" "the w"]
    by (cases w) (auto simp: workerHeartbeat_def split: prod.split outcome.split)
next
  case (OpComplete i q)
  then show ?thesis using completeBuild_kept assms by simp
next
  case (OpTick k)
  then show ?thesis using tick_kept [OF assms(1)] assms(2) by (cases k) auto
qed (use assms submitBuild_kept listBuilds_kept admin_kept in \<open>auto simp: on_broker_def split: prod.split option.split\<close>)

text \<open>A link whose other requests delete nothing.\<close>

definition link_ok :: "'b link \<Rightarrow> bool" where
  "link_ok k \<longleftrightarrow> (\<forall>n. env_typed (surroundings k n) \<and> (\<forall>(e, x) \<in> set (before k n). env_typed e \<and> no_delete x))"

lemma env_typed_ok [simp]: "env_typed e \<Longrightarrow> env_ok e"
  by (simp add: env_typed_def)

lemma history_kept: "\<forall>(e, x) \<in> set xs. env_typed e \<and> no_delete x \<Longrightarrow> rows_kept s (history xs s)"
proof (induction xs s rule: history.induct)
  case (2 e x xs s)
  then show ?case using handle_kept [of e x s] by (auto intro: db_kept_trans)
qed simp

lemma before_kept: "link_ok k \<Longrightarrow> rows_kept s (history (before k n) s)"
  by (rule history_kept) (simp add: link_ok_def)

text \<open>A request that finds its route and deletes nothing.\<close>

definition keeping :: "http_req \<Rightarrow> bool" where
  "keeping r \<longleftrightarrow> (case op_of r of None \<Rightarrow> False | Some x \<Rightarrow> no_delete x)"

lemma arrive_kept:
  assumes "link_ok k" "keeping r"
  shows "rows_kept s (snd (arrive k n r s))"
proof -
  obtain x where x: "op_of r = Some x" "no_delete x" using assms(2) by (auto simp: keeping_def split: option.splits)
  then show ?thesis
    using handle_kept [OF _ x(2), of "surroundings k n" "history (before k n) s"] before_kept [OF assms(1), of s n] assms(1)
    by (auto simp: arrive_def link_ok_def intro: db_kept_trans)
qed

lemma served_kept: "link_ok k \<Longrightarrow> \<forall>r \<in> set rs. keeping r \<Longrightarrow> rows_kept s (served k n s rs)"
proof (induction rs arbitrary: n s)
  case (Cons r rs)
  define s1 where "s1 = (if fate k n = RequestLost then history (before k n) s else snd (arrive k n r s))"
  have "rows_kept s s1" unfolding s1_def using arrive_kept [OF Cons.prems(1), of r s n] before_kept [OF Cons.prems(1), of s n] Cons.prems(2)
    by (cases "fate k n = RequestLost") simp_all
  moreover have "rows_kept s1 (served k (Suc n) s1 rs)" by (rule Cons.IH) (use Cons.prems in simp_all)
  ultimately show ?case unfolding served.simps s1_def [symmetric] by (rule db_kept_trans)
qed simp

subsection \<open>Acknowledged reports\<close>

definition stored :: "'b server \<Rightarrow> string \<Rightarrow> bool" where
  "stored s i \<longleftrightarrow> row_of (store (core s)) i \<noteq> None"

definition final :: "'b server \<Rightarrow> string \<Rightarrow> bool" where
  "final s i \<longleftrightarrow> (\<exists>r. row_of (store (core s)) i = Some r \<and> IsTerminal (c_status r))"

lemma stored_kept: "stored s i \<Longrightarrow> rows_kept s s' \<Longrightarrow> stored s' i"
  by (auto simp: stored_def db_kept_def db_evolves_def)

lemma final_kept: "final s i \<Longrightarrow> rows_kept s s' \<Longrightarrow> final s' i"
  unfolding final_def db_kept_def db_evolves_def evolves_def verdict_def by (metis fst_conv)

lemma complete_acked:
  assumes "run (CompleteBuild (repo_persister rsort) sortf t i st e) c = (Ret u, c')"
  shows "\<exists>d. UpdateStatus t i st [] [] e (store c) = (Ret (), d) \<and> builds (store c') = builds d"
proof -
  obtain x d where u: "UpdateStatus t i st [] [] e (store c) = (x, d)" by fastforce
  obtain y d' where g: "Get i d = (y, d')" by fastforce
  have "builds d' = builds d" using reads_builds(1) [of i d] g by simp
  then show ?thesis using assms u g
    by (cases x; cases y) (auto simp: CompleteBuild_def update_step_def on_store_def on_sched_def split: if_splits)
qed

lemma report_acked:
  assumes "stored s i" "IsTerminal st" "Api.completeBuild e i (Some \<lparr>qStatus = st, qError = err, qCacheHitRate = rate\<rparr>) s = (h, s')" "rstatus h = 200"
  shows "final s' i"
proof -
  obtain x s1 where c: "call (CompleteBuild (pers e) (node_sort e) (clock e 0) i st err) s = (x, s1)" by fastforce
  then obtain u where u: "x = Ret u" using assms(3,4) by (cases x) (auto simp: Api.completeBuild_def reply_def recovered_def)
  have "run (CompleteBuild (pers e) (node_sort e) (clock e 0) i st err) (core s) = (Ret u, core s1)"
    using c u by (auto simp: call_def split: prod.splits)
  then obtain d where d: "UpdateStatus (clock e 0) i st [] [] err (store (core s)) = (Ret (), d)" "builds (store (core s1)) = builds d"
    using complete_acked by blast
  obtain r where r: "row_of (store (core s)) i = Some r" "c_id r = i" using assms(1) row_of_id by (fastforce simp: stored_def)
  have "row_of (store (core s1)) i = Some (if \<not> IsTerminal (c_status r) then update_set (secs (clock e 0)) st [] [] err r else r)"
    using UpdateStatus_row [OF d(1), of i] r row_of_builds [OF d(2)] assms(2) by (simp add: update_cond_def)
  then have "final s1 i" using assms(2) by (simp add: final_def update_set_def)
  moreover have "rows_kept s1 s'"
    using assms(3) c u rate_kept [of s1 i rate] by (auto simp: Api.completeBuild_def Let_def split: if_splits)
  ultimately show ?thesis by (rule final_kept)
qed

lemma concerns_keeping: "segment i \<Longrightarrow> concerns i r \<Longrightarrow> keeping r"
  by (cases r) (auto simp: keeping_def segment_def url_plain_def unreserved_def list_all_iff)

lemma net_status:
  "map_option code (server_net k s hs r) = Some n \<longleftrightarrow>
     fate k (length hs) = Delivered \<and> rstatus (fst (arrive k (length hs) r (served k 0 s hs))) = n"
  by (auto simp: server_net_def resp_of_def)

lemma served_last:
  "fate k (length hs) = Delivered \<Longrightarrow> served k 0 s (hs @ [r]) = snd (arrive k (length hs) r (served k 0 s hs))"
  by (simp add: served_append)

lemma acked_final:
  assumes "link_ok k" "stored (served k 0 s hs) i" "IsTerminal st" "segment i"
    and "map_option code (server_net k s hs (PostComplete i st err rate)) = Some 200"
  shows "final (served k 0 s (hs @ [PostComplete i st err rate])) i"
proof -
  let ?n = "length hs" and ?s = "served k 0 s hs"
  note net = assms(5) [unfolded net_status]
  have st: "stored (history (before k ?n) ?s) i" by (rule stored_kept [OF assms(2) before_kept [OF assms(1)]])
  obtain h s' where a: "arrive k ?n (PostComplete i st err rate) ?s = (h, s')" by fastforce
  then have "final (snd (arrive k ?n (PostComplete i st err rate) ?s)) i"
    using report_acked [OF st assms(3), of "surroundings k ?n" err rate h s'] net assms(4) by (simp add: arrive_def)
  then show ?thesis using served_last [of k hs s] net by metis
qed

text \<open>A build that was handed out is stored and well-formed.\<close>

lemma handed_out:
  assumes "url_plain w" "server_net k s [] (GetNext w) = Some resp" "code resp = 200" "jbuild resp = Some b"
  obtains h s1 where "getNextBuild (surroundings k 0) w (history (before k 0) s) = (h, s1)" "rstatus h = 200" "rbody h = BuildJson b"
    "served k 0 s [GetNext w] = s1"
  using assms by (cases "getNextBuild (surroundings k 0) w (history (before k 0) s)")
    (auto simp: server_net_def resp_of_def arrive_def split: if_splits body.splits)

lemma assigned_stored:
  assumes "link_ok k" "ids_ok (store (core s))" "url_plain w" "server_net k s [] (GetNext w) = Some resp" "code resp = 200" "jbuild resp = Some b"
  shows "stored (served k 0 s [GetNext w]) (ID b)"
proof -
  let ?s = "history (before k 0) s" and ?e = "surroundings k 0"
  obtain h s1 where h: "getNextBuild ?e w ?s = (h, s1)" "rstatus h = 200" "rbody h = BuildJson b" "served k 0 s [GetNext w] = s1"
    using handed_out [OF assms(3-6)] .
  have ids: "ids_ok (store (core ?s))" using before_kept [OF assms(1), of s 0] assms(2) by (simp add: db_kept_def)
  have "call (AssignBuild_svc (pers ?e) (clock ?e 0) w) ?s = (Ret (Some b), s1)"
    using h(1-3) by (auto simp: getNextBuild_def reply_def http_error_def recovered_def split: if_splits prod.splits outcome.splits option.splits)
  then have run: "run (AssignBuild_svc (pers ?e) (clock ?e 0) w) (core ?s) = (Ret (Some b), core s1)"
    by (auto simp: call_def split: prod.splits)
  have "pending_sorter (row_sort ?e)" using assms(1) by (auto simp: link_ok_def env_typed_def env_ok_def service_env_def)
  then have "db_view (store (core s1)) (ID b) = Some StatusBuilding"
    using build_persister.assign_run [OF pending_sorter.repo_contract ids run] by simp
  then show ?thesis using h(4) by (auto simp: stored_def db_view_def)
qed

lemma assigned_typed:
  assumes "link_ok k" "typed s" "url_plain w" "server_net k s [] (GetNext w) = Some resp" "code resp = 200" "jbuild resp = Some b"
  shows "build_typed b"
proof -
  let ?s = "history (before k 0) s" and ?e = "surroundings k 0"
  obtain h s1 where h: "getNextBuild ?e w ?s = (h, s1)" "rbody h = BuildJson b" using handed_out [OF assms(3-6)] by metis
  have e: "env_typed ?e" and b: "\<forall>(e, x) \<in> set (before k 0). env_typed e" using assms(1) by (auto simp: link_ok_def)
  have "answered (getNextBuild ?e w ?s)" by (rule build_handlers_answered(1) [OF e history_typed [OF b assms(2)]])
  then show ?thesis using h by simp
qed

lemma reports_settle:
  assumes "link_ok k" "stored (served k 0 s hs) i" "IsTerminal st" "segment i" "m < n"
    and "map_option code (server_net k s (hs @ replicate m (PostComplete i st err rate)) (PostComplete i st err rate)) = Some 200"
  shows "final (served k 0 s (hs @ replicate n (PostComplete i st err rate))) i"
proof -
  let ?C = "PostComplete i st err rate"
  let ?hs = "hs @ replicate m ?C"
  have nd: "keeping r" if "r \<in> set (replicate j ?C)" for r j using that assms(3,4) by (auto simp: keeping_def legal_status_def split: if_splits)
  have "stored (served k 0 s ?hs) i"
    unfolding served_append by (rule stored_kept [OF assms(2) served_kept [OF assms(1)]]) (use nd in blast)
  then have "final (served k 0 s (?hs @ [?C])) i" using acked_final [OF assms(1) _ assms(3,4,6)] by blast
  then have "final (served k 0 s ((?hs @ [?C]) @ replicate (n - Suc m) ?C)) i"
    unfolding served_append [of k 0 s "?hs @ [?C]"] by (rule final_kept [OF _ served_kept [OF assms(1)]]) (use nd in blast)
  moreover have "(?hs @ [?C]) @ replicate (n - Suc m) ?C = hs @ replicate n ?C"
    using assms(5) by (simp add: replicate_app_Cons_same flip: replicate_add replicate_Suc)
  ultimately show ?thesis by simp
qed

text \<open>A database that answers acknowledges the first report that arrives.\<close>

lemma report_answered:
  assumes "link_ok k" "db_kept (store (core s)) (store (core (served k 0 s hs)))" "ids_ok (store (core s))" "faults (store (core s)) = []"
    and "stored (served k 0 s hs) i" "IsTerminal st" "segment i" "fate k (length hs) = Delivered"
  shows "map_option code (server_net k s hs (PostComplete i st err rate)) = Some 200"
proof -
  let ?s = "history (before k (length hs)) (served k 0 s hs)"
  have kept: "rows_kept s ?s" using db_kept_trans [OF assms(2) before_kept [OF assms(1)]] .
  then have ok: "ids_ok (store (core ?s))" "faults (store (core ?s)) = []" using assms(3,4) by (auto simp: db_kept_def)
  obtain r where r: "row_of (store (core ?s)) i = Some r"
    using stored_kept [OF assms(5) before_kept [OF assms(1)]] by (auto simp: stored_def)
  have st: "st \<noteq> StatusBuilding" using assms(6) by auto
  let ?e = "surroundings k (length hs)"
  obtain c where "run (CompleteBuild (pers ?e) (node_sort ?e) (clock ?e 0) i st err) (core ?s) = (Ret (), c)"
    using CompleteBuild_sound [OF ok(2,1) st r] by metis
  then show ?thesis unfolding net_status using assms(7,8) by (simp add: arrive_def Api.completeBuild_def call_def reply_def Let_def)
qed

subsection \<open>Properties\<close>

text \<open>(C4) A build that is handed to a worker is settled. Whatever the worker meets (a failing
  download, a failing or hanging \<open>buildctl\<close>, a full disk), whichever requests or answers are lost
  and whichever statements fail, the attempt ends with the build in a final status in the database,
  unless none of three reports in a row was acknowledged; over a connection that loses nothing and
  with a database that answers, the build is final in any case. The conditions: the identifiers of
  the build and of the worker consist of characters that a URL leaves alone (letters, digits,
  \<open>-\<close>, \<open>.\<close>, \<open>_\<close>, \<open>~\<close>), since they are put into the paths as they are; and the requests
  of others that the server handles in the meantime, any number of them, delete no builds (no garbage
  collection by the clock or by hand) and report no status but a final one, \<open>building\<close> or the empty
  one. The server may be in any state that its requests lead to from a start with well-formed
  rows (\<open>start_typed\<close>, \<open>history_typed\<close>).\<close>

theorem build_settled:
  assumes "link_ok k" "ids_ok (store (core s))" "typed s" "network e = server_net k s" "reqs w = []"
    and "server_net k s [] (GetNext (wkID (wk w))) = Some resp" "code resp = 200" "jbuild resp = Some b"
    and "url_plain (wkID (wk w))" "segment (ID b)"
  shows "\<exists>w' hs n r. tryExecuteBuild e w = (True, w') \<and> reqs w' = hs @ replicate n r \<and> is_complete r \<and>
    (final (served k 0 s (reqs w')) (ID b) \<or>
      n = 3 \<and> (\<forall>m < 3. map_option code (server_net k s (hs @ replicate m r) r) \<noteq> Some 200)) \<and>
    ((\<forall>j. fate k j = Delivered) \<and> faults (store (core s)) = [] \<longrightarrow> final (served k 0 s (reqs w')) (ID b))"
proof -
  let ?q = "GetNext (wkID (wk w))"
  let ?w = "w\<lparr>reqs := [?q]\<rparr>"
  have b: "ID b \<noteq> []" "16 \<le> length (Fingerprint b)" using assigned_typed [OF assms(1,3,9,6-8)] by (simp_all add: build_typed_def)
  obtain w' where w': "run_assigned e b ?w = (True, w')" "reported (network e) (ID b) ?w w'"
    using run_assigned_reports [OF b(2), of e ?w] by auto
  have tried: "tryExecuteBuild e w = (True, w')" using assms(4-8) b(1) w'(1) by (simp add: tryExecuteBuild_def do_req_def)
  obtain rs st err rate n where rs: "reqs w' = (?q # rs) @ replicate n (PostComplete (ID b) st err rate)"
      "\<forall>r \<in> set rs. concerns (ID b) r" "st \<in> {StatusSucceeded, StatusFailed}" "1 \<le> n" "n \<le> 3"
    and ack: "n < 3 \<longrightarrow> map_option code (server_net k s ((?q # rs) @ replicate (n - 1) (PostComplete (ID b) st err rate))
         (PostComplete (ID b) st err rate)) = Some 200"
    using w'(2) assms(4) unfolding reported_def by auto
  let ?C = "PostComplete (ID b) st err rate" and ?hs = "?q # rs"
  have st: "IsTerminal st" using rs(3) by auto
  have "stored (served k 0 s [?q]) (ID b)" by (rule assigned_stored [OF assms(1,2,9,6-8)])
  moreover have "rows_kept (served k 0 s [?q]) (served k 0 s ?hs)"
    using served_append [of k 0 s "[?q]" rs] served_kept [OF assms(1), of rs "served k 0 s [?q]"] rs(2) concerns_keeping [OF assms(10)] by simp
  ultimately have stored: "stored (served k 0 s ?hs) (ID b)" by (rule stored_kept)
  have kept: "rows_kept s (served k 0 s ?hs)" by (rule served_kept [OF assms(1)]) (use rs(2) concerns_keeping [OF assms(10)] assms(9) in \<open>auto simp: keeping_def\<close>)
  have settle: "final (served k 0 s (reqs w')) (ID b)" if "m < n" "map_option code (server_net k s (?hs @ replicate m ?C) ?C) = Some 200" for m
    unfolding rs(1) by (rule reports_settle [OF assms(1) stored st assms(10) that])
  have "final (served k 0 s (reqs w')) (ID b) \<or> n = 3 \<and> (\<forall>m < 3. map_option code (server_net k s (?hs @ replicate m ?C) ?C) \<noteq> Some 200)"
    using settle ack rs(4,5) by (metis One_nat_def Suc_leD diff_less le_neq_implies_less less_Suc_eq_le less_numeral_extra(1) not_less)
  moreover have "final (served k 0 s (reqs w')) (ID b)" if "\<forall>j. fate k j = Delivered" "faults (store (core s)) = []"
    using settle [of 0] report_answered [OF assms(1) kept assms(2) that(2) stored st assms(10)] that(1) rs(4) by simp
  ultimately show ?thesis using tried rs(1) by (intro exI [of _ w'] exI [of _ ?hs] exI [of _ n] exI [of _ ?C]) simp
qed

definition busy_server :: "fs server" where
  "busy_server = sample_server\<lparr>core := \<lparr>store = empty_db\<lparr>builds := [new_row (sample\<lparr>Fingerprint := replicate 64 (CHR ''a'')\<rparr>)]\<rparr>,
     que = New 10, sched = New_scheduler\<rparr>\<rparr>"

definition plain_link :: "fs link" where
  "plain_link = \<lparr>before = (\<lambda>_. []), fate = (\<lambda>_. Delivered), surroundings = (\<lambda>_. local_env),
     astray = (\<lambda>_ _ s. (http_error 404 [], s))\<rparr>"

lemma busy_next:
  "map_option (\<lambda>r. (code r, map_option (\<lambda>b. (ID b, length (Fingerprint b))) (jbuild r))) (server_net plain_link busy_server [] (GetNext ''w1''))
     = Some (200, Some (''b1'', 64))"
  by code_simp

theorem build_settled_witness:
  "\<exists>w'. tryExecuteBuild (sample_wk_env\<lparr>network := server_net plain_link busy_server\<rparr>) sample_world = (True, w') \<and>
     final (served plain_link 0 busy_server (reqs w')) ''b1''"
proof -
  obtain resp b where r: "server_net plain_link busy_server [] (GetNext ''w1'') = Some resp" "code resp = 200" "jbuild resp = Some b"
    "ID b = ''b1''" "length (Fingerprint b) = 64"
    using busy_next by auto
  have "sorter list_key (list_sort local_env)" "uuid local_env \<noteq> []" by (simp_all add: local_env_def sorter_def)
  then have k: "link_ok plain_link" using local_env_ok by (simp add: link_ok_def plain_link_def env_typed_def)
  have d: "ids_ok (store (core busy_server))" "faults (store (core busy_server)) = []"
    by (simp_all add: busy_server_def ids_ok_def empty_db_def)
  have "build_typed (sample\<lparr>Fingerprint := replicate 64 (CHR ''a'')\<rparr>)"
    by (simp add: build_typed_def sample_def zero_build_def is_hex_char_def)
  then have ty: "typed busy_server" by (simp add: busy_server_def sys_typed_def rows_typed_def empty_db_def)
  have w: "reqs sample_world = []" "wkID (wk sample_world) = ''w1''" by (simp_all add: sample_world_def NewWorker_def)
  have f: "fate plain_link j = Delivered" for j by (simp add: plain_link_def)
  have u: "url_plain ''w1''" "segment ''b1''" by (simp_all add: segment_def url_plain_def unreserved_def)
  show ?thesis
    using build_settled [OF k d(1) ty, of "sample_wk_env\<lparr>network := server_net plain_link busy_server\<rparr>" sample_world resp b] r d(2) w f u
    by auto
qed

end
