(* ===== verification/Spec2Isabelle.thy ===== *)
theory Spec2Isabelle
  imports System Api Log_Broker Blob_Store Config Buildkit Worker Cli Upload Startup
    Timestamps Well_Formed Cluster
begin

text \<open>
  The build engine of dtbuildkit: the Go programs under \<open>src/server\<close>.

  \<^bold>\<open>The program.\<close> A server accepts builds over HTTP, stores them in PostgreSQL, keeps the pending
  ones in a bounded priority queue and hands them to workers that poll for work; a scheduler
  keeps the workers' cache keys and scores builds by them. Workers download the build context
  from a blob store, run \<open>buildctl\<close> on it, send log lines while it runs, and report the end.
  Log lines are stored and published to the clients that follow a build. A maintenance loop
  times out silent builds, requeues those of dead workers and deletes old ones. A
  command-line client packs a folder and submits it.

  \<^bold>\<open>Theories and sources\<close> (paths under \<open>src/server/internal\<close> unless given in full).

  \<^item> \<open>Prelude\<close>: the results \<open>outcome\<close> (\<open>Ret\<close>, \<open>Err\<close>, \<open>Panic\<close>) of fallible code, the collections of
    rules, shared facts. \<open>Interleaving\<close>: programs as trees of atomic steps, their run alone and
    all interleavings of several.
  \<^item> \<open>Go_Heap\<close>, \<open>Go_Sort\<close>, \<open>Go_Strings\<close>, \<open>Go_Parse\<close>, \<open>Go_Path\<close>, \<open>Go_Json\<close>, \<open>Go_Hash\<close>, \<open>Go_Float\<close>, \<open>Go_Time\<close>: what the
    code uses of the standard library (\<open>container/heap\<close>, \<open>sort.Search\<close>, \<open>strings\<close>, \<open>strconv\<close>, \<open>filepath\<close>,
    \<open>encoding/json\<close> for maps and lists of strings, SHA-256 and FNV, float64 arithmetic, the
    calendar and RFC 3339 timestamps).
  \<^item> \<open>Domain\<close>: \<open>domain/domain.go\<close>. \<open>Build_Queue\<close>: \<open>queue/queue.go\<close>; every run refines a bounded bag.
    \<open>Scheduler\<close>: \<open>scheduler/scheduler.go\<close>; the ring stays consistent, assignment is the first idle
    worker clockwise, scores are Jaccard similarities when nothing is repeated.
  \<^item> \<open>Repo\<close>: \<open>repo/repo.go\<close>, one definition per statement on the two tables. \<open>Timestamps\<close>: the
    statements that look at timestamps once more, on the texts of the columns, equal to those of
    \<open>Repo\<close> for the years 0 to 9999. \<open>Fingerprint\<close>, \<open>Validate\<close>: \<open>fingerprint/\<close> and \<open>validate/\<close>, with panics of slices.
  \<^item> \<open>Service\<close>: \<open>service/service.go\<close>; every method as a tree of atomic steps (one lock-protected
    call each), what each outcome of a call alone says. \<open>System\<close>: any number of such calls
    interleaved, with database faults: identifiers stay unique, the queue a bounded heap and the
    ring consistent whatever the calls are, and every call makes a bounded number of steps; while no
    report carries a status out of the life cycle and nothing is deleted, finished builds stay as
    they are, and without reassignment of stale builds none is assigned twice. \<open>Well_Formed\<close>: calls with
    well-formed arguments store, queue and hand out only well-formed builds (\<open>maintains\<close> of
    \<open>Interleaving\<close>). \<open>Server_Types\<close>: the handlers pass no other arguments, whatever the requests, so that
    a server started on an empty database has and sends only such builds.
  \<^item> \<open>Log_Broker\<close>: \<open>api/logbroker.go\<close>; the threads of publishers and streams as a step relation,
    which never sends on a closed channel, and the event stream that clients decode.
  \<^item> \<open>Blob_Store\<close>: \<open>oss/oss.go\<close> and the download handler of \<open>api/server.go\<close>, on a tree of files whose
    system calls may fail; accepted keys stay below the base directory, stored blobs are
    read back.
  \<^item> \<open>Api\<close>: \<open>api/server.go\<close>, \<open>api/internal.go\<close>, \<open>api/metrics.go\<close>; every handler on the state of the server,
    its responses and its invariants over any history of requests and ticks.
  \<^item> \<open>Buildkit\<close>: \<open>buildkit/client.go\<close>; the command line, the progress stream, the cache rate.
    \<open>Worker\<close>: \<open>worker/worker.go\<close>; the loop, retries, unpacking, the whole course of a build.
    \<open>Config\<close>: \<open>config/config.go\<close>. \<open>Cli\<close>: \<open>src/server/cmd/dtbuild/main.go\<close>.
  \<^item> \<open>Startup\<close>: flags, \<open>Open\<close> and \<open>migrate\<close> of \<open>repo/repo.go\<close>, and the \<open>main\<close> functions of
    \<open>src/server/cmd/dtbuild-server\<close> and \<open>src/server/cmd/dtbuild-worker\<close>. \<open>Upload\<close>: the way of a build context
    from the client over the store to the worker. \<open>Cluster\<close>: the loop body of a worker run against
    the handlers of the server, over a connection that may lose requests and answers and with
    other requests in between; the build that was handed out ends in a final status, when its
    identifier is plain text in a URL and the other requests delete nothing and report statuses of
    the life cycle.

  \<^bold>\<open>Interfaces.\<close> \<open>heap_order\<close> (what \<open>container/heap\<close> needs of \<open>Less\<close>), \<open>bounded_queue\<close> (what the service
  relies on of the queue), \<open>build_persister\<close> (the Go interface \<open>buildPersister\<close>), \<open>sorter\<close> with
  \<open>ring_sorter\<close> and \<open>pending_sorter\<close> (what \<open>sort.Slice\<close> and \<open>ORDER BY\<close> promise), \<open>guarded\<close> with
  \<open>guarded_db\<close> and \<open>service_env\<close> (a relation that every step of the service respects, when the
  reported statuses satisfy \<open>L\<close>; the sublocales of \<open>service_env\<close> are \<open>sound\<close> for any reports, \<open>rows\<close>,
  \<open>safe\<close>, \<open>keeps\<close> and, for a database that answers, \<open>quiet\<close> for legal ones), \<open>blob_store\<close> (what the
  handlers rely on of a store). Each is interpreted on the definitions that model the code.

  \<^bold>\<open>State and errors.\<close> Structs are records, maps are functions or association lists where an
  order matters, errors are values of \<open>outcome\<close> or of a sum, and an out-of-range slice is
  \<open>Panic\<close> or \<open>None\<close>. The counter of builds is a 64-bit word; limits and offsets of the listing are
  added modulo \<open>2 ^ 64\<close>; other Go integers never leave their range and are \<open>int\<close> or \<open>nat\<close>.
  Timestamps are nanoseconds, in the tables of \<open>Repo\<close> seconds; \<open>Timestamps\<close> has the
  texts of the columns. Strings are lists of bytes.

  \<^bold>\<open>Parameters\<close>, for what is not in the sources or is left open by the language: the clock, fresh
  identifiers, sorting of equal keys, the order of ranging over a map, the case mapping of
  non-ASCII letters (identity on ASCII where a theorem needs it), the HTTP transport, \<open>buildctl\<close>
  and its output, JSON decoding of its messages, the tar and gzip formats, the minio client, the
  driver. A database statement is carried out, refused, or carried out with the answer lost,
  as the list \<open>faults\<close> of the database says; PostgreSQL's own refusals (an integer outside the
  range of its column, text with a zero byte) are among the refused ones. A system call of the
  file system fails or stops short as a function \<open>faults\<close> says.

  \<^bold>\<open>Termination.\<close> All definitions are total functions: the loops of the sources run over finite
  data, and those that are not structural (parsing of durations, sifting in the heap, binary
  search, decoding of runes) have a measure. The maintenance loop is a run over a list of
  ticks, the loop of a worker and the threads of the log broker are step relations, and the
  interleavings of service calls are no longer than the bounds that \<open>step_limit\<close> gives for the calls.
  A call is a finite tree of steps, so that a step which blocks forever (a database that never
  answers without failing) is not expressed. No fuel is used.

  \<^bold>\<open>Not modelled.\<close> Matching of paths to routes (\<open>Cluster\<close> has the routes of a worker's requests for identifiers of
  plain characters; what becomes of others is a parameter) and the middleware of chi but for the
  recovery from panics; HTTP and JSON syntax of requests and responses (a response carries the value that is
  encoded, a request the decoded value or nothing); logging; sleeping between retries; the
  usage texts; goroutines of one worker beyond the loop that starts them; tables of an older
  schema (a migration leaves the rows alone); file modes and symbolic links, in the file system and
  in archives. The API gateway in Python (\<open>src/api\<close>), the web frontend (\<open>src/web\<close>) and the deployment
  files are not Go code.
\<close>

end
